(* ===== verification/Prelude.thy ===== *)
theory Prelude
  imports Main "HOL-Library.Word" "HOL-Library.Sublist"
begin

section \<open>Shared vocabulary of the development\<close>

text \<open>
  What the component theories share: the byte type and the big-endian integer
  codec of Go's \<open>encoding/binary\<close>, the unsigned 64-bit wrap-around, slice writes
  (\<open>copy\<close> into a slice at an offset), results as sums, and the list lemmas that
  carry the component proofs. A Go \<open>uint64\<close> counter is a \<open>nat\<close> whose additions go
  through \<open>u64\<close>; the source's idiom \<open>x -= min(x, y)\<close> is exactly the truncated
  subtraction of \<open>nat\<close>.
\<close>

named_theorems codec_simps \<open>equations of the byte codecs\<close>

type_synonym byte = "8 word"
type_synonym bytes = "byte list"

abbreviation Err :: "'e \<Rightarrow> 'e + 'a" where
  "Err \<equiv> Inl"

abbreviation Ok :: "'a \<Rightarrow> 'e + 'a" where
  "Ok \<equiv> Inr"

subsection \<open>Unsigned 64-bit arithmetic\<close>

definition u64 :: "nat \<Rightarrow> nat" where
  "u64 n = n mod 2 ^ 64"

lemma u64_id [simp]: "n < 2 ^ 64 \<Longrightarrow> u64 n = n"
  by (simp add: u64_def)

lemma u64_less [simp]: "u64 n < 2 ^ 64" "u64 n < 18446744073709551616"
  by (simp_all add: u64_def)

lemma u64_le: "u64 n \<le> n"
  by (simp add: u64_def)

text \<open>The conversions \<open>uint64(n)\<close> and \<open>int64(v)\<close>: two's complement.\<close>

definition of_i64 :: "int \<Rightarrow> nat" where
  "of_i64 n = nat (n mod 2 ^ 64)"

definition to_i64 :: "nat \<Rightarrow> int" where
  "to_i64 v = (if v < 2 ^ 63 then int v else int v - 2 ^ 64)"

definition int64_range :: "int \<Rightarrow> bool" where
  "int64_range n \<longleftrightarrow> - (2 ^ 63) \<le> n \<and> n < 2 ^ 63"

lemma i64_roundtrip:
  assumes "int64_range n" shows "to_i64 (of_i64 n) = n" and "of_i64 n < 2 ^ 64"
proof -
  have m: "n mod 2 ^ 64 = (if n < 0 then n + 2 ^ 64 else n)"
    using assms mod_pos_pos_trivial [of "n + 2 ^ 64" "2 ^ 64"]
    by (auto simp: int64_range_def)
  show "to_i64 (of_i64 n) = n"
    using assms unfolding to_i64_def of_i64_def m int64_range_def by auto
  show "of_i64 n < 2 ^ 64"
    by (simp add: of_i64_def nat_less_iff)
qed

text \<open>Signed 64-bit arithmetic wraps around.\<close>

definition wrap64 :: "int \<Rightarrow> int" where
  "wrap64 n = (n + 2 ^ 63) mod 2 ^ 64 - 2 ^ 63"

lemma wrap64_id: "0 \<le> n \<Longrightarrow> n < 2 ^ 63 \<Longrightarrow> wrap64 n = n"
  by (simp add: wrap64_def)

subsection \<open>Big-endian integers\<close>

text \<open>
  \<open>be_encode n v\<close> is what \<open>binary.BigEndian.PutUint16/32/64\<close> stores (\<open>n\<close> = 2, 4, 8);
  \<open>be_decode\<close> is what \<open>Uint16/32/64\<close> reads back.
\<close>

fun be_encode :: "nat \<Rightarrow> nat \<Rightarrow> bytes" where
  "be_encode 0 v = []"
| "be_encode (Suc n) v = be_encode n (v div 256) @ [of_nat v]"

definition be_decode :: "bytes \<Rightarrow> nat" where
  "be_decode bs = foldl (\<lambda>a b. a * 256 + unat b) 0 bs"

lemma unat_byte_less: "unat (b :: byte) < 256"
  by (rule order_less_le_trans [OF unsigned_less]) simp

lemma length_be_encode [simp]: "length (be_encode n v) = n"
  by (induction n arbitrary: v) auto

lemma be_decode_Nil [simp]: "be_decode [] = 0"
  by (simp add: be_decode_def)

lemma be_decode_snoc [simp]: "be_decode (bs @ [b]) = be_decode bs * 256 + unat b"
  by (simp add: be_decode_def)

lemma be_decode_encode: "be_decode (be_encode n v) = v mod 256 ^ n"
proof (induction n arbitrary: v)
  case 0
  then show ?case by simp
next
  case (Suc n)
  have "unat (of_nat v :: byte) = v mod 256"
    by (simp add: unat_of_nat)
  moreover have "v div 256 mod 256 ^ n * 256 + v mod 256 = v mod 256 ^ Suc n"
    by (simp add: mod_mult2_eq algebra_simps)
  ultimately show ?case by (simp add: Suc.IH)
qed

lemma be_decode_encode_id [simp]: "v < 256 ^ n \<Longrightarrow> be_decode (be_encode n v) = v"
  by (simp add: be_decode_encode)

lemma be_decode_bound: "be_decode bs < 256 ^ length bs"
proof (induction bs rule: rev_induct)
  case Nil
  then show ?case by simp
next
  case (snoc b bs)
  have "be_decode bs * 256 + unat b < Suc (be_decode bs) * 256"
    using unat_byte_less [of b] by simp
  also have "\<dots> \<le> 256 ^ length bs * 256"
    using snoc by (intro mult_le_mono1) simp
  finally show ?case by simp
qed

lemma be_encode_decode: "be_encode (length bs) (be_decode bs) = bs"
proof (induction bs rule: rev_induct)
  case Nil
  then show ?case by simp
next
  case (snoc b bs)
  note b = unat_byte_less [of b]
  have q: "(be_decode bs * 256 + unat b) div 256 = be_decode bs"
    using b by simp
  have "(of_nat (be_decode bs * 256 + unat b) :: byte) = of_nat (be_decode bs) * 256 + b"
    by simp
  also have "(256 :: byte) = 0" by simp
  finally show ?case using snoc q by simp
qed

subsection \<open>Slices\<close>

text \<open>
  \<open>copy(data[off:], xs)\<close>: the elements of \<open>xs\<close> replace those of \<open>data\<close> from \<open>off\<close>,
  as far as \<open>data\<close> reaches. \<open>slice data a b\<close> is \<open>data[a:b]\<close> for \<open>a \<le> b \<le> len(data)\<close>.
\<close>

definition blit :: "'a list \<Rightarrow> nat \<Rightarrow> 'a list \<Rightarrow> 'a list" where
  "blit data off xs =
     take off data @ take (length data - off) xs @ drop (off + length xs) data"

definition slice :: "'a list \<Rightarrow> nat \<Rightarrow> nat \<Rightarrow> 'a list" where
  "slice data a b = drop a (take b data)"

lemma length_blit [simp]: "off \<le> length data \<Longrightarrow> length (blit data off xs) = length data"
  by (simp add: blit_def)

lemma blit_append:
  "length pre = off \<Longrightarrow> length xs \<le> length rest \<Longrightarrow>
   blit (pre @ rest) off xs = pre @ xs @ drop (length xs) rest"
  by (simp add: blit_def)

lemma slice_append_right:
  "length xs = a \<Longrightarrow> slice (xs @ ys) a b = take (b - a) ys"
  by (cases "b \<le> length xs") (auto simp: slice_def)

lemma slice_full_append [simp]: "slice (xs @ ys) 0 (length xs) = xs"
  by (simp add: slice_def)

subsection \<open>Rows by key\<close>

lemma filter_unique:
  "distinct (map key xs) \<Longrightarrow> x \<in> set xs \<Longrightarrow> P x \<Longrightarrow> filter (\<lambda>y. key y = key x \<and> P y) xs = [x]"
  by (induction xs) (auto simp: filter_empty_conv image_iff)

end
