(* ===== verification/Log_Codec.thy ===== *)
theory Log_Codec
  imports Prelude
begin

section \<open>The byte format of the agent's log queue\<close>

text \<open>
  \<open>internal/edgeagent/logqueue.go\<close>, from \<open>buildLogChunks\<close> to the end: a log record is
  an \<^emph>\<open>envelope\<close> (version byte, the lengths of its fields, the fields), and a
  \<^emph>\<open>chunk\<close> is a version byte, a record count and that many length-prefixed
  envelopes. Go strings and \<open>json.RawMessage\<close> are byte lists. A time is \<open>None\<close> for
  Go's zero time and otherwise its \<open>UnixNano\<close> value. \<open>json.Valid\<close> is the parameter
  \<open>json\<close>; no property restricts it.
\<close>

record log_record =
  lr_id :: nat
  lr_type :: bytes
  lr_site :: bytes
  lr_version :: nat
  lr_created :: "int option"
  lr_payload :: bytes

datatype log_error =
    LogPayloadEmpty nat
  | LogPayloadInvalid nat
  | LogMetadataTooLong nat
  | LogRecordTooLarge
  | LogChunkUnsupported
  | LogChunkEmpty
  | LogChunkTruncated
  | LogChunkRecordLength
  | LogChunkTrailing
  | LogChunkTrim
  | LogEnvelopeUnsupported
  | LogEnvelopeLength
  | LogEnvelopePayload
  | LogOutOfFuel \<comment> \<open>a cursor loop that did not end; shown impossible\<close>
  | LogStorage nat \<comment> \<open>an error of the database itself, by number\<close>

definition logEnvelopeVersion :: byte where
  "logEnvelopeVersion = 1"

definition logChunkVersion :: byte where
  "logChunkVersion = 1"

definition envelopeHeaderSize :: nat where
  "envelopeHeaderSize = 1 + 2 + 2 + 8 + 8 + 4"

definition maxChunkRecords :: nat where
  "maxChunkRecords = 1024"

lemmas log_consts [codec_simps] =
  logEnvelopeVersion_def logChunkVersion_def envelopeHeaderSize_def maxChunkRecords_def

subsection \<open>Envelopes\<close>

definition logEnvelopeSize :: "log_record \<Rightarrow> nat option" where
  "logEnvelopeSize r =
     (if length (lr_type r) > 2 ^ 16 - 1 \<or> length (lr_site r) > 2 ^ 16 - 1
         \<or> length (lr_payload r) > 2 ^ 32 - 1
      then None
      else Some (1 + 2 + 2 + 8 + 8 + 4
                 + length (lr_type r) + length (lr_site r) + length (lr_payload r)))"

definition encodeLogEnvelopeInto :: "bytes \<Rightarrow> log_record \<Rightarrow> int \<Rightarrow> bytes" where
  "encodeLogEnvelopeInto data r defaultTime =
     (let createdAt = (case lr_created r of None \<Rightarrow> defaultTime | Some t \<Rightarrow> t);
          data = blit data 0 [logEnvelopeVersion];
          data = blit data 1 (be_encode 2 (length (lr_type r)));
          data = blit data 3 (be_encode 2 (length (lr_site r)));
          data = blit data 5 (be_encode 8 (lr_version r));
          data = blit data 13 (be_encode 8 (of_i64 createdAt));
          data = blit data 21 (be_encode 4 (length (lr_payload r)));
          offset = envelopeHeaderSize;
          data = blit data offset (lr_type r);
          offset = offset + length (lr_type r);
          data = blit data offset (lr_site r);
          offset = offset + length (lr_site r)
      in blit data offset (lr_payload r))"

definition encodeLogEnvelope :: "log_record \<Rightarrow> int \<Rightarrow> bytes option" where
  "encodeLogEnvelope r defaultTime =
     (case logEnvelopeSize r of
        None \<Rightarrow> None
      | Some sz \<Rightarrow> Some (encodeLogEnvelopeInto (replicate sz 0) r defaultTime))"

definition decodeLogEnvelope ::
    "(bytes \<Rightarrow> bool) \<Rightarrow> bytes \<Rightarrow> nat \<Rightarrow> log_error + log_record" where
  "decodeLogEnvelope json data i =
     (if length data < envelopeHeaderSize \<or> data ! 0 \<noteq> logEnvelopeVersion
      then Err LogEnvelopeUnsupported
      else
        let typeSize = be_decode (slice data 1 3);
            siteSize = be_decode (slice data 3 5);
            payloadSize = be_decode (slice data 21 25)
        in if envelopeHeaderSize + typeSize + siteSize + payloadSize \<noteq> length data
           then Err LogEnvelopeLength
           else
             let offset = envelopeHeaderSize;
                 typ = slice data offset (offset + typeSize);
                 version = be_decode (slice data 5 13);
                 created = to_i64 (be_decode (slice data 13 21));
                 offset = offset + typeSize;
                 site = slice data offset (offset + siteSize);
                 offset = offset + siteSize;
                 payload = drop offset data
             in if \<not> json payload then Err LogEnvelopePayload
                else Ok \<lparr>lr_id = i, lr_type = typ, lr_site = site, lr_version = version,
                         lr_created = Some created, lr_payload = payload\<rparr>)"

subsection \<open>Chunks\<close>

record encodedLogChunk =
  ck_start :: nat
  ck_count :: nat
  ck_data :: bytes

text \<open>
  The inner loop of \<open>buildLogChunks\<close>: it walks the records from index \<open>end\<close>, of
  which \<open>rest\<close> are left, and stops at the record limit, at the byte limit, or at an
  error.
\<close>

fun chunkScan :: "(bytes \<Rightarrow> bool) \<Rightarrow> nat \<Rightarrow> nat \<Rightarrow> nat \<Rightarrow> nat \<Rightarrow> log_record list
    \<Rightarrow> log_error + (nat \<times> nat)" where
  "chunkScan json maxBytes start end sz [] = Ok (end, sz)"
| "chunkScan json maxBytes start end sz (r # rest) =
     (if \<not> end - start < maxChunkRecords then Ok (end, sz)
      else if lr_payload r = [] then Err (LogPayloadEmpty end)
      else if \<not> json (lr_payload r) then Err (LogPayloadInvalid end)
      else (case logEnvelopeSize r of
              None \<Rightarrow> Err (LogMetadataTooLong end)
            | Some recordSize \<Rightarrow>
                if 5 + 4 + recordSize > maxBytes then Err LogRecordTooLarge
                else if end > start \<and> sz + 4 + recordSize > maxBytes then Ok (end, sz)
                else chunkScan json maxBytes start (Suc end) (sz + 4 + recordSize) rest))"

text \<open>The loop that fills the chunk's buffer, record by record.\<close>

fun chunkFill :: "bytes \<Rightarrow> nat \<Rightarrow> log_record list \<Rightarrow> int \<Rightarrow> bytes" where
  "chunkFill data offset [] defaultTime = data"
| "chunkFill data offset (r # rs) defaultTime =
     (let recordSize = (case logEnvelopeSize r of None \<Rightarrow> 0 | Some n \<Rightarrow> n);
          data = blit data offset (be_encode 4 recordSize);
          offset = offset + 4;
          data = blit data offset
                   (encodeLogEnvelopeInto (slice data offset (offset + recordSize)) r defaultTime)
      in chunkFill data (offset + recordSize) rs defaultTime)"

definition chunkEncode :: "nat \<Rightarrow> log_record list \<Rightarrow> int \<Rightarrow> bytes" where
  "chunkEncode sz rs defaultTime =
     (let data = replicate sz 0;
          data = blit data 0 [logChunkVersion];
          data = blit data 1 (be_encode 4 (length rs))
      in chunkFill data 5 rs defaultTime)"

lemma chunkScan_progress:
  "chunkScan json maxBytes start e sz rs = Ok (e', sz') \<Longrightarrow> e \<le> e'"
  by (induction json maxBytes start e sz rs rule: chunkScan.induct)
     (auto split: if_splits option.splits)

lemma chunkScan_nonempty:
  "chunkScan json maxBytes start start sz (r # rs) = Ok (e', sz') \<Longrightarrow> start < e'"
  by (auto simp: maxChunkRecords_def split: if_splits option.splits dest: chunkScan_progress)

function buildLogChunksFrom :: "(bytes \<Rightarrow> bool) \<Rightarrow> nat \<Rightarrow> int \<Rightarrow> nat \<Rightarrow> log_record list
    \<Rightarrow> log_error + encodedLogChunk list" where
  "buildLogChunksFrom json maxBytes defaultTime start rest =
     (if rest = [] then Ok []
      else (case chunkScan json maxBytes start start 5 rest of
              Inl e \<Rightarrow> Err e
            | Inr (end, sz) \<Rightarrow>
                (let n = end - start;
                     chunk = \<lparr>ck_start = start, ck_count = n,
                              ck_data = chunkEncode sz (take n rest) defaultTime\<rparr>
                 in case buildLogChunksFrom json maxBytes defaultTime end (drop n rest) of
                      Inl e \<Rightarrow> Err e
                    | Inr chunks \<Rightarrow> Ok (chunk # chunks))))"
  by pat_completeness auto
termination
proof (relation "measure (\<lambda>(json, maxBytes, t, start, rest). length rest)", simp)
  fix json maxBytes t start and rest :: "log_record list" and x b e sz n
  assume a: "rest \<noteq> []" "chunkScan json maxBytes start start 5 rest = Ok b" "(e, sz) = b"
    "n = e - start"
  from a(1) obtain r rs where "rest = r # rs"
    by (cases rest) auto
  with a(2,3) have "start < e"
    using chunkScan_nonempty [of json maxBytes start 5 r rs e sz] by simp
  moreover have "0 < length rest"
    using a(1) by simp
  ultimately have "length (drop n rest) < length rest"
    unfolding length_drop a(4) by linarith
  then show "((json, maxBytes, t, e, drop n rest), json, maxBytes, t, start, rest)
      \<in> measure (\<lambda>(json, maxBytes, t, start, rest). length rest)"
    by simp
qed

declare buildLogChunksFrom.simps [simp del]

definition buildLogChunks :: "(bytes \<Rightarrow> bool) \<Rightarrow> log_record list \<Rightarrow> int \<Rightarrow> nat
    \<Rightarrow> log_error + encodedLogChunk list" where
  "buildLogChunks json records defaultTime maxBytes =
     buildLogChunksFrom json maxBytes defaultTime 0 records"

definition logChunkCount :: "bytes \<Rightarrow> log_error + nat" where
  "logChunkCount data =
     (if length data < 5 \<or> data ! 0 \<noteq> logChunkVersion then Err LogChunkUnsupported
      else let count = be_decode (slice data 1 5)
           in if count < 1 then Err LogChunkEmpty else Ok count)"

text \<open>
  \<open>visitLogChunk\<close> calls a closure on each envelope; the closure's variables are the
  state \<open>'s\<close>, and \<open>True\<close> asks for the next envelope.
\<close>

fun visitFrom :: "bytes \<Rightarrow> (nat \<Rightarrow> bytes \<Rightarrow> 's \<Rightarrow> bool \<times> 's) \<Rightarrow> nat \<Rightarrow> nat \<Rightarrow> nat \<Rightarrow> 's
    \<Rightarrow> (log_error option) \<times> 's" where
  "visitFrom data visit 0 index offset s =
     (if offset \<noteq> length data then (Some LogChunkTrailing, s) else (None, s))"
| "visitFrom data visit (Suc left) index offset s =
     (if offset + 4 > length data then (Some LogChunkTruncated, s)
      else let sz = be_decode (slice data offset (offset + 4));
               offset = offset + 4
           in if sz < 1 \<or> offset + sz > length data then (Some LogChunkRecordLength, s)
              else (case visit index (slice data offset (offset + sz)) s of
                      (False, s') \<Rightarrow> (None, s')
                    | (True, s') \<Rightarrow> visitFrom data visit left (Suc index) (offset + sz) s'))"

definition visitLogChunk :: "bytes \<Rightarrow> (nat \<Rightarrow> bytes \<Rightarrow> 's \<Rightarrow> bool \<times> 's) \<Rightarrow> 's
    \<Rightarrow> (log_error option) \<times> 's" where
  "visitLogChunk data visit s =
     (case logChunkCount data of
        Inl e \<Rightarrow> (Some e, s)
      | Inr count \<Rightarrow> visitFrom data visit count 0 5 s)"

fun trimSkip :: "bytes \<Rightarrow> nat \<Rightarrow> nat \<Rightarrow> log_error + nat" where
  "trimSkip data 0 offset = Ok offset"
| "trimSkip data (Suc n) offset =
     (if offset + 4 > length data then Err LogChunkTruncated
      else let sz = be_decode (slice data offset (offset + 4))
           in if sz < 1 \<or> offset + 4 + sz > length data then Err LogChunkRecordLength
              else trimSkip data n (offset + 4 + sz))"

definition trimLogChunk :: "bytes \<Rightarrow> int \<Rightarrow> log_error + bytes" where
  "trimLogChunk data remove =
     (case logChunkCount data of
        Inl e \<Rightarrow> Err e
      | Inr count \<Rightarrow>
          if remove < 0 \<or> remove > int count then Err LogChunkTrim
          else if remove = int count then Ok []
          else (case trimSkip data (nat remove) 5 of
                  Inl e \<Rightarrow> Err e
                | Inr offset \<Rightarrow>
                    Ok ([logChunkVersion] @ be_encode 4 (count - nat remove) @ drop offset data)))"

definition oversizedVisit :: "nat \<Rightarrow> nat \<Rightarrow> bytes \<Rightarrow> nat \<Rightarrow> bool \<times> nat" where
  "oversizedVisit maxBytes index envelope oversized =
     (if length envelope + 4 \<le> maxBytes then (False, oversized) else (True, Suc oversized))"

definition oversizedLogChunkHead :: "bytes \<Rightarrow> nat \<Rightarrow> log_error + nat" where
  "oversizedLogChunkHead data maxBytes =
     (case visitLogChunk data (oversizedVisit maxBytes) 0 of
        (Some e, _) \<Rightarrow> Err e
      | (None, oversized) \<Rightarrow> Ok oversized)"

subsection \<open>The format, as a reference definition\<close>

definition createdOr :: "log_record \<Rightarrow> int \<Rightarrow> int" where
  "createdOr r t = (case lr_created r of None \<Rightarrow> t | Some c \<Rightarrow> c)"

definition envelope :: "log_record \<Rightarrow> int \<Rightarrow> bytes" where
  "envelope r t =
     [1] @ be_encode 2 (length (lr_type r)) @ be_encode 2 (length (lr_site r))
     @ be_encode 8 (lr_version r) @ be_encode 8 (of_i64 (createdOr r t))
     @ be_encode 4 (length (lr_payload r)) @ lr_type r @ lr_site r @ lr_payload r"

definition frame :: "bytes \<Rightarrow> bytes" where
  "frame e = be_encode 4 (length e) @ e"

definition frames :: "bytes list \<Rightarrow> bytes" where
  "frames es = concat (map frame es)"

definition chunk :: "bytes list \<Rightarrow> bytes" where
  "chunk es = [1] @ be_encode 4 (length es) @ frames es"

definition env_ok :: "bytes \<Rightarrow> bool" where
  "env_ok e \<longleftrightarrow> e \<noteq> [] \<and> length e < 2 ^ 32"

definition chunk_ok :: "bytes list \<Rightarrow> bool" where
  "chunk_ok es \<longleftrightarrow> es \<noteq> [] \<and> length es < 2 ^ 32 \<and> list_all env_ok es"

lemma length_frame [simp]: "length (frame e) = 4 + length e"
  by (simp add: frame_def)

lemma frames_simps [simp]:
  "frames [] = []" "frames (e # es) = frame e @ frames es" "frames (xs @ ys) = frames xs @ frames ys"
  by (simp_all add: frames_def)

lemma length_chunk [simp]: "length (chunk es) = 5 + length (frames es)"
  by (simp add: chunk_def)

lemma length_envelope:
  "length (envelope r t) = 25 + length (lr_type r) + length (lr_site r) + length (lr_payload r)"
  by (simp add: envelope_def)

lemma logEnvelopeSize_envelope: "logEnvelopeSize r = Some n \<Longrightarrow> length (envelope r t) = n"
  by (auto simp: logEnvelopeSize_def length_envelope split: if_splits)

lemma envelope_nonempty [simp]: "envelope r t \<noteq> []"
  by (simp add: envelope_def)

lemma blit_skip:
  "length xs \<le> off \<Longrightarrow> blit (xs @ ys) off zs = xs @ blit ys (off - length xs) zs"
  by (simp add: blit_def add.commute)

lemma blit_Cons_skip: "0 < off \<Longrightarrow> blit (x # ys) off zs = x # blit ys (off - 1) zs"
  using blit_skip [of "[x]" off ys zs] by simp

lemma blit_zero: "length zs \<le> length ys \<Longrightarrow> blit ys 0 zs = zs @ drop (length zs) ys"
  by (simp add: blit_def)

lemma encodeLogEnvelopeInto_eq:
  assumes "length data = 25 + length (lr_type r) + length (lr_site r) + length (lr_payload r)"
  shows "encodeLogEnvelopeInto data r t = envelope r t"
  using assms
  by (simp add: encodeLogEnvelopeInto_def envelope_def createdOr_def Let_def codec_simps
      blit_zero blit_skip blit_Cons_skip)

definition record_ok :: "(bytes \<Rightarrow> bool) \<Rightarrow> log_record \<Rightarrow> bool" where
  "record_ok json r \<longleftrightarrow> lr_payload r \<noteq> [] \<and> json (lr_payload r) \<and> logEnvelopeSize r \<noteq> None
     \<and> lr_version r < 2 ^ 64
     \<and> (case lr_created r of None \<Rightarrow> True | Some c \<Rightarrow> int64_range c)"

text \<open>What a reader of the queue gets back for a record appended at \<open>t\<close> under the id \<open>i\<close>.\<close>

definition stored :: "int \<Rightarrow> nat \<Rightarrow> log_record \<Rightarrow> log_record" where
  "stored t i r = r\<lparr>lr_id := i, lr_created := Some (createdOr r t)\<rparr>"

lemma slice_skip: "length xs \<le> a \<Longrightarrow> slice (xs @ ys) a b = slice ys (a - length xs) (b - length xs)"
  by (cases "b \<le> length xs") (auto simp: slice_def)

lemma slice_Cons_skip: "0 < a \<Longrightarrow> slice (x # ys) a b = slice ys (a - 1) (b - 1)"
  by (cases b) (auto simp: slice_def drop_Cons')

lemma slice_zero: "slice ys 0 b = take b ys"
  by (simp add: slice_def)

lemmas slice_simps = slice_skip slice_Cons_skip slice_zero

lemma decode_envelope:
  assumes ok: "record_ok json r" and t: "int64_range (createdOr r t)"
  shows "decodeLogEnvelope json (envelope r t) i = Ok (stored t i r)"
proof -
  have len: "length (lr_type r) < 256 ^ 2" "length (lr_site r) < 256 ^ 2"
      "length (lr_payload r) < 256 ^ 4" "lr_version r < 256 ^ 8"
    using ok by (auto simp: record_ok_def logEnvelopeSize_def split: if_splits)
  have n: "of_i64 (createdOr r t) < 256 ^ 8"
    using i64_roundtrip(2) [OF t] by simp
  have "length (envelope r t) \<ge> 25"
    by (simp add: length_envelope)
  moreover have "be_decode (slice (envelope r t) 1 3) = length (lr_type r)"
      "be_decode (slice (envelope r t) 3 5) = length (lr_site r)"
      "be_decode (slice (envelope r t) 5 13) = lr_version r"
      "be_decode (slice (envelope r t) 13 21) = of_i64 (createdOr r t)"
      "be_decode (slice (envelope r t) 21 25) = length (lr_payload r)"
    using len n by (simp_all add: envelope_def slice_simps del: power.simps)
  moreover have "slice (envelope r t) 25 (25 + length (lr_type r)) = lr_type r"
      "slice (envelope r t) (25 + length (lr_type r))
         (25 + length (lr_type r) + length (lr_site r)) = lr_site r"
      "drop (25 + length (lr_type r) + length (lr_site r)) (envelope r t) = lr_payload r"
    by (simp_all add: envelope_def slice_simps drop_Cons')
  moreover have "envelope r t ! 0 = 1"
    by (simp add: envelope_def)
  ultimately show ?thesis
    using ok i64_roundtrip(1) [OF t]
    by (simp add: decodeLogEnvelope_def Let_def codec_simps length_envelope record_ok_def stored_def)
qed

lemma chunkFill_eq:
  assumes "list_all (\<lambda>r. logEnvelopeSize r \<noteq> None) rs"
    and "length rest = length (frames (map (\<lambda>r. envelope r t) rs))"
    and "off = length pre"
  shows "chunkFill (pre @ rest) off rs t = pre @ frames (map (\<lambda>r. envelope r t) rs)"
  using assms
proof (induction rs arbitrary: pre rest off)
  case Nil
  then show ?case by simp
next
  case (Cons r rs)
  obtain n where n: "logEnvelopeSize r = Some n"
    using Cons.prems(1) by auto
  have len: "length (envelope r t) = n" "n = 25 + length (lr_type r) + length (lr_site r) + length (lr_payload r)"
    using logEnvelopeSize_envelope [OF n] by (auto simp: length_envelope)
  define tl where "tl = drop (4 + n) rest"
  have rest: "length rest = 4 + n + length (frames (map (\<lambda>r. envelope r t) rs))"
    using Cons.prems(2) len by simp
  have s1: "blit (pre @ rest) off (be_encode 4 n) = (pre @ be_encode 4 n) @ drop 4 rest"
    using Cons.prems(3) rest by (simp add: blit_append)
  have "slice ((pre @ be_encode 4 n) @ drop 4 rest) (off + 4) (off + 4 + n) = take n (drop 4 rest)"
    using Cons.prems(3) by (simp only: slice_append_right length_append length_be_encode) simp
  then have s2: "encodeLogEnvelopeInto
      (slice ((pre @ be_encode 4 n) @ drop 4 rest) (off + 4) (off + 4 + n)) r t = envelope r t"
    using rest len by (simp add: encodeLogEnvelopeInto_eq)
  have s3: "blit ((pre @ be_encode 4 n) @ drop 4 rest) (off + 4) (envelope r t)
      = (pre @ frame (envelope r t)) @ tl"
    using Cons.prems(3) rest len
    by (subst blit_append) (simp_all add: frame_def tl_def add.commute)
  have "chunkFill ((pre @ frame (envelope r t)) @ tl) (off + 4 + n) rs t
      = (pre @ frame (envelope r t)) @ frames (map (\<lambda>r. envelope r t) rs)"
    using Cons.prems rest len by (intro Cons.IH) (simp_all add: tl_def)
  then show ?case
    using n s1 s2 s3 by (simp add: Let_def)
qed

lemma chunkEncode_eq:
  assumes "list_all (\<lambda>r. logEnvelopeSize r \<noteq> None) rs"
    and "sz = 5 + length (frames (map (\<lambda>r. envelope r t) rs))"
  shows "chunkEncode sz rs t = chunk (map (\<lambda>r. envelope r t) rs)"
proof -
  let ?n = "length (frames (map (\<lambda>r. envelope r t) rs))"
  have "replicate sz (0 :: byte) = replicate 5 0 @ replicate ?n 0"
    by (simp only: assms(2) replicate_add)
  then have "blit (blit (replicate sz 0) 0 [logChunkVersion]) 1 (be_encode 4 (length rs))
      = ([1] @ be_encode 4 (length rs)) @ replicate ?n 0"
    by (simp add: blit_zero blit_Cons_skip codec_simps)
  then show ?thesis
    using chunkFill_eq [OF assms(1), of "replicate ?n 0" t 5 "[1] @ be_encode 4 (length rs)"]
    by (simp add: chunkEncode_def chunk_def Let_def)
qed

subsection \<open>Reading a chunk\<close>

lemma chunk_split:
  "chunk es = (1 # be_encode 4 (length es)) @ frames es"
  by (simp add: chunk_def)

lemma logChunkCount_chunk: "chunk_ok es \<Longrightarrow> logChunkCount (chunk es) = Ok (length es)"
  by (cases es)
     (auto simp: logChunkCount_def chunk_def chunk_ok_def codec_simps slice_simps Let_def
        simp del: be_encode.simps)

fun visitEnvs :: "(nat \<Rightarrow> bytes \<Rightarrow> 's \<Rightarrow> bool \<times> 's) \<Rightarrow> nat \<Rightarrow> bytes list \<Rightarrow> 's \<Rightarrow> 's" where
  "visitEnvs visit i [] s = s"
| "visitEnvs visit i (e # es) s =
     (case visit i e s of (False, s') \<Rightarrow> s' | (True, s') \<Rightarrow> visitEnvs visit (Suc i) es s')"

lemma read_frame:
  assumes "env_ok e"
  shows "be_decode (slice (pre @ frame e @ post) (length pre) (length pre + 4)) = length e"
    and "slice (pre @ frame e @ post) (length pre + 4) (length pre + 4 + length e) = e"
  using assms by (simp_all add: frame_def slice_simps env_ok_def)

lemma visitFrom_frames:
  assumes "list_all env_ok es"
  shows "visitFrom (pre @ frames es) visit (length es) i (length pre) s = (None, visitEnvs visit i es s)"
  using assms
proof (induction es arbitrary: pre i s)
  case Nil
  then show ?case by simp
next
  case (Cons e es)
  have ok: "env_ok e" using Cons.prems by simp
  have IH: "visitFrom (pre @ frame e @ frames es) visit (length es) (Suc i)
      (length pre + 4 + length e) s' = (None, visitEnvs visit (Suc i) es s')" for s'
    using Cons.IH [of "pre @ frame e" "Suc i" s'] Cons.prems by (simp add: add.assoc)
  show ?case
    using read_frame [OF ok, of pre "frames es"] ok
    by (auto simp: IH Let_def env_ok_def add.assoc [symmetric] split: prod.split bool.split)
qed

lemma visitLogChunk_chunk:
  assumes "chunk_ok es"
  shows "visitLogChunk (chunk es) visit s = (None, visitEnvs visit 0 es s)"
proof -
  have "visitFrom (chunk es) visit (length es) 0 5 s = (None, visitEnvs visit 0 es s)"
    using assms visitFrom_frames [of es "1 # be_encode 4 (length es)" visit 0 s]
    by (simp add: chunk_split chunk_ok_def)
  then show ?thesis
    by (simp add: visitLogChunk_def logChunkCount_chunk [OF assms])
qed

lemma trimSkip_frames:
  assumes "list_all env_ok es" and "k \<le> length es"
  shows "trimSkip (pre @ frames es) k (length pre) = Ok (length pre + length (frames (take k es)))"
  using assms
proof (induction es arbitrary: pre k)
  case Nil
  then show ?case by simp
next
  case (Cons e es)
  have ok: "env_ok e" using Cons.prems by simp
  show ?case
  proof (cases k)
    case 0
    then show ?thesis by simp
  next
    case (Suc k')
    have "trimSkip (pre @ frame e @ frames es) k' (length pre + 4 + length e)
        = Ok (length pre + 4 + length e + length (frames (take k' es)))"
      using Cons.IH [of k' "pre @ frame e"] Cons.prems Suc by (simp add: add.assoc)
    then show ?thesis
      using Suc read_frame [OF ok, of pre "frames es"] ok
      by (simp add: Let_def env_ok_def add.assoc)
  qed
qed

lemma frames_take_drop: "frames es = frames (take k es) @ frames (drop k es)"
  by (simp flip: frames_simps(3))

lemma trimLogChunk_chunk:
  assumes "chunk_ok es" and "k \<le> length es"
  shows "trimLogChunk (chunk es) (int k) = Ok (if k = length es then [] else chunk (drop k es))"
proof -
  have "trimSkip (chunk es) k 5 = Ok (5 + length (frames (take k es)))"
    using trimSkip_frames [of es k "1 # be_encode 4 (length es)"] assms
    by (simp add: chunk_split chunk_ok_def)
  moreover have "drop (5 + length (frames (take k es))) (chunk es) = frames (drop k es)"
    by (simp add: chunk_def drop_Cons' frames_take_drop [of es k])
  moreover have "chunk (drop k es) = [1] @ be_encode 4 (length es - k) @ frames (drop k es)"
    by (simp add: chunk_def)
  ultimately show ?thesis
    using assms by (simp add: trimLogChunk_def logChunkCount_chunk [OF assms(1)] codec_simps)
qed

lemma visitEnvs_oversized:
  "visitEnvs (oversizedVisit m) i es k = k + length (takeWhile (\<lambda>e. \<not> length e + 4 \<le> m) es)"
  by (induction es arbitrary: i k) (auto simp: oversizedVisit_def)

lemma oversizedLogChunkHead_chunk:
  assumes "chunk_ok es"
  shows "oversizedLogChunkHead (chunk es) m = Ok (length (takeWhile (\<lambda>e. \<not> length e + 4 \<le> m) es))"
  by (simp add: oversizedLogChunkHead_def visitLogChunk_chunk [OF assms] visitEnvs_oversized)

text \<open>The envelopes a chunk holds, collected with the visitor.\<close>

definition collectVisit :: "nat \<Rightarrow> bytes \<Rightarrow> bytes list \<Rightarrow> bool \<times> bytes list" where
  "collectVisit i e acc = (True, acc @ [e])"

definition chunkEnvelopes :: "bytes \<Rightarrow> bytes list" where
  "chunkEnvelopes data = snd (visitLogChunk data collectVisit [])"

lemma visitEnvs_collect: "visitEnvs collectVisit i es acc = acc @ es"
  by (induction es arbitrary: i acc) (auto simp: collectVisit_def)

lemma chunkEnvelopes_chunk: "chunk_ok es \<Longrightarrow> chunkEnvelopes (chunk es) = es"
  by (simp add: chunkEnvelopes_def visitLogChunk_chunk visitEnvs_collect)

subsection \<open>What \<open>buildLogChunks\<close> produces\<close>

text \<open>The records a chunk build accepts, and the groups it cuts them into.\<close>

definition acceptable :: "(bytes \<Rightarrow> bool) \<Rightarrow> nat \<Rightarrow> log_record \<Rightarrow> bool" where
  "acceptable json maxBytes r \<longleftrightarrow> lr_payload r \<noteq> [] \<and> json (lr_payload r)
     \<and> (case logEnvelopeSize r of None \<Rightarrow> False | Some n \<Rightarrow> 9 + n \<le> maxBytes)"

abbreviation groupEnvs :: "int \<Rightarrow> log_record list \<Rightarrow> bytes list" where
  "groupEnvs t g \<equiv> map (\<lambda>r. envelope r t) g"

definition group_ok :: "(bytes \<Rightarrow> bool) \<Rightarrow> nat \<Rightarrow> int \<Rightarrow> log_record list \<Rightarrow> bool" where
  "group_ok json maxBytes t g \<longleftrightarrow> g \<noteq> [] \<and> length g \<le> maxChunkRecords
     \<and> list_all (acceptable json maxBytes) g \<and> length (chunk (groupEnvs t g)) \<le> maxBytes"

fun chunkList :: "int \<Rightarrow> nat \<Rightarrow> log_record list list \<Rightarrow> encodedLogChunk list" where
  "chunkList t start [] = []"
| "chunkList t start (g # gs) =
     \<lparr>ck_start = start, ck_count = length g, ck_data = chunk (groupEnvs t g)\<rparr>
     # chunkList t (start + length g) gs"

lemma chunkScan_spec:
  assumes "chunkScan json mb start e sz rs = Ok (e', sz')"
    and "start \<le> e" "e - start \<le> maxChunkRecords" "start < e \<Longrightarrow> sz \<le> mb" "e = start \<Longrightarrow> sz = 5"
  shows "e \<le> e' \<and> e' \<le> e + length rs \<and> e' - start \<le> maxChunkRecords
    \<and> list_all (acceptable json mb) (take (e' - e) rs)
    \<and> sz' = sz + length (frames (groupEnvs t (take (e' - e) rs)))
    \<and> (start < e' \<longrightarrow> sz' \<le> mb)"
  using assms
proof (induction json mb start e sz rs rule: chunkScan.induct)
  case (1 json mb start e sz)
  then show ?case by simp
next
  case (2 json mb start e sz r rest)
  consider (stop) "e' = e" "sz' = sz"
    | (go) n where "logEnvelopeSize r = Some n" "lr_payload r \<noteq> []" "json (lr_payload r)"
        "9 + n \<le> mb" "e - start < maxChunkRecords" "e > start \<Longrightarrow> sz + 4 + n \<le> mb"
        "chunkScan json mb start (Suc e) (sz + 4 + n) rest = Ok (e', sz')"
    using "2.prems"(1) by (force split: if_splits option.splits)
  then show ?case
  proof cases
    case stop
    then show ?thesis using "2.prems" by auto
  next
    case go
    have "Suc e \<le> e' \<and> e' \<le> Suc e + length rest \<and> e' - start \<le> maxChunkRecords
        \<and> list_all (acceptable json mb) (take (e' - Suc e) rest)
        \<and> sz' = sz + 4 + n + length (frames (groupEnvs t (take (e' - Suc e) rest)))
        \<and> (start < e' \<longrightarrow> sz' \<le> mb)"
      using go "2.prems" by (intro "2.IH") (auto split: if_splits)
    moreover have "length (envelope r t) = n"
      using logEnvelopeSize_envelope [OF go(1)] .
    moreover have "acceptable json mb r"
      using go by (simp add: acceptable_def)
    ultimately show ?thesis
      using go by (auto simp: take_Cons')
  qed
qed

lemma chunkScan_complete:
  "list_all (acceptable json mb) rs \<Longrightarrow> \<exists>e' sz'. chunkScan json mb start e sz rs = Ok (e', sz')"
  by (induction json mb start e sz rs rule: chunkScan.induct)
     (auto simp: acceptable_def split: option.splits)

lemma list_all_take_drop: "list_all P (take n xs) \<Longrightarrow> list_all P (drop n xs) \<Longrightarrow> list_all P xs"
  by (metis append_take_drop_id list_all_append)

lemma acceptable_size: "acceptable json mb r \<Longrightarrow> logEnvelopeSize r \<noteq> None"
  by (auto simp: acceptable_def split: option.splits)

lemma buildLogChunksFrom_spec:
  "buildLogChunksFrom json mb t start rs = Ok cks \<Longrightarrow>
   \<exists>gs. concat gs = rs \<and> cks = chunkList t start gs \<and> list_all (group_ok json mb t) gs"
proof (induction json mb t start rs arbitrary: cks rule: buildLogChunksFrom.induct)
  case (1 json mb t start rest)
  show ?case
  proof (cases "rest = []")
    case True
    then show ?thesis
      using "1.prems"
      by (intro exI [of _ "[]"]) (simp add: buildLogChunksFrom.simps [of json mb t start "[]"])
  next
    case False
    with "1.prems" obtain e sz cks' where scan: "chunkScan json mb start start 5 rest = Ok (e, sz)"
      and rec: "buildLogChunksFrom json mb t e (drop (e - start) rest) = Ok cks'"
      and cks: "cks = \<lparr>ck_start = start, ck_count = e - start,
          ck_data = chunkEncode sz (take (e - start) rest) t\<rparr> # cks'"
      unfolding buildLogChunksFrom.simps [of json mb t start rest]
      by (simp add: Let_def split: sum.splits prod.splits)
    let ?g = "take (e - start) rest"
    have sp: "e \<le> start + length rest" "e - start \<le> maxChunkRecords"
        "list_all (acceptable json mb) ?g" "sz = 5 + length (frames (groupEnvs t ?g))"
        "start < e \<longrightarrow> sz \<le> mb"
      using chunkScan_spec [OF scan] by auto
    have pos: "start < e"
      using False scan by (cases rest) (simp_all only: chunkScan_nonempty)
    have enc: "chunkEncode sz ?g t = chunk (groupEnvs t ?g)"
      using sp(3,4) by (intro chunkEncode_eq) (auto simp: list_all_iff dest!: acceptable_size)
    obtain gs where gs: "concat gs = drop (e - start) rest" "cks' = chunkList t e gs"
        "list_all (group_ok json mb t) gs"
      using "1.IH" [OF False scan refl refl refl rec] by auto
    have "group_ok json mb t ?g"
      using sp pos by (auto simp: group_ok_def)
    moreover have "length ?g = e - start"
      using sp(1) pos by simp
    ultimately show ?thesis
      using gs cks enc pos by (intro exI [of _ "?g # gs"]) simp
  qed
qed

lemma buildLogChunksFrom_complete:
  "list_all (acceptable json mb) rs \<Longrightarrow> \<exists>cks. buildLogChunksFrom json mb t start rs = Ok cks"
proof (induction json mb t start rs rule: buildLogChunksFrom.induct)
  case (1 json mb t start rest)
  obtain e sz where scan: "chunkScan json mb start start 5 rest = Ok (e, sz)"
    using chunkScan_complete "1.prems" by blast
  have "list_all (acceptable json mb) (drop (e - start) rest)"
    using "1.prems" by (auto simp: list_all_iff dest: in_set_dropD)
  with "1.IH" [OF _ scan refl refl refl] show ?case
    using scan by (auto simp: buildLogChunksFrom.simps [of json mb t start rest] Let_def)
qed

lemma buildLogChunks_iff:
  "(\<exists>cks. buildLogChunks json rs t mb = Ok cks) \<longleftrightarrow> list_all (acceptable json mb) rs"
proof
  assume "\<exists>cks. buildLogChunks json rs t mb = Ok cks"
  then obtain gs where "concat gs = rs" "list_all (group_ok json mb t) gs"
    using buildLogChunksFrom_spec by (force simp: buildLogChunks_def)
  then show "list_all (acceptable json mb) rs"
    by (auto simp: list_all_iff group_ok_def)
qed (auto simp: buildLogChunks_def intro: buildLogChunksFrom_complete)

lemma chunkList_data:
  "map ck_count (chunkList t start gs) = map length gs"
  "map ck_data (chunkList t start gs) = map (\<lambda>g. chunk (groupEnvs t g)) gs"
  by (induction gs arbitrary: start) auto

lemma chunkList_start:
  "j < length gs \<Longrightarrow> ck_start (chunkList t start gs ! j) = start + length (concat (take j gs))"
proof (induction gs arbitrary: start j)
  case (Cons g gs)
  then show ?case by (cases j) auto
qed simp

lemma length_chunkList [simp]: "length (chunkList t start gs) = length gs"
  by (induction gs arbitrary: start) auto

lemma frames_member: "e \<in> set es \<Longrightarrow> length e \<le> length (frames es)"
  by (induction es) auto

lemma group_chunk_ok:
  assumes "group_ok json mb t g" "mb < 2 ^ 32"
  shows "chunk_ok (groupEnvs t g)"
proof -
  have "length e < 2 ^ 32" if "e \<in> set (groupEnvs t g)" for e
    using frames_member [OF that] assms by (auto simp: group_ok_def)
  then show ?thesis
    using assms(1) by (auto simp: list_all_iff env_ok_def group_ok_def chunk_ok_def codec_simps)
qed

subsection \<open>Properties\<close>

text \<open>
  Property C23: an envelope decodes to the record it was made from. The time is the
  record's own, or the append time for a record without one, and the id is the one
  the reader supplies.
\<close>

theorem envelope_roundtrip:
  assumes "record_ok json r" and "int64_range (createdOr r t)"
  shows "\<exists>data. encodeLogEnvelope r t = Some data \<and> decodeLogEnvelope json data i = Ok (stored t i r)"
proof -
  obtain n where n: "logEnvelopeSize r = Some n"
    using assms(1) by (auto simp: record_ok_def)
  have "encodeLogEnvelope r t = Some (envelope r t)"
    using n encodeLogEnvelopeInto_eq [of "replicate n 0" r t] logEnvelopeSize_envelope [OF n, of t]
    by (simp add: encodeLogEnvelope_def length_envelope)
  then show ?thesis
    using decode_envelope [OF assms] by simp
qed

definition sampleRecord :: log_record where
  "sampleRecord = \<lparr>lr_id = 0, lr_type = [97], lr_site = [98, 99], lr_version = 7,
                   lr_created = None, lr_payload = [123, 125]\<rparr>"

theorem envelope_roundtrip_witness:
  "record_ok (\<lambda>p. p = [123, 125]) sampleRecord \<and> int64_range (createdOr sampleRecord 5)
   \<and> (\<exists>data. encodeLogEnvelope sampleRecord 5 = Some data
        \<and> decodeLogEnvelope (\<lambda>p. p = [123, 125]) data 9 = Ok (stored 5 9 sampleRecord))"
proof -
  have "record_ok (\<lambda>p. p = [123, 125]) sampleRecord" "int64_range (createdOr sampleRecord 5)"
    by (simp_all add: sampleRecord_def record_ok_def createdOr_def int64_range_def logEnvelopeSize_def)
  then show ?thesis
    using envelope_roundtrip [of "\<lambda>p. p = [123, 125]" sampleRecord 5 9] by blast
qed

text \<open>
  Property C22: a batch is cut into chunks exactly when every record is acceptable
  (non-empty valid payload, metadata that fits its length fields, small enough for
  a chunk of its own). The chunks hold the records' envelopes in order and without
  gaps, each holds between one and \<open>maxChunkRecords\<close> of them, none is larger than
  the queue, and each start index is the number of records before it.
\<close>

theorem buildLogChunks_partition:
  assumes "mb < 2 ^ 32"
  shows "case buildLogChunks json rs t mb of
      Inl _ \<Rightarrow> \<not> list_all (acceptable json mb) rs
    | Inr cks \<Rightarrow> list_all (acceptable json mb) rs
        \<and> concat (map (chunkEnvelopes \<circ> ck_data) cks) = map (\<lambda>r. envelope r t) rs
        \<and> list_all (\<lambda>c. 1 \<le> ck_count c \<and> ck_count c \<le> maxChunkRecords
             \<and> length (chunkEnvelopes (ck_data c)) = ck_count c \<and> length (ck_data c) \<le> mb) cks
        \<and> (\<forall>j < length cks. ck_start (cks ! j) = sum_list (map ck_count (take j cks)))"
proof (cases "buildLogChunks json rs t mb")
  case (Inl e)
  then show ?thesis
    using buildLogChunks_iff [of json rs t mb] by auto
next
  case (Inr cks)
  obtain gs where gs: "concat gs = rs" "cks = chunkList t 0 gs" "list_all (group_ok json mb t) gs"
    using buildLogChunksFrom_spec [OF Inr [unfolded buildLogChunks_def]] by blast
  have env: "chunkEnvelopes (chunk (groupEnvs t g)) = groupEnvs t g" if "g \<in> set gs" for g
    using that gs(3) assms by (auto simp: list_all_iff intro!: chunkEnvelopes_chunk group_chunk_ok)
  have nth: "ck_count (cks ! j) = length (gs ! j)" "ck_data (cks ! j) = chunk (groupEnvs t (gs ! j))"
      if "j < length gs" for j
    using that chunkList_data [of t 0 gs] gs(2) by (metis length_chunkList nth_map)+
  have "map (chunkEnvelopes \<circ> ck_data) cks = map (groupEnvs t) gs"
    using env nth gs(2) by (intro nth_equalityI) auto
  then have "concat (map (chunkEnvelopes \<circ> ck_data) cks) = map (\<lambda>r. envelope r t) rs"
    using gs(1) by (simp flip: map_concat)
  moreover have "list_all (\<lambda>c. 1 \<le> ck_count c \<and> ck_count c \<le> maxChunkRecords
      \<and> length (chunkEnvelopes (ck_data c)) = ck_count c \<and> length (ck_data c) \<le> mb) cks"
    using gs(2,3) nth env
    by (auto simp: list_all_length group_ok_def Suc_le_eq)
  moreover have "sum_list (map ck_count (take j cks)) = length (concat (take j gs))" for j
    using gs(2) by (simp add: chunkList_data length_concat flip: take_map)
  ultimately show ?thesis
    using Inr buildLogChunks_iff [of json rs t mb] gs(2) chunkList_start [of _ gs t 0] by auto
qed

theorem buildLogChunks_partition_witness:
  "(1000 :: nat) < 2 ^ 32 \<and>
   (case buildLogChunks (\<lambda>_. True) [sampleRecord] 5 1000 of
      Inl _ \<Rightarrow> False
    | Inr cks \<Rightarrow> concat (map (chunkEnvelopes \<circ> ck_data) cks) = [envelope sampleRecord 5])"
proof -
  have "list_all (acceptable (\<lambda>_. True) 1000) [sampleRecord]"
    by (simp add: acceptable_def sampleRecord_def logEnvelopeSize_def)
  then show ?thesis
    using buildLogChunks_partition [of 1000 "\<lambda>_. True" "[sampleRecord]" 5]
    by (auto split: sum.splits)
qed

end
