(* ===== verification/Log_Queue.thy ===== *)
theory Log_Queue
  imports Log_Codec
begin

section \<open>The agent's durable log queue\<close>

text \<open>
  \<open>internal/edgeagent/logqueue.go\<close>, from the \<open>LogQueue\<close> type to \<open>readUint64\<close>. The
  queue lives in a bolt database: a bucket of chunks keyed by the id of their first
  record, with the bucket's sequence number, and a bucket of counters. Bolt is not
  part of the repository, so the database is a type parameter \<open>'d\<close> and its
  operations are the fields of a \<open>bolt\<close> record that every definition takes; the
  locale \<open>bolt_db\<close> states what bolt documents of them. A transaction
  (\<open>db.Update\<close>) either commits or leaves the database as it was; its \<open>fault\<close>
  argument is the error of a failing database call, if there is one.

  The abstract queue is the list of records \<open>queued\<close>; the lemmas show that
  \<open>AppendBatch\<close>, \<open>BatchSized\<close>, \<open>Ack\<close> and \<open>DropOversizedHead\<close> implement a bounded
  FIFO over it, and that they keep the invariant \<open>lq_inv\<close> that ties the counters to
  the stored chunks.
\<close>

subsection \<open>The database\<close>

text \<open>
  \<open>bo_scan\<close> is what a cursor visits from \<open>First\<close> by \<open>Next\<close>, with the 8-byte
  big-endian keys read as numbers; \<open>bo_clear\<close> is \<open>DeleteBucket\<close> followed by
  \<open>CreateBucket\<close>.
\<close>

record 'd bolt =
  bo_scan :: "'d \<Rightarrow> (nat \<times> bytes) list"
  bo_put :: "nat \<Rightarrow> bytes \<Rightarrow> 'd \<Rightarrow> 'd"
  bo_delete :: "nat \<Rightarrow> 'd \<Rightarrow> 'd"
  bo_sequence :: "'d \<Rightarrow> nat"
  bo_setSequence :: "nat \<Rightarrow> 'd \<Rightarrow> 'd"
  bo_clear :: "'d \<Rightarrow> 'd"
  bo_get :: "'d \<Rightarrow> string \<Rightarrow> bytes option"
  bo_putMeta :: "string \<Rightarrow> bytes \<Rightarrow> 'd \<Rightarrow> 'd"
  bo_deleteMeta :: "string \<Rightarrow> 'd \<Rightarrow> 'd"

definition boltUpdate :: "log_error option \<Rightarrow> ('d \<Rightarrow> log_error + ('a \<times> 'd)) \<Rightarrow> 'd
    \<Rightarrow> (log_error + 'a) \<times> 'd" where
  "boltUpdate fault f d =
     (case f d of
        Inl e \<Rightarrow> (Err e, d)
      | Inr (a, d') \<Rightarrow> (case fault of Some e \<Rightarrow> (Err e, d) | None \<Rightarrow> (Ok a, d')))"

lemma boltUpdate_fault: "isl (fst (boltUpdate (Some e) f d))"
  by (auto simp: boltUpdate_def split: sum.split)

definition totalBytesKey :: string where
  "totalBytesKey = ''total_bytes''"

definition totalRecordsKey :: string where
  "totalRecordsKey = ''total_records''"

definition droppedRecordsKey :: string where
  "droppedRecordsKey = ''dropped_records''"

definition queueVersionKey :: string where
  "queueVersionKey = ''format_version''"

lemmas meta_keys = totalBytesKey_def totalRecordsKey_def droppedRecordsKey_def queueVersionKey_def

definition readUint64 :: "bytes option \<Rightarrow> nat" where
  "readUint64 v =
     (case v of None \<Rightarrow> 0 | Some bs \<Rightarrow> if length bs \<noteq> 8 then 0 else be_decode bs)"

definition putUint64 :: "'d bolt \<Rightarrow> string \<Rightarrow> nat \<Rightarrow> 'd \<Rightarrow> 'd" where
  "putUint64 B key v d = bo_putMeta B key (be_encode 8 v) d"

abbreviation metaUint :: "'d bolt \<Rightarrow> 'd \<Rightarrow> string \<Rightarrow> nat" where
  "metaUint B d key \<equiv> readUint64 (bo_get B d key)"

subsection \<open>Operations\<close>

record 'd log_queue =
  lq_db :: 'd
  lq_notify :: bool
  lq_maxBytes :: nat

definition openUpdate :: "'d bolt \<Rightarrow> 'd \<Rightarrow> log_error + (unit \<times> 'd)" where
  "openUpdate B d =
     (let d = (if bo_get B d queueVersionKey \<noteq> Some [2]
               then let d = (if bo_scan B d \<noteq> [] then bo_clear B d else d);
                        d = bo_deleteMeta B totalBytesKey d;
                        d = bo_deleteMeta B totalRecordsKey d
                    in bo_deleteMeta B droppedRecordsKey d
               else d)
      in Ok ((), bo_putMeta B queueVersionKey [2] d))"

definition OpenLogQueue :: "'d bolt \<Rightarrow> log_error option \<Rightarrow> 'd \<Rightarrow> nat list \<Rightarrow> log_error + 'd log_queue" where
  "OpenLogQueue B fault d maxBytes =
     (let limit = (case maxBytes of [] \<Rightarrow> 2 * 2 ^ 30 | m # _ \<Rightarrow> if m > 0 then m else 2 * 2 ^ 30)
      in case boltUpdate fault (openUpdate B) d of
           (Inl e, _) \<Rightarrow> Err e
         | (Inr _, d') \<Rightarrow> Ok \<lparr>lq_db = d', lq_notify = False, lq_maxBytes = limit\<rparr>)"

text \<open>
  The eviction loop of \<open>AppendBatch\<close>: it takes the first chunk away until the new
  one fits. The loops below carry fuel, since nothing in their text bounds them;
  the operations give them one more step than the bucket has keys.
\<close>

fun evictLoop :: "'d bolt \<Rightarrow> nat \<Rightarrow> nat \<Rightarrow> nat \<Rightarrow> 'd \<times> nat \<times> nat \<times> nat
    \<Rightarrow> log_error + ('d \<times> nat \<times> nat \<times> nat)" where
  "evictLoop B 0 maxBytes need s = Err LogOutOfFuel"
| "evictLoop B (Suc fuel) maxBytes need (d, tot, totalRecords, dropped) =
     (if \<not> u64 (tot + need) > maxBytes then Ok (d, tot, totalRecords, dropped)
      else (case bo_scan B d of
              [] \<Rightarrow> Ok (d, tot, totalRecords, dropped)
            | (key, value) # _ \<Rightarrow>
                (case logChunkCount value of
                   Inl e \<Rightarrow> Err e
                 | Inr count \<Rightarrow>
                     evictLoop B fuel maxBytes need
                       (bo_delete B key d,
                        (if length value \<le> tot then tot - length value else 0),
                        totalRecords - min totalRecords count,
                        u64 (dropped + count)))))"

fun appendLoop :: "'d bolt \<Rightarrow> nat \<Rightarrow> nat \<Rightarrow> encodedLogChunk list \<Rightarrow> 'd \<times> nat \<times> nat \<times> nat
    \<Rightarrow> log_error + ('d \<times> nat \<times> nat \<times> nat)" where
  "appendLoop B maxBytes firstID [] s = Ok s"
| "appendLoop B maxBytes firstID (c # cs) s =
     (case evictLoop B (Suc (length (bo_scan B (fst s)))) maxBytes (length (ck_data c)) s of
        Inl e \<Rightarrow> Err e
      | Inr (d, tot, totalRecords, dropped) \<Rightarrow>
          appendLoop B maxBytes firstID cs
            (bo_put B (u64 (firstID + ck_start c)) (ck_data c) d,
             u64 (tot + length (ck_data c)), u64 (totalRecords + ck_count c), dropped))"

definition appendUpdate :: "'d bolt \<Rightarrow> nat \<Rightarrow> nat \<Rightarrow> encodedLogChunk list \<Rightarrow> 'd
    \<Rightarrow> log_error + (nat list \<times> 'd)" where
  "appendUpdate B maxBytes n chunks d =
     (let firstID = u64 (bo_sequence B d + 1);
          d = bo_setSequence B (u64 (u64 (firstID + n) + (2 ^ 64 - 1))) d;
          tot = metaUint B d totalBytesKey;
          totalRecords = metaUint B d totalRecordsKey;
          dropped = metaUint B d droppedRecordsKey;
          ids = map (\<lambda>i. u64 (firstID + i)) [0..<n]
      in case appendLoop B maxBytes firstID chunks (d, tot, totalRecords, dropped) of
           Inl e \<Rightarrow> Err e
         | Inr (d, tot, totalRecords, dropped) \<Rightarrow>
             Ok (ids, putUint64 B totalRecordsKey totalRecords
                        (putUint64 B totalBytesKey tot
                          (putUint64 B droppedRecordsKey dropped d))))"

definition AppendBatch :: "'d bolt \<Rightarrow> (bytes \<Rightarrow> bool) \<Rightarrow> int \<Rightarrow> log_error option
    \<Rightarrow> 'd log_queue \<Rightarrow> log_record list \<Rightarrow> (log_error + nat list) \<times> 'd log_queue" where
  "AppendBatch B json now fault q records =
     (if records = [] then (Ok [], q)
      else (case buildLogChunks json records now (lq_maxBytes q) of
              Inl e \<Rightarrow> (Err e, q)
            | Inr chunks \<Rightarrow>
                (case boltUpdate fault
                        (appendUpdate B (lq_maxBytes q) (length records) chunks) (lq_db q) of
                   (Inl e, d) \<Rightarrow> (Err e, q\<lparr>lq_db := d\<rparr>)
                 | (Inr ids, d) \<Rightarrow> (Ok ids, q\<lparr>lq_db := d, lq_notify := True\<rparr>))))"

definition Append :: "'d bolt \<Rightarrow> (bytes \<Rightarrow> bool) \<Rightarrow> int \<Rightarrow> log_error option
    \<Rightarrow> 'd log_queue \<Rightarrow> log_record \<Rightarrow> (log_error + nat) \<times> 'd log_queue" where
  "Append B json now fault q r =
     (case AppendBatch B json now fault q [r] of
        (Inl e, q') \<Rightarrow> (Err e, q')
      | (Inr ids, q') \<Rightarrow> (Ok (ids ! 0), q'))"

text \<open>
  \<open>BatchSized\<close>: the closure's variables are the records read so far, their size,
  the decoding error and the stop flag.
\<close>

definition batchVisit :: "(bytes \<Rightarrow> bool) \<Rightarrow> nat \<Rightarrow> nat \<Rightarrow> nat \<Rightarrow> nat \<Rightarrow> bytes
    \<Rightarrow> log_record list \<times> nat \<times> log_error option \<times> bool
    \<Rightarrow> bool \<times> (log_record list \<times> nat \<times> log_error option \<times> bool)" where
  "batchVisit json limit maxBytes firstID index env s =
     (case s of (result, sz, chunkErr, stopped) \<Rightarrow>
        let recordBytes = length env + 4
        in if length result \<ge> limit \<or> maxBytes > 0 \<and> u64 (sz + recordBytes) > maxBytes
           then (False, (result, sz, chunkErr, True))
           else (case decodeLogEnvelope json env (u64 (firstID + index)) of
                   Inl e \<Rightarrow> (False, (result, sz, Some e, stopped))
                 | Inr r \<Rightarrow> (True, (result @ [r], u64 (sz + recordBytes), chunkErr, stopped))))"

fun batchLoop :: "(bytes \<Rightarrow> bool) \<Rightarrow> nat \<Rightarrow> nat \<Rightarrow> (nat \<times> bytes) list \<Rightarrow> log_record list \<times> nat
    \<Rightarrow> log_record list \<times> nat \<times> log_error option" where
  "batchLoop json limit maxBytes [] (result, sz) = (result, sz, None)"
| "batchLoop json limit maxBytes ((firstID, value) # kvs) (result, sz) =
     (if \<not> length result < limit then (result, sz, None)
      else (case visitLogChunk value (batchVisit json limit maxBytes firstID)
                   (result, sz, None, False) of
              (Some e, (result, sz, chunkErr, stopped)) \<Rightarrow> (result, sz, Some e)
            | (None, (result, sz, Some e, stopped)) \<Rightarrow> (result, sz, Some e)
            | (None, (result, sz, None, stopped)) \<Rightarrow>
                if stopped \<or> length result \<ge> limit then (result, sz, None)
                else batchLoop json limit maxBytes kvs (result, sz)))"

definition BatchSized :: "'d bolt \<Rightarrow> (bytes \<Rightarrow> bool) \<Rightarrow> log_error option \<Rightarrow> 'd log_queue
    \<Rightarrow> int \<Rightarrow> nat \<Rightarrow> log_record list \<times> nat \<times> log_error option" where
  "BatchSized B json syncErr q limit maxBytes =
     (let limit = (if limit \<le> 0 then 1000 else limit)
      in case syncErr of
           Some e \<Rightarrow> ([], 0, Some e)
         | None \<Rightarrow> batchLoop json (nat limit) maxBytes (bo_scan B (lq_db q)) ([], 0))"

text \<open>
  One turn of the loop of \<open>DropOversizedHead\<close> and of \<open>Ack\<close>; the flag says whether
  the loop takes another turn.
\<close>

definition dropStep :: "'d bolt \<Rightarrow> nat \<Rightarrow> 'd \<times> nat \<times> nat \<times> nat
    \<Rightarrow> log_error + (bool \<times> 'd \<times> nat \<times> nat \<times> nat)" where
  "dropStep B maxBytes s =
     (case s of (d, tot, totalRecords, dropped) \<Rightarrow>
        (case bo_scan B d of
           [] \<Rightarrow> Ok (False, d, tot, totalRecords, dropped)
         | (firstID, value) # _ \<Rightarrow>
             (case oversizedLogChunkHead value maxBytes of
                Inl e \<Rightarrow> Err e
              | Inr oversized \<Rightarrow>
                  if oversized = 0 then Ok (False, d, tot, totalRecords, dropped)
                  else (case trimLogChunk value (int oversized) of
                          Inl e \<Rightarrow> Err e
                        | Inr trimmed \<Rightarrow>
                            let d = bo_delete B firstID d;
                                tot = tot - min tot (length value);
                                totalRecords = totalRecords - min totalRecords oversized;
                                dropped = u64 (dropped + oversized)
                            in if length trimmed > 0
                               then Ok (True, bo_put B (u64 (firstID + oversized)) trimmed d,
                                        u64 (tot + length trimmed), totalRecords, dropped)
                               else Ok (True, d, tot, totalRecords, dropped)))))"

fun dropLoop :: "'d bolt \<Rightarrow> nat \<Rightarrow> nat \<Rightarrow> 'd \<times> nat \<times> nat \<times> nat
    \<Rightarrow> log_error + ('d \<times> nat \<times> nat \<times> nat)" where
  "dropLoop B 0 maxBytes s = Err LogOutOfFuel"
| "dropLoop B (Suc fuel) maxBytes s =
     (case dropStep B maxBytes s of
        Inl e \<Rightarrow> Err e
      | Inr (again, s') \<Rightarrow> if again then dropLoop B fuel maxBytes s' else Ok s')"

definition dropUpdate :: "'d bolt \<Rightarrow> nat \<Rightarrow> 'd \<Rightarrow> log_error + (nat \<times> 'd)" where
  "dropUpdate B maxBytes d =
     (case dropLoop B (Suc (Suc (length (bo_scan B d)))) maxBytes
             (d, metaUint B d totalBytesKey, metaUint B d totalRecordsKey, 0) of
        Inl e \<Rightarrow> Err e
      | Inr (d, tot, totalRecords, dropped) \<Rightarrow>
          if dropped = 0 then Ok (dropped, d)
          else let d = putUint64 B totalBytesKey tot d;
                   d = putUint64 B totalRecordsKey totalRecords d
               in Ok (dropped, putUint64 B droppedRecordsKey
                                 (u64 (metaUint B d droppedRecordsKey + dropped)) d))"

definition DropOversizedHead :: "'d bolt \<Rightarrow> log_error option \<Rightarrow> 'd log_queue \<Rightarrow> nat
    \<Rightarrow> (log_error + nat) \<times> 'd log_queue" where
  "DropOversizedHead B fault q maxBytes =
     (if maxBytes = 0 then (Ok 0, q)
      else (case boltUpdate fault (dropUpdate B maxBytes) (lq_db q) of
              (r, d) \<Rightarrow> (r, q\<lparr>lq_db := d\<rparr>)))"

definition ackStep :: "'d bolt \<Rightarrow> nat \<Rightarrow> 'd \<times> nat \<times> nat
    \<Rightarrow> log_error + (bool \<times> 'd \<times> nat \<times> nat)" where
  "ackStep B through s =
     (case s of (d, tot, totalRecords) \<Rightarrow>
        (case bo_scan B d of
           [] \<Rightarrow> Ok (False, d, tot, totalRecords)
         | (firstID, value) # _ \<Rightarrow>
             if firstID > through then Ok (False, d, tot, totalRecords)
             else (case logChunkCount value of
                     Inl e \<Rightarrow> Err e
                   | Inr count \<Rightarrow>
                       (let remove = min (int count) (to_i64 (u64 (through - firstID + 1)))
                        in case trimLogChunk value remove of
                             Inl e \<Rightarrow> Err e
                           | Inr trimmed \<Rightarrow>
                               let d = bo_delete B firstID d;
                                   tot = tot - min tot (length value);
                                   totalRecords = totalRecords - min totalRecords (nat remove)
                               in if length trimmed > 0
                                  then Ok (False, bo_put B (u64 (firstID + nat remove)) trimmed d,
                                           u64 (tot + length trimmed), totalRecords)
                                  else Ok (True, d, tot, totalRecords)))))"

fun ackLoop :: "'d bolt \<Rightarrow> nat \<Rightarrow> nat \<Rightarrow> 'd \<times> nat \<times> nat \<Rightarrow> log_error + ('d \<times> nat \<times> nat)" where
  "ackLoop B 0 through s = Err LogOutOfFuel"
| "ackLoop B (Suc fuel) through s =
     (case ackStep B through s of
        Inl e \<Rightarrow> Err e
      | Inr (again, s') \<Rightarrow> if again then ackLoop B fuel through s' else Ok s')"

definition ackUpdate :: "'d bolt \<Rightarrow> nat \<Rightarrow> 'd \<Rightarrow> log_error + (unit \<times> 'd)" where
  "ackUpdate B through d =
     (case ackLoop B (Suc (length (bo_scan B d))) through
             (d, metaUint B d totalBytesKey, metaUint B d totalRecordsKey) of
        Inl e \<Rightarrow> Err e
      | Inr (d, tot, totalRecords) \<Rightarrow>
          Ok ((), putUint64 B totalRecordsKey totalRecords (putUint64 B totalBytesKey tot d)))"

definition Ack :: "'d bolt \<Rightarrow> log_error option \<Rightarrow> 'd log_queue \<Rightarrow> nat
    \<Rightarrow> (log_error + unit) \<times> 'd log_queue" where
  "Ack B fault q through =
     (case boltUpdate fault (ackUpdate B through) (lq_db q) of
        (r, d) \<Rightarrow> (r, q\<lparr>lq_db := d\<rparr>))"

subsection \<open>What bolt documents\<close>

text \<open>
  A cursor visits the keys in byte order, \<open>Put\<close> replaces or inserts, \<open>Delete\<close>
  removes, and the sequence number and the two buckets are independent.
\<close>

fun bucketPut :: "nat \<Rightarrow> bytes \<Rightarrow> (nat \<times> bytes) list \<Rightarrow> (nat \<times> bytes) list" where
  "bucketPut k v [] = [(k, v)]"
| "bucketPut k v ((k', v') # kvs) =
     (if k < k' then (k, v) # (k', v') # kvs
      else if k = k' then (k, v) # kvs
      else (k', v') # bucketPut k v kvs)"

locale bolt_db =
  fixes B :: "'d bolt"
  assumes scan_put: "bo_scan B (bo_put B k v d) = bucketPut k v (bo_scan B d)"
    and scan_delete: "bo_scan B (bo_delete B k d) = filter (\<lambda>p. fst p \<noteq> k) (bo_scan B d)"
    and scan_setSequence: "bo_scan B (bo_setSequence B n d) = bo_scan B d"
    and scan_putMeta: "bo_scan B (bo_putMeta B m v d) = bo_scan B d"
    and scan_deleteMeta: "bo_scan B (bo_deleteMeta B m d) = bo_scan B d"
    and scan_clear: "bo_scan B (bo_clear B d) = []"
    and seq_put: "bo_sequence B (bo_put B k v d) = bo_sequence B d"
    and seq_delete: "bo_sequence B (bo_delete B k d) = bo_sequence B d"
    and seq_setSequence: "bo_sequence B (bo_setSequence B n d) = n"
    and seq_putMeta: "bo_sequence B (bo_putMeta B m v d) = bo_sequence B d"
    and seq_deleteMeta: "bo_sequence B (bo_deleteMeta B m d) = bo_sequence B d"
    and seq_clear: "bo_sequence B (bo_clear B d) = 0"
    and get_put: "bo_get B (bo_put B k v d) = bo_get B d"
    and get_delete: "bo_get B (bo_delete B k d) = bo_get B d"
    and get_setSequence: "bo_get B (bo_setSequence B n d) = bo_get B d"
    and get_putMeta: "bo_get B (bo_putMeta B m v d) = (bo_get B d)(m \<mapsto> v)"
    and get_deleteMeta: "bo_get B (bo_deleteMeta B m d) = (bo_get B d)(m := None)"
    and get_clear: "bo_get B (bo_clear B d) = bo_get B d"

subsection \<open>The contents of the queue\<close>

type_synonym chunks = "(nat \<times> bytes list) list"

definition enc :: "chunks \<Rightarrow> (nat \<times> bytes) list" where
  "enc cs = map (\<lambda>(k, es). (k, chunk es)) cs"

definition bytesOf :: "chunks \<Rightarrow> nat" where
  "bytesOf cs = sum_list (map (\<lambda>(k, es). length (chunk es)) cs)"

definition countOf :: "chunks \<Rightarrow> nat" where
  "countOf cs = sum_list (map (\<lambda>(k, es). length es) cs)"

definition items :: "chunks \<Rightarrow> (nat \<times> bytes) list" where
  "items cs = concat (map (\<lambda>(k, es). zip [k..<k + length es] es) cs)"

definition decodable :: "(bytes \<Rightarrow> bool) \<Rightarrow> bytes \<Rightarrow> bool" where
  "decodable json e \<longleftrightarrow> \<not> isl (decodeLogEnvelope json e 0)"

text \<open>The chunks are well formed and their id ranges are disjoint, ascending and below \<open>hi\<close>.\<close>

fun chain :: "(bytes \<Rightarrow> bool) \<Rightarrow> nat \<Rightarrow> chunks \<Rightarrow> nat \<Rightarrow> bool" where
  "chain json lo [] hi \<longleftrightarrow> lo \<le> hi"
| "chain json lo ((k, es) # cs) hi \<longleftrightarrow>
     lo \<le> k \<and> chunk_ok es \<and> list_all (decodable json) es \<and> chain json (k + length es) cs hi"

definition contents :: "'d bolt \<Rightarrow> 'd \<Rightarrow> chunks" where
  "contents B d = map (\<lambda>(k, v). (k, chunkEnvelopes v)) (bo_scan B d)"

definition queued :: "'d bolt \<Rightarrow> 'd log_queue \<Rightarrow> (nat \<times> bytes) list" where
  "queued B q = items (contents B (lq_db q))"

definition lq_inv :: "(bytes \<Rightarrow> bool) \<Rightarrow> 'd bolt \<Rightarrow> 'd log_queue \<Rightarrow> bool" where
  "lq_inv json B q \<longleftrightarrow>
     (let d = lq_db q; cs = contents B d
      in bo_scan B d = enc cs
         \<and> chain json 1 cs (bo_sequence B d + 1)
         \<and> metaUint B d totalBytesKey = bytesOf cs
         \<and> metaUint B d totalRecordsKey = countOf cs
         \<and> bytesOf cs \<le> lq_maxBytes q
         \<and> lq_maxBytes q < 2 ^ 32
         \<and> bo_sequence B d < 2 ^ 63)"

lemma content_simps [simp]:
  "enc [] = []" "enc ((k, es) # cs) = (k, chunk es) # enc cs" "enc (cs @ cs') = enc cs @ enc cs'"
  "bytesOf [] = 0" "bytesOf ((k, es) # cs) = length (chunk es) + bytesOf cs"
  "bytesOf (cs @ cs') = bytesOf cs + bytesOf cs'"
  "countOf [] = 0" "countOf ((k, es) # cs) = length es + countOf cs"
  "countOf (cs @ cs') = countOf cs + countOf cs'"
  "items [] = []" "items ((k, es) # cs) = zip [k..<k + length es] es @ items cs"
  "items (cs @ cs') = items cs @ items cs'"
  "length (enc cs) = length cs"
  by (simp_all add: enc_def bytesOf_def countOf_def items_def)

lemma length_items [simp]: "length (items cs) = countOf cs"
  by (induction cs) auto

lemma chain_mono: "chain json lo cs hi \<Longrightarrow> lo' \<le> lo \<Longrightarrow> chain json lo' cs hi"
  by (cases cs) auto

lemma chain_le: "chain json lo cs hi \<Longrightarrow> lo \<le> hi"
  by (induction json lo cs hi rule: chain.induct) auto

lemma chain_keys: "chain json lo cs hi \<Longrightarrow> (k, v) \<in> set (enc cs) \<Longrightarrow> lo \<le> k \<and> k < hi"
proof (induction json lo cs hi rule: chain.induct)
  case (2 json lo k' es cs hi)
  then have "k' + length es \<le> hi" "0 < length es"
    using chain_le by (auto simp: chunk_ok_def)
  then have "k' < hi" by linarith
  with 2 show ?case by (auto dest: order_trans)
qed simp

lemma chain_tail: "chain json lo (c # cs) hi \<Longrightarrow> chain json lo cs hi"
  by (cases c) (auto intro: chain_mono)

lemma chain_append:
  "chain json lo cs mid \<Longrightarrow> chain json mid cs' hi \<Longrightarrow> chain json lo (cs @ cs') hi"
  by (induction json lo cs mid rule: chain.induct) (auto intro: chain_mono)

lemma chain_contents: "chain json lo cs hi \<Longrightarrow> map (\<lambda>(k, v). (k, chunkEnvelopes v)) (enc cs) = cs"
  by (induction json lo cs hi rule: chain.induct) (auto simp: chunkEnvelopes_chunk)

lemma contents_enc: "bo_scan B d = enc cs \<Longrightarrow> chain json lo cs hi \<Longrightarrow> contents B d = cs"
  using chain_contents by (metis contents_def)

lemma delete_first:
  assumes "chain json lo ((k, es) # cs) hi"
  shows "filter (\<lambda>p. fst p \<noteq> k) (enc ((k, es) # cs)) = enc cs"
proof -
  have "fst p \<noteq> k" if "p \<in> set (enc cs)" for p
    using assms that chain_keys [of json "k + length es" cs hi "fst p" "snd p"]
    by (auto simp: chunk_ok_def)
  then show ?thesis by (simp add: filter_id_conv)
qed

lemma bucketPut_first:
  assumes "chain json lo cs hi" "k < lo"
  shows "bucketPut k (chunk es) (enc cs) = enc ((k, es) # cs)"
  using assms by (cases cs) auto

lemma bucketPut_last:
  assumes "chain json lo cs hi" "hi \<le> k"
  shows "bucketPut k (chunk es) (enc cs) = enc (cs @ [(k, es)])"
  using assms
proof (induction cs arbitrary: lo)
  case (Cons c cs)
  obtain k' es' where c: "c = (k', es')" by fastforce
  have "k' < k"
    using chain_keys [OF Cons.prems(1), of k' "chunk es'"] Cons.prems(2) c by simp
  then show ?case
    using Cons c chain_tail by (auto intro: Cons.IH)
qed simp

subsection \<open>The loops, on the contents\<close>

fun evict :: "nat \<Rightarrow> nat \<Rightarrow> chunks \<Rightarrow> chunks" where
  "evict maxBytes need [] = []"
| "evict maxBytes need (c # cs) =
     (if bytesOf (c # cs) + need > maxBytes then evict maxBytes need cs else c # cs)"

fun appendChunks :: "nat \<Rightarrow> nat \<Rightarrow> chunks \<Rightarrow> bytes list list \<Rightarrow> chunks" where
  "appendChunks maxBytes next cs [] = cs"
| "appendChunks maxBytes next cs (g # gs) =
     appendChunks maxBytes (next + length g)
       (evict maxBytes (length (chunk g)) cs @ [(next, g)]) gs"

fun newChunks :: "nat \<Rightarrow> bytes list list \<Rightarrow> chunks" where
  "newChunks next [] = []"
| "newChunks next (g # gs) = (next, g) # newChunks (next + length g) gs"

lemma u64_add_left [simp]: "u64 (u64 a + b) = u64 (a + b)"
  by (simp add: u64_def mod_add_left_eq)

lemma evict_suffix: "suffix (evict mb need cs) cs"
  by (induction cs) (auto simp: suffix_ConsI)

lemma evict_fits: "need \<le> mb \<Longrightarrow> bytesOf (evict mb need cs) + need \<le> mb"
  by (induction cs) auto

lemma countOf_suffix: "suffix xs ys \<Longrightarrow> countOf xs \<le> countOf ys"
  by (auto simp: suffix_def)

lemma evict_chain: "chain json lo cs hi \<Longrightarrow> chain json lo (evict mb need cs) hi"
  by (induction cs) (auto dest: chain_tail)

lemma newChunks_chain:
  "list_all (\<lambda>g. chunk_ok g \<and> list_all (decodable json) g) gs \<Longrightarrow>
   chain json next (newChunks next gs) (next + length (concat gs))"
  by (induction gs arbitrary: "next") (auto simp: add.assoc [symmetric])

lemma countOf_newChunks [simp]: "countOf (newChunks next gs) = length (concat gs)"
  by (induction gs arbitrary: "next") auto

lemma items_newChunks: "items (newChunks next gs) = zip [next..<next + length (concat gs)] (concat gs)"
proof (induction gs arbitrary: "next")
  case (Cons g gs)
  have "[next..<next + length (concat (g # gs))]
      = [next..<next + length g] @ [next + length g..<next + length g + length (concat gs)]"
    using upt_add_eq_append [of "next" "next + length g" "length (concat gs)"]
    by (simp add: add.assoc)
  then show ?case using Cons by simp
qed simp

lemma appendChunks_suffix: "suffix (appendChunks mb next cs gs) (cs @ newChunks next gs)"
proof (induction gs arbitrary: "next" cs)
  case (Cons g gs)
  have "suffix ((evict mb (length (chunk g)) cs @ [(next, g)]) @ newChunks (next + length g) gs)
      (cs @ newChunks next (g # gs))"
    using evict_suffix [of mb "length (chunk g)" cs] by (auto simp: suffix_def)
  then show ?case
    unfolding appendChunks.simps by (rule suffix_order.trans [OF Cons.IH])
qed simp

lemma appendChunks_fits:
  "bytesOf cs \<le> mb \<Longrightarrow> list_all (\<lambda>g. length (chunk g) \<le> mb) gs \<Longrightarrow>
   bytesOf (appendChunks mb next cs gs) \<le> mb"
proof (induction gs arbitrary: "next" cs)
  case (Cons g gs)
  then show ?case
    using evict_fits [of "length (chunk g)" mb cs] by simp
qed simp

lemma chain_suffix: "chain json lo cs hi \<Longrightarrow> suffix cs' cs \<Longrightarrow> chain json lo cs' hi"
  by (induction cs) (auto simp: suffix_Cons dest: chain_tail)

lemma items_suffix: "suffix cs' cs \<Longrightarrow> suffix (items cs') (items cs)"
  by (auto simp: suffix_def)

lemma countOf_le_bytesOf: "countOf cs \<le> bytesOf cs"
proof (induction cs)
  case (Cons c cs)
  have "length es \<le> length (frames es)" for es
    by (induction es) auto
  then show ?case using Cons by (cases c) (auto intro: add_mono trans_le_add2)
qed simp

fun ackChunks :: "nat \<Rightarrow> chunks \<Rightarrow> chunks" where
  "ackChunks through [] = []"
| "ackChunks through ((k, es) # cs) =
     (if k > through then (k, es) # cs
      else let n = min (length es) (through - k + 1)
           in if n = length es then ackChunks through cs else (k + n, drop n es) # cs)"

abbreviation tooBig :: "nat \<Rightarrow> bytes \<Rightarrow> bool" where
  "tooBig m e \<equiv> \<not> length e + 4 \<le> m"

fun dropChunks :: "nat \<Rightarrow> chunks \<Rightarrow> chunks" where
  "dropChunks m [] = []"
| "dropChunks m ((k, es) # cs) =
     (let n = length (takeWhile (tooBig m) es)
      in if n = length es then dropChunks m cs else (k + n, drop n es) # cs)"

lemma chunk_ok_drop: "chunk_ok es \<Longrightarrow> n < length es \<Longrightarrow> chunk_ok (drop n es)"
  by (auto simp: chunk_ok_def list_all_iff dest: in_set_dropD)

lemma list_all_drop: "list_all P xs \<Longrightarrow> list_all P (drop n xs)"
  by (auto simp: list_all_iff dest: in_set_dropD)

lemma takeWhile_all: "length (takeWhile P xs) = length xs \<longleftrightarrow> list_all P xs"
  by (induction xs) auto

lemma ackChunks_chain: "chain json lo cs hi \<Longrightarrow> chain json lo (ackChunks through cs) hi"
proof (induction through cs arbitrary: lo rule: ackChunks.induct)
  case (2 through k es cs)
  then show ?case
    using chain_mono [of json "k + length es" cs hi lo]
    by (auto simp: Let_def chunk_ok_drop list_all_drop min_def)
qed simp

lemma dropChunks_chain: "chain json lo cs hi \<Longrightarrow> chain json lo (dropChunks m cs) hi"
proof (induction m cs arbitrary: lo rule: dropChunks.induct)
  case (2 m k es cs)
  have "length (takeWhile (tooBig m) es) \<le> length es"
    by (rule length_takeWhile_le)
  with 2 show ?case
    using chain_mono [of json "k + length es" cs hi lo]
    by (auto simp: Let_def chunk_ok_drop list_all_drop)
qed simp

lemma items_above: "chain json lo cs hi \<Longrightarrow> (i, e) \<in> set (items cs) \<Longrightarrow> lo \<le> i \<and> i < hi"
proof (induction json lo cs hi rule: chain.induct)
  case (2 json lo k es cs hi)
  then show ?case
    using chain_le [of json "k + length es" cs hi] by (auto dest!: set_zip_leftD)
qed simp

lemma filter_zip_upt:
  "filter (\<lambda>p. t < fst p) (zip [k..<k + length es] es) =
   zip [k + (Suc t - k)..<k + length es] (drop (Suc t - k) es)"
proof (induction es arbitrary: k)
  case (Cons e es)
  have "[k..<k + length (e # es)] = k # [Suc k..<Suc k + length es]"
    by (simp add: upt_rec)
  then show ?case
    using Cons [of "Suc k"] by (cases "t < k") (auto simp: Suc_diff_le not_less drop_Cons')
qed simp

lemma items_ackChunks:
  "chain json lo cs hi \<Longrightarrow> items (ackChunks through cs) = filter (\<lambda>p. through < fst p) (items cs)"
proof (induction through cs arbitrary: lo rule: ackChunks.induct)
  case (2 through k es cs)
  have tl: "chain json (k + length es) cs hi"
    using "2.prems" by simp
  have keep: "filter (\<lambda>p. through < fst p) (items cs) = items cs" if "through < k + length es"
    using that items_above [OF tl] by (intro filter_True) force
  show ?case
  proof (cases "through < k")
    case True
    then show ?thesis using keep filter_zip_upt [of through k es] by simp
  next
    case False
    then show ?thesis
      using 2 tl keep filter_zip_upt [of through k es]
      by (auto simp: Let_def min_def Suc_diff_le)
  qed
qed simp

lemma dropWhile_zip: "dropWhile (\<lambda>p. P (snd p)) (zip xs ys) =
    drop (length (takeWhile P (take (length xs) ys))) (zip xs ys)"
  by (induction xs arbitrary: ys) (auto simp: zip_Cons1 split: list.split)

lemma dropWhile_append_left: "dropWhile P xs \<noteq> [] \<Longrightarrow> dropWhile P (xs @ ys) = dropWhile P xs @ ys"
  by (induction xs) auto

lemma items_dropChunks: "items (dropChunks m cs) = dropWhile (\<lambda>p. tooBig m (snd p)) (items cs)"
proof (induction m cs rule: dropChunks.induct)
  case (2 m k es cs)
  let ?n = "length (takeWhile (tooBig m) es)" and ?z = "zip [k..<k + length es] es"
  have z: "dropWhile (\<lambda>p. tooBig m (snd p)) ?z = drop ?n ?z"
    using dropWhile_zip [of "tooBig m" "[k..<k + length es]" es] by simp
  show ?case
  proof (cases "?n = length es")
    case True
    then have all: "\<forall>p \<in> set ?z. tooBig m (snd p)"
      unfolding takeWhile_all list_all_iff by (auto dest: set_zip_rightD)
    show ?thesis
      using 2 True by (simp only: dropChunks.simps Let_def content_simps if_True refl
          dropWhile_append2 [OF all [rule_format]])
  next
    case False
    then have lt: "?n < length es"
      using length_takeWhile_le [of "tooBig m" es] by linarith
    then have ne: "drop ?n ?z \<noteq> []" by simp
    have "dropWhile (\<lambda>p. tooBig m (snd p)) (?z @ items cs) = drop ?n ?z @ items cs"
      using dropWhile_append_left [of "\<lambda>p. tooBig m (snd p)" ?z "items cs"] ne unfolding z by blast
    moreover have "drop ?n ?z = zip [k + ?n..<k + ?n + length (drop ?n es)] (drop ?n es)"
      using lt by (simp add: drop_zip)
    ultimately show ?thesis
      using False by (simp only: dropChunks.simps Let_def content_simps if_False)
  qed
qed simp

text \<open>The longest prefix a batch of at most \<open>limit\<close> records and \<open>m\<close> bytes can hold.\<close>

fun batchPrefix :: "nat \<Rightarrow> nat \<Rightarrow> nat \<Rightarrow> (nat \<times> bytes) list \<Rightarrow> (nat \<times> bytes) list" where
  "batchPrefix limit m used [] = []"
| "batchPrefix limit m used (x # xs) =
     (if limit = 0 \<or> m > 0 \<and> used + (length (snd x) + 4) > m then []
      else x # batchPrefix (limit - 1) m (used + (length (snd x) + 4)) xs)"

definition batchBytes :: "(nat \<times> bytes) list \<Rightarrow> nat" where
  "batchBytes xs = sum_list (map (\<lambda>x. length (snd x) + 4) xs)"

definition recordOf :: "(bytes \<Rightarrow> bool) \<Rightarrow> nat \<times> bytes \<Rightarrow> log_record" where
  "recordOf json x = projr (decodeLogEnvelope json (snd x) (fst x))"

lemma batchBytes_simps [simp]:
  "batchBytes [] = 0" "batchBytes (x # xs) = length (snd x) + 4 + batchBytes xs"
  "batchBytes (xs @ ys) = batchBytes xs + batchBytes ys"
  by (simp_all add: batchBytes_def)

lemma batchPrefix_prefix: "prefix (batchPrefix limit m used xs) xs"
  by (induction limit m used xs rule: batchPrefix.induct) auto

lemma batchPrefix_limit: "length (batchPrefix limit m used xs) \<le> limit"
  by (induction limit m used xs rule: batchPrefix.induct) auto

lemma batchPrefix_fits: "0 < m \<Longrightarrow> used \<le> m \<Longrightarrow> used + batchBytes (batchPrefix limit m used xs) \<le> m"
proof (induction limit m used xs rule: batchPrefix.induct)
  case (2 limit m used x xs)
  then show ?case by (auto simp: not_less add.assoc)
qed simp

lemma batchPrefix_maximal:
  "xs = batchPrefix limit m used xs @ y # ys \<Longrightarrow>
   length (batchPrefix limit m used xs) = limit
   \<or> 0 < m \<and> m < used + batchBytes (batchPrefix limit m used xs) + (length (snd y) + 4)"
proof (induction limit m used xs rule: batchPrefix.induct)
  case (2 limit m used x xs)
  then show ?case by (auto simp: add.assoc split: if_splits)
qed simp

lemma batchPrefix_append:
  "batchPrefix limit m used (xs @ ys) =
     (if length (batchPrefix limit m used xs) < length xs then batchPrefix limit m used xs
      else xs @ batchPrefix (limit - length xs) m (used + batchBytes xs) ys)"
proof (induction limit m used xs rule: batchPrefix.induct)
  case (2 limit m used x xs)
  then show ?case by (simp add: add.assoc)
qed simp

lemma batchPrefix_whole: "\<not> length (batchPrefix limit m used xs) < length xs \<Longrightarrow> batchPrefix limit m used xs = xs"
  using batchPrefix_prefix [of limit m used xs] by (metis not_equal_is_parallel prefix_length_less
      prefix_order.less_le)

lemma batchPrefix_0 [simp]: "batchPrefix 0 m used xs = []"
  by (cases xs) auto

lemma batchPrefix_unlimited: "length xs \<le> limit \<Longrightarrow> batchPrefix limit 0 used xs = xs"
  by (induction xs arbitrary: limit used) auto

lemma decode_id:
  "decodeLogEnvelope json e i = map_sum id (\<lambda>r. r\<lparr>lr_id := i\<rparr>) (decodeLogEnvelope json e 0)"
  by (simp add: decodeLogEnvelope_def Let_def)

lemma decodable_decode: "decodable json e \<Longrightarrow> decodeLogEnvelope json e i = Ok (recordOf json (i, e))"
  unfolding decodable_def recordOf_def decode_id [of json e i]
  by (cases "decodeLogEnvelope json e 0") (auto simp: decode_id [of json e i])

lemma visitEnvs_batch:
  assumes "list_all (decodable json) es" "length res \<le> limit" "k + i + length es \<le> 2 ^ 63"
    and "sz + length (frames es) < 2 ^ 64"
  shows "visitEnvs (batchVisit json limit m k) i es (res, sz, None, False) =
    (let p = batchPrefix (limit - length res) m sz (zip [k + i..<k + i + length es] es)
     in (res @ map (recordOf json) p, sz + batchBytes p, None, length p < length es))"
  using assms
proof (induction es arbitrary: i res sz)
  case Nil
  then show ?case by simp
next
  case (Cons e es)
  have up: "[k + i..<k + i + length (e # es)] = (k + i) # [k + Suc i..<k + Suc i + length es]"
    by (simp add: upt_rec)
  have u: "u64 (sz + (length e + 4)) = sz + (length e + 4)" "u64 (k + i) = k + i"
    using Cons.prems(3,4) by auto
  show ?case
  proof (cases "length res \<ge> limit \<or> m > 0 \<and> sz + (length e + 4) > m")
    case True
    then show ?thesis
      unfolding up using u by (auto simp: batchVisit_def Let_def)
  next
    case False
    have dec: "decodeLogEnvelope json e (k + i) = Ok (recordOf json (k + i, e))"
      using Cons.prems(1) by (simp add: decodable_decode)
    have l: "limit - length res \<noteq> 0" "limit - length (res @ [r]) = limit - length res - 1" for r
      using False by auto
    show ?thesis
      unfolding up
      using False u dec l Cons.prems
        Cons.IH [of "res @ [recordOf json (k + i, e)]" "Suc i" "sz + (length e + 4)"]
      by (simp add: batchVisit_def Let_def add.assoc)
  qed
qed

lemma batchBytes_zip: "batchBytes (zip [k..<k + length es] es) = length (frames es)"
proof (induction es arbitrary: k)
  case (Cons e es)
  have "[k..<k + length (e # es)] = k # [Suc k..<Suc k + length es]"
    by (simp add: upt_rec)
  then show ?case using Cons [of "Suc k"] by simp
qed simp

lemma batchLoop_batchPrefix:
  assumes "chain json lo cs hi" "hi \<le> 2 ^ 63" "length res \<le> limit" "sz + bytesOf cs < 2 ^ 64"
  shows "batchLoop json limit m (enc cs) (res, sz) =
    (let p = batchPrefix (limit - length res) m sz (items cs)
     in (res @ map (recordOf json) p, sz + batchBytes p, None))"
  using assms
proof (induction cs arbitrary: lo res sz)
  case Nil
  then show ?case by simp
next
  case (Cons c cs)
  obtain k es where c: "c = (k, es)" by fastforce
  have ok: "chunk_ok es" "list_all (decodable json) es" "chain json (k + length es) cs hi"
    using Cons.prems(1) c by auto
  let ?z = "zip [k..<k + length es] es"
  let ?p = "batchPrefix (limit - length res) m sz ?z"
  have len: "length ?z = length es" by simp
  have v: "visitLogChunk (chunk es) (batchVisit json limit m k) (res, sz, None, False) =
      (None, res @ map (recordOf json) ?p, sz + batchBytes ?p, None, length ?p < length es)"
    using visitEnvs_batch [OF ok(2) Cons.prems(3), of k 0 sz m] chain_le [OF ok(3)] Cons.prems(2,4) c
    by (simp add: visitLogChunk_chunk [OF ok(1)] Let_def)
  consider (full) "limit \<le> length res" | (stop) "length ?p < length es" | (go) "length res < limit" "?p = ?z"
    using batchPrefix_whole [of "limit - length res" m sz ?z] by fastforce
  then show ?case
  proof cases
    case full
    then show ?thesis using c by (simp add: Let_def)
  next
    case stop
    then have "batchPrefix (limit - length res) m sz (items (c # cs)) = ?p"
      using c by (simp add: batchPrefix_append)
    then show ?thesis
      using stop c v by (auto simp: Let_def)
  next
    case go
    let ?res = "res @ map (recordOf json) ?z" and ?sz = "sz + batchBytes ?z"
    have le: "length ?res \<le> limit"
      using batchPrefix_limit [of "limit - length res" m sz ?z] go by simp
    have "batchPrefix (limit - length res) m sz (items (c # cs))
        = ?z @ batchPrefix (limit - length ?res) m ?sz (items cs)"
      using c go(2) by (simp add: batchPrefix_append)
    moreover have "batchLoop json limit m (enc cs) (?res, ?sz) =
      (let p = batchPrefix (limit - length ?res) m ?sz (items cs)
       in (?res @ map (recordOf json) p, ?sz + batchBytes p, None))"
      using Cons.prems(2,4) c le batchBytes_zip [of k es]
      by (intro Cons.IH [OF ok(3)]) simp_all
    ultimately show ?thesis
      using go v c le by (auto simp: Let_def)
  qed
qed

text \<open>The ranges Go's types give a record: \<open>uint64\<close> and an \<open>UnixNano\<close> that does not overflow.\<close>

definition typed :: "int \<Rightarrow> log_record \<Rightarrow> bool" where
  "typed t r \<longleftrightarrow> lr_version r < 2 ^ 64 \<and> int64_range (createdOr r t)"

lemma typed_record_ok: "typed t r \<Longrightarrow> acceptable json mb r \<Longrightarrow> record_ok json r"
  by (auto simp: typed_def acceptable_def record_ok_def createdOr_def split: option.splits)

lemma decode_accepted:
  "typed t r \<Longrightarrow> acceptable json mb r \<Longrightarrow> decodeLogEnvelope json (envelope r t) i = Ok (stored t i r)"
  by (intro decode_envelope typed_record_ok) (auto simp: typed_def)

lemma group_chunk:
  assumes "group_ok json mb t g" "list_all (typed t) g" "mb < 2 ^ 32"
  shows "chunk_ok (groupEnvs t g) \<and> list_all (decodable json) (groupEnvs t g)
    \<and> length (chunk (groupEnvs t g)) \<le> mb"
  using assms group_chunk_ok [OF assms(1,3)]
  by (auto simp: list_all_iff group_ok_def decodable_def decode_accepted)

lemma appendChunks_no_evict:
  "bytesOf cs + bytesOf (newChunks next gs) \<le> mb \<Longrightarrow> appendChunks mb next cs gs = cs @ newChunks next gs"
proof (induction gs arbitrary: "next" cs)
  case (Cons g gs)
  have "evict mb (length (chunk g)) cs = cs"
    using Cons.prems by (cases cs) auto
  then show ?case using Cons by simp
qed simp

lemma bytesOf_newChunks:
  "bytesOf (newChunks next (map (groupEnvs t) gs)) = sum_list (map (length \<circ> ck_data) (chunkList t start gs))"
  by (induction gs arbitrary: "next" start) auto

lemma append_sequence: "s + n < 2 ^ 63 \<Longrightarrow> u64 (u64 (s + 1 + n) + (2 ^ 64 - 1)) = s + n"
proof -
  assume a: "s + n < 2 ^ 63"
  have "s + 1 + n + (2 ^ 64 - 1) = s + n + 2 ^ 64" by simp
  then show ?thesis
    using a by (simp only: u64_add_left) (simp add: u64_def)
qed

lemma ackChunks_bytes: "bytesOf (ackChunks through cs) \<le> bytesOf cs"
proof (induction through cs rule: ackChunks.induct)
  case (2 through k es cs)
  have "length (frames (drop n es)) \<le> length (frames es)" for n
    by (simp add: frames_take_drop [of es n])
  with 2 show ?case by (auto simp: Let_def intro: trans_le_add2)
qed simp

lemma dropChunks_bytes: "bytesOf (dropChunks m cs) \<le> bytesOf cs"
proof (induction m cs rule: dropChunks.induct)
  case (2 m k es cs)
  have "length (frames (drop n es)) \<le> length (frames es)" for n
    by (simp add: frames_take_drop [of es n])
  with 2 show ?case by (auto simp: Let_def intro: trans_le_add2)
qed simp

lemma dropChunks_count: "countOf (dropChunks m cs) \<le> countOf cs"
  by (induction m cs rule: dropChunks.induct) (auto simp: Let_def intro: trans_le_add2)

lemma dropChunks_same:
  "list_all (\<lambda>c. snd c \<noteq> []) cs \<Longrightarrow> countOf cs - countOf (dropChunks m cs) = 0 \<Longrightarrow> dropChunks m cs = cs"
proof (induction m cs rule: dropChunks.induct)
  case (2 m k es cs)
  let ?n = "length (takeWhile (tooBig m) es)"
  have "countOf (dropChunks m ((k, es) # cs)) + ?n \<le> countOf ((k, es) # cs)"
    using dropChunks_count [of m cs] length_takeWhile_le [of "tooBig m" es] by (auto simp: Let_def)
  then have "?n = 0"
    using 2(3) by linarith
  then show ?case using 2(2) by (simp add: Let_def)
qed simp

lemma chain_nonempty: "chain json lo cs hi \<Longrightarrow> list_all (\<lambda>c. snd c \<noteq> []) cs"
  by (induction json lo cs hi rule: chain.induct) (auto simp: chunk_ok_def)

text \<open>The loops leave the sequence number and the counters' bucket alone.\<close>

definition same_meta :: "'d bolt \<Rightarrow> 'd \<Rightarrow> 'd \<Rightarrow> bool" where
  "same_meta B d d' \<longleftrightarrow> bo_sequence B d' = bo_sequence B d \<and> bo_get B d' = bo_get B d"

context bolt_db
begin

lemmas scan_laws [simp] = scan_put scan_delete scan_setSequence scan_putMeta scan_deleteMeta scan_clear

lemmas seq_laws [simp] = seq_put seq_delete seq_setSequence seq_putMeta seq_deleteMeta seq_clear

lemmas get_laws [simp] = get_put get_delete get_setSequence get_putMeta get_deleteMeta get_clear

lemma metaUint_put [simp]:
  "v < 2 ^ 64 \<Longrightarrow> metaUint B (putUint64 B m v d) m' = (if m' = m then v else metaUint B d m')"
  by (simp add: putUint64_def readUint64_def)

lemma putUint64_laws [simp]:
  "bo_scan B (putUint64 B m v d) = bo_scan B d" "bo_sequence B (putUint64 B m v d) = bo_sequence B d"
  by (simp_all add: putUint64_def)

lemma evictLoop_evict:
  assumes "bo_scan B d = enc cs" "chain json lo cs hi" "length cs < fuel"
    and "bytesOf cs + need < 2 ^ 64" "dropped < 2 ^ 64"
  shows "\<exists>d'. evictLoop B fuel mb need (d, bytesOf cs, countOf cs, dropped)
      = Ok (d', bytesOf (evict mb need cs), countOf (evict mb need cs),
            u64 (dropped + (countOf cs - countOf (evict mb need cs))))
    \<and> bo_scan B d' = enc (evict mb need cs) \<and> same_meta B d d'"
  using assms
proof (induction cs arbitrary: fuel d dropped lo)
  case Nil
  then show ?case by (cases fuel) (auto simp: same_meta_def)
next
  case (Cons c cs)
  obtain k es f where [simp]: "c = (k, es)" "fuel = Suc f"
    using Cons.prems(3) by (cases c; cases fuel) auto
  show ?case
  proof (cases "bytesOf (c # cs) + need > mb")
    case False
    then show ?thesis using Cons.prems by (auto simp: same_meta_def)
  next
    case True
    let ?d = "bo_delete B k d"
    have del: "bo_scan B ?d = enc cs"
      using delete_first Cons.prems(1,2) by simp
    have ok: "chunk_ok es" "chain json lo cs hi"
      using Cons.prems(2) chain_tail by auto
    obtain d' where IH: "evictLoop B f mb need (?d, bytesOf cs, countOf cs, u64 (dropped + length es))
        = Ok (d', bytesOf (evict mb need cs), countOf (evict mb need cs),
              u64 (u64 (dropped + length es) + (countOf cs - countOf (evict mb need cs))))"
        "bo_scan B d' = enc (evict mb need cs)" "same_meta B ?d d'"
      using Cons.IH [of ?d lo f "u64 (dropped + length es)"] del ok(2) Cons.prems(3,4) by auto
    have "countOf (evict mb need cs) \<le> countOf cs"
      by (intro countOf_suffix evict_suffix)
    then have "u64 (dropped + length es + (countOf cs - countOf (evict mb need cs)))
        = u64 (dropped + (countOf (c # cs) - countOf (evict mb need cs)))"
      by (intro arg_cong [where f = u64]) simp
    then show ?thesis
      using IH True Cons.prems ok by (auto simp: logChunkCount_chunk same_meta_def min_def)
  qed
qed

lemma appendLoop_appendChunks:
  assumes "bo_scan B d = enc cs" "chain json lo cs (firstID + start)" "bytesOf cs \<le> mb" "mb < 2 ^ 32"
    and "list_all (\<lambda>g. chunk_ok (groupEnvs t g) \<and> list_all (decodable json) (groupEnvs t g)
          \<and> length (chunk (groupEnvs t g)) \<le> mb) gs"
    and "firstID + start + length (concat gs) \<le> 2 ^ 63" "dropped < 2 ^ 64"
  shows "\<exists>d'. let cs' = appendChunks mb (firstID + start) cs (map (groupEnvs t) gs) in
      appendLoop B mb firstID (chunkList t start gs) (d, bytesOf cs, countOf cs, dropped)
        = Ok (d', bytesOf cs', countOf cs', u64 (dropped + (countOf cs + length (concat gs) - countOf cs')))
      \<and> bo_scan B d' = enc cs' \<and> same_meta B d d'"
  using assms
proof (induction gs arbitrary: d cs start dropped)
  case Nil
  then show ?case by (simp add: same_meta_def)
next
  case (Cons g gs)
  let ?e = "groupEnvs t g" and ?key = "firstID + start"
  let ?ev = "evict mb (length (chunk ?e)) cs"
  let ?cs = "?ev @ [(?key, ?e)]"
  let ?res = "appendChunks mb (?key + length g) ?cs (map (groupEnvs t) gs)"
  have g: "chunk_ok ?e" "list_all (decodable json) ?e" "length (chunk ?e) \<le> mb"
    using Cons.prems(5) by auto
  obtain d1 where d1: "evictLoop B (Suc (length cs)) mb (length (chunk ?e)) (d, bytesOf cs, countOf cs, dropped)
      = Ok (d1, bytesOf ?ev, countOf ?ev, u64 (dropped + (countOf cs - countOf ?ev)))"
      "bo_scan B d1 = enc ?ev" "same_meta B d d1"
    using evictLoop_evict [OF Cons.prems(1,2), of "Suc (length cs)" "length (chunk ?e)" dropped mb]
      Cons.prems(3,4,7) g(3) by auto
  let ?d2 = "bo_put B ?key (chunk ?e) d1"
  have ch: "chain json lo ?cs (?key + length g)"
    using chain_append [OF evict_chain [OF Cons.prems(2)], where cs' = "[(?key, ?e)]"] g by simp
  have d2: "bo_scan B ?d2 = enc ?cs"
    using bucketPut_last [OF evict_chain [OF Cons.prems(2)]] d1(2) by simp
  have fits: "bytesOf ?cs \<le> mb"
    using evict_fits [OF g(3), of cs] by simp
  have cnt: "countOf ?cs \<le> mb" "countOf ?ev \<le> countOf cs"
      "countOf ?res \<le> countOf ?ev + length g + length (concat gs)"
    using countOf_le_bytesOf [of ?cs] fits countOf_suffix [OF evict_suffix]
      countOf_suffix [OF appendChunks_suffix [of mb "?key + length g" ?cs "map (groupEnvs t) gs"]]
    by (auto simp flip: map_concat)
  obtain d' where d': "appendLoop B mb firstID (chunkList t (start + length g) gs)
      (?d2, bytesOf ?cs, countOf ?cs, u64 (dropped + (countOf cs - countOf ?ev)))
      = Ok (d', bytesOf ?res, countOf ?res,
         u64 (u64 (dropped + (countOf cs - countOf ?ev)) + (countOf ?cs + length (concat gs) - countOf ?res)))"
      "bo_scan B d' = enc ?res" "same_meta B ?d2 d'"
    using Cons.IH [of ?d2 ?cs "start + length g" "u64 (dropped + (countOf cs - countOf ?ev))"]
      d2 ch fits Cons.prems(4-6) by (auto simp: Let_def add.assoc)
  have arith: "u64 (dropped + (countOf cs - countOf ?ev) + (countOf ?cs + length (concat gs) - countOf ?res))
      = u64 (dropped + (countOf cs + length (concat (g # gs)) - countOf ?res))"
    using cnt(2,3) by (intro arg_cong [where f = u64]) simp
  have u: "u64 ?key = ?key" "u64 (bytesOf ?ev + length (chunk ?e)) = bytesOf ?cs"
      "u64 (countOf ?ev + length g) = countOf ?cs"
    using Cons.prems(4,6) fits cnt(1) by auto
  show ?case
    using d1 d' arith u Cons.prems(1) by (simp add: Let_def same_meta_def)
qed

lemma ackLoop_ackChunks:
  assumes "bo_scan B d = enc cs" "chain json lo cs hi" "0 < lo" "hi \<le> 2 ^ 63" "through < 2 ^ 63"
    and "bytesOf cs < 2 ^ 32" "length cs < fuel"
  shows "\<exists>d'. ackLoop B fuel through (d, bytesOf cs, countOf cs)
      = Ok (d', bytesOf (ackChunks through cs), countOf (ackChunks through cs))
    \<and> bo_scan B d' = enc (ackChunks through cs) \<and> same_meta B d d'"
  using assms
proof (induction cs arbitrary: fuel d lo)
  case Nil
  then show ?case by (cases fuel) (auto simp: ackStep_def same_meta_def)
next
  case (Cons c cs)
  obtain k es f where [simp]: "c = (k, es)" "fuel = Suc f"
    using Cons.prems(7) by (cases c; cases fuel) auto
  have ok: "chunk_ok es" "chain json (k + length es) cs hi" "lo \<le> k"
    using Cons.prems(2) by auto
  have del: "bo_scan B (bo_delete B k d) = enc cs"
    using delete_first Cons.prems(1,2) by simp
  show ?case
  proof (cases "k > through")
    case True
    then show ?thesis using Cons.prems(1) by (simp add: ackStep_def same_meta_def)
  next
    case False
    define n where "n = min (length es) (through - k + 1)"
    have bound: "through - k + 1 < 2 ^ 63"
      using Cons.prems(3,5) ok(3) False by simp
    have n: "min (int (length es)) (to_i64 (u64 (through - k + 1))) = int n" "n \<le> length es"
      using bound by (auto simp: n_def to_i64_def)
    have trim: "trimLogChunk (chunk es) (int n)
        = Ok (if n = length es then [] else chunk (drop n es))"
      using trimLogChunk_chunk [OF ok(1) n(2)] .
    have ack: "ackChunks through (c # cs)
        = (if n = length es then ackChunks through cs else (k + n, drop n es) # cs)"
      using False by (simp add: n_def Let_def)
    show ?thesis
    proof (cases "n = length es")
      case True
      obtain d' where "ackLoop B f through (bo_delete B k d, bytesOf cs, countOf cs)
          = Ok (d', bytesOf (ackChunks through cs), countOf (ackChunks through cs))"
          "bo_scan B d' = enc (ackChunks through cs)" "same_meta B (bo_delete B k d) d'"
        using Cons.IH [OF del ok(2), of f] Cons.prems(3-7) ok(3) by auto
      then show ?thesis
        using True False n trim ack Cons.prems(1)
        by (auto simp: ackStep_def Let_def logChunkCount_chunk [OF ok(1)] same_meta_def)
    next
      case ne: False
      have key: "u64 (k + n) = k + n" "k + n < k + length es"
        using Cons.prems(4) chain_le [OF ok(2)] n(2) ne by auto
      have put: "bucketPut (k + n) (chunk (drop n es)) (enc cs) = enc ((k + n, drop n es) # cs)"
        by (rule bucketPut_first [OF ok(2) key(2)])
      have "length (frames (drop n es)) \<le> length (frames es)"
        by (simp add: frames_take_drop [of es n])
      then have "bytesOf cs + length (chunk (drop n es)) < 2 ^ 64"
        using Cons.prems(6) by simp
      then show ?thesis
        using ne False n trim ack key put del Cons.prems(1)
        by (simp add: ackStep_def Let_def logChunkCount_chunk [OF ok(1)] same_meta_def)
    qed
  qed
qed

lemma dropLoop_dropChunks:
  assumes "bo_scan B d = enc cs" "chain json lo cs hi" "hi \<le> 2 ^ 63" "dropped < 2 ^ 64"
    and "bytesOf cs < 2 ^ 32" "Suc (length cs) < fuel"
  shows "\<exists>d'. dropLoop B fuel m (d, bytesOf cs, countOf cs, dropped)
      = Ok (d', bytesOf (dropChunks m cs), countOf (dropChunks m cs),
            u64 (dropped + (countOf cs - countOf (dropChunks m cs))))
    \<and> bo_scan B d' = enc (dropChunks m cs) \<and> same_meta B d d'"
  using assms
proof (induction cs arbitrary: fuel d lo dropped)
  case Nil
  then show ?case by (cases fuel) (auto simp: dropStep_def same_meta_def)
next
  case (Cons c cs)
  obtain k es f where [simp]: "c = (k, es)" "fuel = Suc (Suc f)"
    using Cons.prems(6) by (cases c; cases fuel; cases "fuel - 1") auto
  define n where "n = length (takeWhile (tooBig m) es)"
  have ok: "chunk_ok es" "chain json (k + length es) cs hi" "n \<le> length es"
    using Cons.prems(2) by (auto simp: n_def length_takeWhile_le)
  have del: "bo_scan B (bo_delete B k d) = enc cs"
    using delete_first Cons.prems(1,2) by simp
  have over: "oversizedLogChunkHead (chunk es) m = Ok n"
    unfolding n_def by (rule oversizedLogChunkHead_chunk [OF ok(1)])
  have trim: "trimLogChunk (chunk es) (int n)
      = Ok (if n = length es then [] else chunk (drop n es))"
    using trimLogChunk_chunk [OF ok(1,3)] .
  have dr: "dropChunks m (c # cs)
      = (if n = length es then dropChunks m cs else (k + n, drop n es) # cs)"
    by (simp add: n_def Let_def)
  have cnt: "countOf (dropChunks m cs) \<le> countOf cs"
    using arg_cong [OF items_dropChunks [of m cs], of length]
      length_dropWhile_le [of "\<lambda>p. tooBig m (snd p)" "items cs"] by simp
  consider (all) "n = length es" | (none) "n = 0" "n \<noteq> length es" | (some) "0 < n" "n < length es"
    using ok(3) by linarith
  then show ?case
  proof cases
    case all
    have pos: "0 < n" using ok(1) all by (auto simp: chunk_ok_def)
    obtain d' where "dropLoop B (Suc f) m (bo_delete B k d, bytesOf cs, countOf cs, u64 (dropped + n))
        = Ok (d', bytesOf (dropChunks m cs), countOf (dropChunks m cs),
              u64 (u64 (dropped + n) + (countOf cs - countOf (dropChunks m cs))))"
        "bo_scan B d' = enc (dropChunks m cs)" "same_meta B (bo_delete B k d) d'"
      using Cons.IH [OF del ok(2) Cons.prems(3), of "u64 (dropped + n)" "Suc f"] Cons.prems(5,6) by auto
    moreover have "u64 (dropped + n + (countOf cs - countOf (dropChunks m cs)))
        = u64 (dropped + (countOf (c # cs) - countOf (dropChunks m (c # cs))))"
      using all cnt dr by (intro arg_cong [where f = u64]) simp
    ultimately show ?thesis
      using all pos over trim dr Cons.prems(1) by (auto simp: dropStep_def Let_def same_meta_def)
  next
    case none
    then show ?thesis
      using over dr Cons.prems(1,4) by (auto simp: dropStep_def same_meta_def)
  next
    case some
    have key: "u64 (k + n) = k + n" "k + n < k + length es"
      using Cons.prems(3) chain_le [OF ok(2)] some by auto
    let ?d = "bo_put B (k + n) (chunk (drop n es)) (bo_delete B k d)"
    have put: "bo_scan B ?d = enc ((k + n, drop n es) # cs)"
      using bucketPut_first [OF ok(2) key(2)] del by simp
    have "tooBig m (drop n es ! 0) = False"
      using nth_length_takeWhile [of "tooBig m" es] some by (simp add: n_def)
    then have "takeWhile (tooBig m) (drop n es) = []"
      using some by (cases "drop n es") auto
    then have stop: "oversizedLogChunkHead (chunk (drop n es)) m = Ok 0"
      using oversizedLogChunkHead_chunk [OF chunk_ok_drop [OF ok(1) some(2)], of m] by simp
    have "length (frames (drop n es)) \<le> length (frames es)"
      by (simp add: frames_take_drop [of es n])
    then have "bytesOf cs + length (chunk (drop n es)) < 2 ^ 64"
      using Cons.prems(5) by simp
    then show ?thesis
      using some over trim dr key put stop Cons.prems(1)
      by (simp add: dropStep_def Let_def same_meta_def)
  qed
qed

subsection \<open>The operations, on the queue\<close>

lemma lq_invE:
  assumes "lq_inv json B q"
  obtains cs where "bo_scan B (lq_db q) = enc cs" "chain json 1 cs (bo_sequence B (lq_db q) + 1)"
    "metaUint B (lq_db q) totalBytesKey = bytesOf cs" "metaUint B (lq_db q) totalRecordsKey = countOf cs"
    "bytesOf cs \<le> lq_maxBytes q" "lq_maxBytes q < 2 ^ 32" "bo_sequence B (lq_db q) < 2 ^ 63"
    "queued B q = items cs"
  using assms by (auto simp: lq_inv_def Let_def queued_def)

lemma lq_invI:
  assumes "bo_scan B (lq_db q) = enc cs" "chain json 1 cs (bo_sequence B (lq_db q) + 1)"
    "metaUint B (lq_db q) totalBytesKey = bytesOf cs" "metaUint B (lq_db q) totalRecordsKey = countOf cs"
    "bytesOf cs \<le> lq_maxBytes q" "lq_maxBytes q < 2 ^ 32" "bo_sequence B (lq_db q) < 2 ^ 63"
  shows "lq_inv json B q" "queued B q = items cs"
  using assms contents_enc [OF assms(1,2)] by (simp_all add: lq_inv_def Let_def queued_def)

lemma metaUint_bound: "metaUint B d m < 2 ^ 64"
proof -
  have "be_decode bs < 2 ^ 64" if "length bs = 8" for bs
    using be_decode_bound [of bs] that by simp
  then show ?thesis by (auto simp: readUint64_def split: option.split)
qed

lemma AppendBatch_appends:
  assumes inv: "lq_inv json B q" and ne: "rs \<noteq> []"
    and build: "buildLogChunks json rs t (lq_maxBytes q) = Ok cks"
    and typed: "list_all (typed t) rs"
    and room: "bo_sequence B (lq_db q) + length rs < 2 ^ 63"
  defines "first \<equiv> bo_sequence B (lq_db q) + 1"
  defines "new \<equiv> zip [first..<first + length rs] (map (\<lambda>r. envelope r t) rs)"
  shows "\<exists>q'. AppendBatch B json t None q rs = (Ok [first..<first + length rs], q')
    \<and> lq_inv json B q' \<and> lq_notify q' \<and> lq_maxBytes q' = lq_maxBytes q
    \<and> bo_sequence B (lq_db q') = bo_sequence B (lq_db q) + length rs
    \<and> suffix (queued B q') (queued B q @ new)
    \<and> metaUint B (lq_db q') droppedRecordsKey
        = u64 (metaUint B (lq_db q) droppedRecordsKey
               + (length (queued B q @ new) - length (queued B q')))
    \<and> (metaUint B (lq_db q) totalBytesKey + sum_list (map (length \<circ> ck_data) cks) \<le> lq_maxBytes q
        \<longrightarrow> queued B q' = queued B q @ new)"
proof -
  let ?d = "lq_db q" and ?mb = "lq_maxBytes q" and ?n = "length rs"
  obtain cs where cs: "bo_scan B ?d = enc cs" "chain json 1 cs first"
    "metaUint B ?d totalBytesKey = bytesOf cs" "metaUint B ?d totalRecordsKey = countOf cs"
    "bytesOf cs \<le> ?mb" "?mb < 2 ^ 32" "queued B q = items cs"
    using lq_invE [OF inv] unfolding first_def by metis
  obtain gs where gs: "concat gs = rs" "cks = chunkList t 0 gs" "list_all (group_ok json ?mb t) gs"
    using buildLogChunksFrom_spec [OF build [unfolded buildLogChunks_def]] by blast
  let ?es = "map (groupEnvs t) gs"
  let ?cs = "appendChunks ?mb first cs ?es"
  let ?dropped = "u64 (metaUint B ?d droppedRecordsKey + (countOf cs + length (concat gs) - countOf ?cs))"
  have good: "list_all (\<lambda>g. chunk_ok (groupEnvs t g) \<and> list_all (decodable json) (groupEnvs t g)
      \<and> length (chunk (groupEnvs t g)) \<le> ?mb) gs"
    unfolding list_all_iff [of _ gs]
  proof (intro ballI group_chunk cs(6))
    fix g assume "g \<in> set gs"
    then show "group_ok json ?mb t g" "list_all (typed t) g"
      using gs(1,3) typed by (auto simp: list_all_iff)
  qed
  let ?d1 = "bo_setSequence B (bo_sequence B ?d + ?n) ?d"
  obtain d' where d': "appendLoop B ?mb first cks (?d1, bytesOf cs, countOf cs, metaUint B ?d droppedRecordsKey)
      = Ok (d', bytesOf ?cs, countOf ?cs, ?dropped)" "bo_scan B d' = enc ?cs" "same_meta B ?d1 d'"
    using appendLoop_appendChunks [of ?d1 cs json 1 first 0 ?mb t gs "metaUint B ?d droppedRecordsKey"]
      cs good room gs(1,2) metaUint_bound [of ?d droppedRecordsKey]
    by (auto simp: Let_def first_def)
  let ?d' = "putUint64 B totalRecordsKey (countOf ?cs) (putUint64 B totalBytesKey (bytesOf ?cs)
      (putUint64 B droppedRecordsKey ?dropped d'))"
  let ?q = "q\<lparr>lq_db := ?d', lq_notify := True\<rparr>"
  have seq: "u64 (bo_sequence B ?d + 1) = first"
      "u64 (u64 (first + ?n) + (2 ^ 64 - 1)) = bo_sequence B ?d + ?n"
    using room append_sequence [of "bo_sequence B ?d" ?n] by (auto simp: first_def)
  have ids: "map (\<lambda>i. u64 (first + i)) [0..<?n] = [first..<first + ?n]"
    using room by (intro nth_equalityI) (auto simp: first_def simp del: upt_Suc)
  have run: "AppendBatch B json t None q rs = (Ok [first..<first + ?n], ?q)"
    using ne build d'(1) cs(3,4) seq ids
    by (simp add: AppendBatch_def appendUpdate_def boltUpdate_def Let_def)
  have suf: "suffix ?cs (cs @ newChunks first ?es)"
    by (rule appendChunks_suffix)
  have fits: "bytesOf ?cs \<le> ?mb" "countOf ?cs \<le> ?mb"
    using appendChunks_fits [of cs ?mb ?es first] cs(5) good countOf_le_bytesOf [of ?cs]
    by (auto simp: list_all_iff)
  have "chain json 1 (cs @ newChunks first ?es) (first + ?n)"
    using chain_append [OF cs(2) newChunks_chain [of json ?es first]] good gs(1)
    by (auto simp: list_all_iff simp flip: map_concat)
  then have ch: "chain json 1 ?cs (first + ?n)"
    using suf by (rule chain_suffix)
  have items: "items (cs @ newChunks first ?es) = queued B q @ new"
    using gs(1) cs(7) by (simp add: items_newChunks new_def flip: map_concat)
  have inv': "lq_inv json B ?q" "queued B ?q = items ?cs"
    using lq_invI [of ?q ?cs json] d'(2,3) ch fits cs(6) room
    by (auto simp: same_meta_def first_def meta_keys)
  moreover have "metaUint B ?d' droppedRecordsKey
      = u64 (metaUint B ?d droppedRecordsKey + (length (queued B q @ new) - length (queued B ?q)))"
    using fits cs(6,7) inv'(2) gs(1) by (simp add: meta_keys new_def)
  moreover have "queued B ?q = queued B q @ new"
    if "metaUint B ?d totalBytesKey + sum_list (map (length \<circ> ck_data) cks) \<le> ?mb"
    using that appendChunks_no_evict [of cs first ?es ?mb] bytesOf_newChunks [of first t gs 0]
      cs(3) gs(2) inv'(2) items by simp
  ultimately show ?thesis
    using run items_suffix [OF suf] items d'(3) by (intro exI [of _ ?q]) (auto simp: same_meta_def)
qed

lemma Ack_removes:
  assumes inv: "lq_inv json B q" and through: "through < 2 ^ 63"
  shows "\<exists>q'. Ack B None q through = (Ok (), q') \<and> lq_inv json B q'
    \<and> queued B q' = filter (\<lambda>p. through < fst p) (queued B q)
    \<and> metaUint B (lq_db q') droppedRecordsKey = metaUint B (lq_db q) droppedRecordsKey
    \<and> bo_sequence B (lq_db q') = bo_sequence B (lq_db q) \<and> lq_maxBytes q' = lq_maxBytes q"
proof -
  let ?d = "lq_db q"
  obtain cs where cs: "bo_scan B ?d = enc cs" "chain json 1 cs (bo_sequence B ?d + 1)"
    "metaUint B ?d totalBytesKey = bytesOf cs" "metaUint B ?d totalRecordsKey = countOf cs"
    "bytesOf cs \<le> lq_maxBytes q" "lq_maxBytes q < 2 ^ 32" "bo_sequence B ?d < 2 ^ 63"
    "queued B q = items cs"
    using lq_invE [OF inv] by metis
  let ?cs = "ackChunks through cs"
  obtain d' where d': "ackLoop B (Suc (length cs)) through (?d, bytesOf cs, countOf cs)
      = Ok (d', bytesOf ?cs, countOf ?cs)" "bo_scan B d' = enc ?cs" "same_meta B ?d d'"
    using ackLoop_ackChunks [OF cs(1,2), of through "Suc (length cs)"] cs(5-7) through by auto
  let ?q = "q\<lparr>lq_db := putUint64 B totalRecordsKey (countOf ?cs) (putUint64 B totalBytesKey (bytesOf ?cs) d')\<rparr>"
  have "Ack B None q through = (Ok (), ?q)"
    using cs(1,3,4) d'(1) by (simp add: Ack_def ackUpdate_def boltUpdate_def del: ackLoop.simps)
  moreover have fits: "bytesOf ?cs \<le> bytesOf cs"
    by (rule ackChunks_bytes)
  moreover have "lq_inv json B ?q" "queued B ?q = items ?cs"
    using lq_invI [of ?q ?cs json] d'(2,3) ackChunks_chain [OF cs(2)] fits cs(5-7)
      countOf_le_bytesOf [of ?cs] by (auto simp: same_meta_def meta_keys)
  ultimately show ?thesis
    using items_ackChunks [OF cs(2)] cs(5,6,8) d'(3) countOf_le_bytesOf [of ?cs]
    by (intro exI [of _ ?q]) (auto simp: same_meta_def meta_keys)
qed

lemma DropOversizedHead_drops:
  assumes inv: "lq_inv json B q" and m: "0 < m"
  shows "\<exists>q'. DropOversizedHead B None q m
      = (Ok (length (takeWhile (\<lambda>p. tooBig m (snd p)) (queued B q))), q') \<and> lq_inv json B q'
    \<and> queued B q' = dropWhile (\<lambda>p. tooBig m (snd p)) (queued B q)
    \<and> metaUint B (lq_db q') droppedRecordsKey
        = u64 (metaUint B (lq_db q) droppedRecordsKey + (length (queued B q) - length (queued B q')))
    \<and> bo_sequence B (lq_db q') = bo_sequence B (lq_db q) \<and> lq_maxBytes q' = lq_maxBytes q"
proof -
  let ?d = "lq_db q"
  obtain cs where cs: "bo_scan B ?d = enc cs" "chain json 1 cs (bo_sequence B ?d + 1)"
    "metaUint B ?d totalBytesKey = bytesOf cs" "metaUint B ?d totalRecordsKey = countOf cs"
    "bytesOf cs \<le> lq_maxBytes q" "lq_maxBytes q < 2 ^ 32" "bo_sequence B ?d < 2 ^ 63"
    "queued B q = items cs"
    using lq_invE [OF inv] by metis
  let ?cs = "dropChunks m cs" and ?old = "metaUint B ?d droppedRecordsKey"
  let ?n = "countOf cs - countOf ?cs"
  have fits: "bytesOf ?cs \<le> bytesOf cs" "countOf ?cs \<le> bytesOf cs" "?n < 2 ^ 64"
    using dropChunks_bytes [of m cs] countOf_le_bytesOf [of ?cs] countOf_le_bytesOf [of cs] cs(5,6)
    by auto
  obtain d' where d': "dropLoop B (Suc (Suc (length cs))) m (?d, bytesOf cs, countOf cs, 0)
      = Ok (d', bytesOf ?cs, countOf ?cs, ?n)" "bo_scan B d' = enc ?cs" "same_meta B ?d d'"
    using dropLoop_dropChunks [OF cs(1,2), of 0 "Suc (Suc (length cs))" m] cs(5-7) fits(3) by auto
  define D where "D = (if ?n = 0 then d' else putUint64 B droppedRecordsKey (u64 (?old + ?n))
      (putUint64 B totalRecordsKey (countOf ?cs) (putUint64 B totalBytesKey (bytesOf ?cs) d')))"
  let ?q = "q\<lparr>lq_db := D\<rparr>"
  have meta: "metaUint B D totalBytesKey = bytesOf ?cs" "metaUint B D totalRecordsKey = countOf ?cs"
      "metaUint B D droppedRecordsKey = u64 (?old + ?n)" "bo_scan B D = enc ?cs"
      "bo_sequence B D = bo_sequence B ?d"
    using d'(2,3) cs(3-6) fits dropChunks_same [OF chain_nonempty [OF cs(2)], of m] metaUint_bound [of ?d droppedRecordsKey]
    by (auto simp: D_def same_meta_def meta_keys)
  have "DropOversizedHead B None q m = (Ok ?n, ?q)"
    using m cs(1,3-6) d' fits(1,2)
    by (auto simp: DropOversizedHead_def dropUpdate_def boltUpdate_def D_def Let_def meta_keys
        same_meta_def simp del: dropLoop.simps)
  moreover have inv': "lq_inv json B ?q" "queued B ?q = items ?cs"
    using lq_invI [of ?q ?cs json] meta dropChunks_chain [OF cs(2)] fits cs(5-7) by auto
  moreover have "?n = length (takeWhile (\<lambda>p. tooBig m (snd p)) (items cs))"
    using arg_cong [OF items_dropChunks [of m cs], of length]
      arg_cong [OF takeWhile_dropWhile_id [of "\<lambda>p. tooBig m (snd p)" "items cs"], of length]
    unfolding length_append length_items by linarith
  moreover have "length (queued B q) - length (queued B ?q) = ?n"
    using inv'(2) cs(8) by simp
  ultimately show ?thesis
    using items_dropChunks [of m cs] meta cs(8) by (intro exI [of _ ?q]) simp
qed

lemma BatchSized_reads:
  assumes inv: "lq_inv json B q"
  shows "BatchSized B json None q limit m =
    (let p = batchPrefix (nat (if limit \<le> 0 then 1000 else limit)) m 0 (queued B q)
     in (map (recordOf json) p, batchBytes p, None))"
proof -
  obtain cs where cs: "bo_scan B (lq_db q) = enc cs" "chain json 1 cs (bo_sequence B (lq_db q) + 1)"
    "bytesOf cs \<le> lq_maxBytes q" "lq_maxBytes q < 2 ^ 32" "bo_sequence B (lq_db q) < 2 ^ 63"
    "queued B q = items cs"
    using lq_invE [OF inv] by metis
  then show ?thesis
    using batchLoop_batchPrefix [OF cs(2), of "[]" "nat (if limit \<le> 0 then 1000 else limit)" 0 m]
    by (simp add: BatchSized_def Let_def)
qed

end

text \<open>The records read back from a list of freshly appended envelopes.\<close>

definition delivered :: "int \<Rightarrow> nat \<Rightarrow> log_record list \<Rightarrow> log_record list" where
  "delivered t first rs = map2 (stored t) [first..<first + length rs] rs"

lemma recordOf_appended:
  assumes "list_all (acceptable json mb) rs" "list_all (typed t) rs"
  shows "map (recordOf json) (zip [first..<first + length rs] (map (\<lambda>r. envelope r t) rs))
    = delivered t first rs"
  using assms
  by (intro nth_equalityI) (auto simp: delivered_def recordOf_def list_all_length decode_accepted)

lemma filter_appended:
  "filter (\<lambda>p. first + length rs - 1 < fst p)
     (zip [first..<first + length rs] (map f rs)) = []" if "rs \<noteq> []"
  using that by (auto simp: filter_empty_conv set_zip)

subsection \<open>Opening\<close>

context bolt_db
begin

lemma open_metas [simp]:
  "metaUint B (bo_putMeta B queueVersionKey v d) totalBytesKey = metaUint B d totalBytesKey"
  "metaUint B (bo_putMeta B queueVersionKey v d) totalRecordsKey = metaUint B d totalRecordsKey"
  by (simp_all add: meta_keys)

lemma OpenLogQueue_fresh:
  assumes "bo_get B d queueVersionKey \<noteq> Some [2]" "bo_sequence B d < 2 ^ 63"
    and "\<forall>m \<in> set (take 1 limits). m < 2 ^ 32"
  shows "\<exists>q. OpenLogQueue B None d limits = Ok q \<and> lq_inv json B q \<and> queued B q = []
    \<and> metaUint B (lq_db q) droppedRecordsKey = 0 \<and> 0 < lq_maxBytes q"
proof -
  define d' where "d' = bo_putMeta B queueVersionKey [2] (bo_deleteMeta B droppedRecordsKey
      (bo_deleteMeta B totalRecordsKey (bo_deleteMeta B totalBytesKey
        (if bo_scan B d \<noteq> [] then bo_clear B d else d))))"
  define limit :: nat where "limit = (case limits of [] \<Rightarrow> 2 * 2 ^ 30 | m # _ \<Rightarrow> if m > 0 then m else 2 * 2 ^ 30)"
  define q where "q = \<lparr>lq_db = d', lq_notify = False, lq_maxBytes = limit\<rparr>"
  have "OpenLogQueue B None d limits = Ok q"
    using assms(1) by (simp add: OpenLogQueue_def boltUpdate_def openUpdate_def Let_def d'_def q_def
        limit_def split: list.split)
  moreover have "0 < limit" "limit < 2 ^ 32"
    using assms(3) by (auto simp: limit_def split: list.splits)
  moreover have "bo_scan B d' = enc []" "bo_sequence B d' < 2 ^ 63"
    using assms(2) by (auto simp: d'_def)
  moreover have "metaUint B d' m = 0" if "m \<in> {totalBytesKey, totalRecordsKey, droppedRecordsKey}" for m
    using that by (auto simp: d'_def readUint64_def meta_keys)
  ultimately show ?thesis
    using lq_invI [of q "[]" json] by (intro exI [of _ q]) (simp add: q_def)
qed

text \<open>A queue file of the current format is taken as it is.\<close>

lemma OpenLogQueue_keeps:
  assumes "bo_get B (lq_db q) queueVersionKey = Some [2]" "lq_inv json B q" "0 < lq_maxBytes q"
  shows "\<exists>q'. OpenLogQueue B None (lq_db q) [lq_maxBytes q] = Ok q'
    \<and> lq_inv json B q' \<and> queued B q' = queued B q"
proof -
  let ?q = "\<lparr>lq_db = bo_putMeta B queueVersionKey [2] (lq_db q), lq_notify = False,
      lq_maxBytes = lq_maxBytes q\<rparr>"
  have "OpenLogQueue B None (lq_db q) [lq_maxBytes q] = Ok ?q"
    using assms(1,3) by (simp add: OpenLogQueue_def boltUpdate_def openUpdate_def)
  moreover have "lq_inv json B ?q \<and> queued B ?q = queued B q"
    using assms(2) by (simp add: lq_inv_def queued_def contents_def Let_def meta_keys)
  ultimately show ?thesis by blast
qed

end

subsection \<open>A bolt database as lists\<close>

record list_db =
  ld_bucket :: "(nat \<times> bytes) list"
  ld_sequence :: nat
  ld_meta :: "string \<Rightarrow> bytes option"

definition listBolt :: "list_db bolt" where
  "listBolt = \<lparr>
     bo_scan = ld_bucket,
     bo_put = (\<lambda>k v d. d\<lparr>ld_bucket := bucketPut k v (ld_bucket d)\<rparr>),
     bo_delete = (\<lambda>k d. d\<lparr>ld_bucket := filter (\<lambda>p. fst p \<noteq> k) (ld_bucket d)\<rparr>),
     bo_sequence = ld_sequence,
     bo_setSequence = (\<lambda>n d. d\<lparr>ld_sequence := n\<rparr>),
     bo_clear = (\<lambda>d. d\<lparr>ld_bucket := [], ld_sequence := 0\<rparr>),
     bo_get = ld_meta,
     bo_putMeta = (\<lambda>m v d. d\<lparr>ld_meta := (ld_meta d)(m \<mapsto> v)\<rparr>),
     bo_deleteMeta = (\<lambda>m d. d\<lparr>ld_meta := (ld_meta d)(m := None)\<rparr>)\<rparr>"

interpretation list_bolt: bolt_db listBolt
  by unfold_locales (simp_all add: listBolt_def)

text \<open>A queue with one chunk that holds the ids 1 and 2.\<close>

definition sampleQueue :: "list_db log_queue" where
  "sampleQueue =
     (let es = [envelope sampleRecord 5, envelope sampleRecord 5]
      in \<lparr>lq_db = \<lparr>ld_bucket = [(1, chunk es)], ld_sequence = 2,
                   ld_meta = [totalBytesKey \<mapsto> be_encode 8 73, totalRecordsKey \<mapsto> be_encode 8 2]\<rparr>,
          lq_notify = False, lq_maxBytes = 1000\<rparr>)"

lemma sampleRecord_facts:
  "typed 5 sampleRecord" "acceptable (\<lambda>_. True) 1000 sampleRecord"
  "length (envelope sampleRecord 5) = 30"
  by (simp_all add: typed_def sampleRecord_def createdOr_def int64_range_def acceptable_def
      logEnvelopeSize_def length_envelope)

lemma sampleQueue_facts:
  "lq_inv (\<lambda>_. True) listBolt sampleQueue"
  "queued listBolt sampleQueue = [(1, envelope sampleRecord 5), (2, envelope sampleRecord 5)]"
  "bo_sequence listBolt (lq_db sampleQueue) = 2" "lq_maxBytes sampleQueue = 1000"
proof -
  let ?e = "envelope sampleRecord 5"
  have ok: "chunk_ok [?e, ?e]" "decodable (\<lambda>_. True) ?e"
    using sampleRecord_facts decode_accepted [OF sampleRecord_facts(1,2), of 0]
    by (auto simp: chunk_ok_def env_ok_def decodable_def)
  show "lq_inv (\<lambda>_. True) listBolt sampleQueue"
    using ok sampleRecord_facts(3) chunkEnvelopes_chunk [OF ok(1)]
    by (simp add: lq_inv_def contents_def sampleQueue_def listBolt_def readUint64_def Let_def
        meta_keys be_decode_encode del: be_encode.simps)
  show "queued listBolt sampleQueue = [(1, ?e), (2, ?e)]"
    using chunkEnvelopes_chunk [OF ok(1)]
    by (simp add: queued_def contents_def sampleQueue_def listBolt_def Let_def upt_rec)
  show "bo_sequence listBolt (lq_db sampleQueue) = 2" "lq_maxBytes sampleQueue = 1000"
    by (simp_all add: sampleQueue_def listBolt_def Let_def)
qed

definition emptyQueue :: "list_db log_queue" where
  "emptyQueue = \<lparr>lq_db = \<lparr>ld_bucket = [], ld_sequence = 0, ld_meta = Map.empty\<rparr>,
                 lq_notify = False, lq_maxBytes = 1000\<rparr>"

lemma emptyQueue_facts:
  "lq_inv json listBolt emptyQueue" "queued listBolt emptyQueue = []"
  "bo_sequence listBolt (lq_db emptyQueue) = 0" "lq_maxBytes emptyQueue = 1000"
  "metaUint listBolt (lq_db emptyQueue) m = 0"
  by (simp_all add: lq_inv_def queued_def contents_def emptyQueue_def listBolt_def readUint64_def)

lemma sampleRecord_chunks:
  "\<exists>cks. buildLogChunks (\<lambda>_. True) [sampleRecord] 5 1000 = Ok cks
    \<and> sum_list (map (length \<circ> ck_data) cks) = 39"
proof -
  obtain cks where cks: "buildLogChunks (\<lambda>_. True) [sampleRecord] 5 1000 = Ok cks"
    using buildLogChunks_iff [of "\<lambda>_. True" "[sampleRecord]"] sampleRecord_facts(2) by auto
  obtain gs where gs: "concat gs = [sampleRecord]" "cks = chunkList 5 0 gs"
      "list_all (group_ok (\<lambda>_. True) 1000 5) gs"
    using buildLogChunksFrom_spec [OF cks [unfolded buildLogChunks_def]] by blast
  obtain g hs where "gs = g # hs" "g \<noteq> []" "list_all (\<lambda>g. g \<noteq> []) hs"
    using gs(1,3) by (cases gs) (auto simp: group_ok_def list_all_iff)
  then have "gs = [[sampleRecord]]"
    using gs(1) by (cases hs) (auto simp: append_eq_Cons_conv)
  then show ?thesis
    using cks gs(2) sampleRecord_facts(3) by simp
qed

subsection \<open>Properties\<close>

text \<open>
  Property C1: \<open>AppendBatch\<close> of acceptable records gives them the next ids of the
  sequence and adds them at the end of the queue. What the byte limit pushes out is
  a prefix of the old queue followed by the batch, each lost record is counted in
  the dropped counter, and nothing is lost when the chunks fit. The invariant holds
  afterwards and the reader is notified.
\<close>

theorem AppendBatch_enqueues:
  assumes "bolt_db B" "lq_inv json B q" "rs \<noteq> []"
    and "list_all (acceptable json (lq_maxBytes q)) rs" "list_all (typed t) rs"
    and "bo_sequence B (lq_db q) + length rs < 2 ^ 63"
  shows "\<exists>cks q'. let first = bo_sequence B (lq_db q) + 1;
        new = zip [first..<first + length rs] (map (\<lambda>r. envelope r t) rs) in
      buildLogChunks json rs t (lq_maxBytes q) = Ok cks
    \<and> AppendBatch B json t None q rs = (Ok [first..<first + length rs], q')
    \<and> lq_inv json B q' \<and> lq_notify q'
    \<and> suffix (queued B q') (queued B q @ new)
    \<and> metaUint B (lq_db q') droppedRecordsKey
        = u64 (metaUint B (lq_db q) droppedRecordsKey
               + (length (queued B q @ new) - length (queued B q')))
    \<and> (metaUint B (lq_db q) totalBytesKey + sum_list (map (length \<circ> ck_data) cks) \<le> lq_maxBytes q
        \<longrightarrow> queued B q' = queued B q @ new)"
proof -
  obtain cks where "buildLogChunks json rs t (lq_maxBytes q) = Ok cks"
    using assms(4) buildLogChunks_iff by blast
  then show ?thesis
    using bolt_db.AppendBatch_appends [OF assms(1-3) _ assms(5,6)] unfolding Let_def by metis
qed

theorem AppendBatch_enqueues_witness:
  "\<exists>q'. AppendBatch listBolt (\<lambda>_. True) 5 None sampleQueue [sampleRecord] = (Ok [3], q')
    \<and> lq_inv (\<lambda>_. True) listBolt q'"
  using AppendBatch_enqueues [OF list_bolt.bolt_db_axioms sampleQueue_facts(1),
      of "[sampleRecord]" 5]
  by (auto simp: sampleQueue_facts sampleRecord_facts Let_def)

text \<open>
  Property C8: \<open>Ack(through)\<close> removes exactly the records with an id up to
  \<open>through\<close>, also from the middle of a chunk, and keeps the invariant, the sequence
  number and the dropped counter.
\<close>

theorem Ack_removes_prefix:
  assumes "bolt_db B" "lq_inv json B q" "through < 2 ^ 63"
  shows "\<exists>q'. Ack B None q through = (Ok (), q') \<and> lq_inv json B q'
    \<and> queued B q' = filter (\<lambda>p. through < fst p) (queued B q)
    \<and> metaUint B (lq_db q') droppedRecordsKey = metaUint B (lq_db q) droppedRecordsKey
    \<and> bo_sequence B (lq_db q') = bo_sequence B (lq_db q)"
  using bolt_db.Ack_removes [OF assms] by blast

theorem Ack_removes_prefix_witness:
  "\<exists>q'. Ack listBolt None sampleQueue 1 = (Ok (), q')
    \<and> queued listBolt q' = [(2, envelope sampleRecord 5)]"
  using Ack_removes_prefix [OF list_bolt.bolt_db_axioms sampleQueue_facts(1), of 1]
  by (auto simp: sampleQueue_facts)

text \<open>
  Property C10: \<open>BatchSized\<close> returns, decoded and with their ids, a prefix of the
  queue within the record limit and the byte limit, and stops only where the queue
  ends, the record limit is reached or the next record does not fit.
\<close>

theorem BatchSized_maximal_prefix:
  assumes "bolt_db B" "lq_inv json B q" "0 < limit" "0 < m"
  shows "\<exists>p rest. queued B q = p @ rest
    \<and> BatchSized B json None q limit m = (map (recordOf json) p, batchBytes p, None)
    \<and> length p \<le> nat limit \<and> batchBytes p \<le> m
    \<and> (rest = [] \<or> length p = nat limit \<or> m < batchBytes p + (length (snd (hd rest)) + 4))"
proof -
  let ?p = "batchPrefix (nat limit) m 0 (queued B q)"
  obtain rest where rest: "queued B q = ?p @ rest"
    using batchPrefix_prefix [of "nat limit" m 0 "queued B q"] by (auto simp only: prefix_def)
  have "rest = [] \<or> length ?p = nat limit \<or> m < batchBytes ?p + (length (snd (hd rest)) + 4)"
    using batchPrefix_maximal [of "queued B q" "nat limit" m 0 "hd rest" "tl rest"] rest
    by (cases rest) auto
  moreover have "batchBytes ?p \<le> m"
    using batchPrefix_fits [of m 0] assms(4) by simp
  moreover have "BatchSized B json None q limit m = (map (recordOf json) ?p, batchBytes ?p, None)"
    using bolt_db.BatchSized_reads [OF assms(1,2), of limit m] assms(3) by (simp add: Let_def)
  ultimately show ?thesis
    using rest batchPrefix_limit by blast
qed

theorem BatchSized_maximal_prefix_witness:
  "\<exists>p. BatchSized listBolt (\<lambda>_. True) None sampleQueue 1 100 = (map (recordOf (\<lambda>_. True)) p, batchBytes p, None)
    \<and> prefix p [(1, envelope sampleRecord 5), (2, envelope sampleRecord 5)] \<and> length p = 1"
proof -
  obtain p rest where p: "queued listBolt sampleQueue = p @ rest"
    "BatchSized listBolt (\<lambda>_. True) None sampleQueue 1 100 = (map (recordOf (\<lambda>_. True)) p, batchBytes p, None)"
    "length p \<le> nat 1"
    "rest = [] \<or> length p = nat 1 \<or> 100 < batchBytes p + (length (snd (hd rest)) + 4)"
    using BatchSized_maximal_prefix [OF list_bolt.bolt_db_axioms sampleQueue_facts(1), of 1 100] by auto
  then have "length p = 1"
    using sampleRecord_facts(3) by (cases p) (auto simp: sampleQueue_facts)
  then show ?thesis
    using p by (auto simp: sampleQueue_facts)
qed

text \<open>
  Property C20: \<open>DropOversizedHead\<close> removes the records at the head of the queue that
  do not fit a batch of \<open>m\<close> bytes, reports and counts how many, and after it a batch
  of \<open>m\<close> bytes is empty only if the queue is: an oversized record never blocks the
  queue.
\<close>

theorem DropOversizedHead_unblocks:
  assumes "bolt_db B" "lq_inv json B q" "0 < m" "0 < limit"
  shows "\<exists>n q'. DropOversizedHead B None q m = (Ok n, q') \<and> lq_inv json B q'
    \<and> n = length (takeWhile (\<lambda>p. length (snd p) + 4 > m) (queued B q))
    \<and> queued B q' = drop n (queued B q)
    \<and> metaUint B (lq_db q') droppedRecordsKey = u64 (metaUint B (lq_db q) droppedRecordsKey + n)
    \<and> (fst (BatchSized B json None q' limit m) = [] \<longrightarrow> queued B q' = [])"
proof -
  let ?P = "\<lambda>p :: nat \<times> bytes. length (snd p) + 4 > m"
  let ?n = "length (takeWhile ?P (queued B q))"
  obtain q' where q': "DropOversizedHead B None q m = (Ok ?n, q')" "lq_inv json B q'"
    "queued B q' = dropWhile ?P (queued B q)"
    "metaUint B (lq_db q') droppedRecordsKey
        = u64 (metaUint B (lq_db q) droppedRecordsKey + (length (queued B q) - length (queued B q')))"
    using bolt_db.DropOversizedHead_drops [OF assms(1-3)] by (auto simp: not_le)
  have d: "queued B q' = drop ?n (queued B q)"
    using q'(3) by (simp add: dropWhile_eq_drop)
  have "length (queued B q) - length (queued B q') = ?n"
    using d length_takeWhile_le [of ?P "queued B q"] by simp
  moreover have "queued B q' = []" if "fst (BatchSized B json None q' limit m) = []"
  proof (rule ccontr)
    assume "queued B q' \<noteq> []"
    then obtain x xs where "queued B q' = x # xs" "\<not> ?P x"
      using q'(3) by (metis hd_dropWhile list.exhaust_sel)
    then show False
      using that bolt_db.BatchSized_reads [OF assms(1) q'(2), of limit m] assms(4)
      by (simp add: Let_def)
  qed
  ultimately show ?thesis
    using q' d by (intro exI [of _ ?n] exI [of _ q']) simp
qed

theorem DropOversizedHead_unblocks_witness:
  "\<exists>q'. DropOversizedHead listBolt None sampleQueue 20 = (Ok 2, q') \<and> queued listBolt q' = []"
  using DropOversizedHead_unblocks [OF list_bolt.bolt_db_axioms sampleQueue_facts(1), of 20 10]
  by (auto simp: sampleQueue_facts sampleRecord_facts)



end
