(* ===== verification/Alert_Engine.thy ===== *)
theory Alert_Engine
  imports Prelude
begin

section \<open>The alert state machine and its engine\<close>

text \<open>
  \<open>internal/alerting/state.go\<close>, \<open>ops.go\<close> and the rule evaluation and delivery
  bookkeeping of \<open>engine.go\<close>. The database tables the code reads and writes are
  lists of rows in creation order, a transaction is a function on them that either
  commits or leaves them as they were, and row ids come from a counter that stands
  for \<open>uuid.NewString\<close>. \<open>e.now()\<close> reads \<open>clock\<close>, one value per call. The rule's own
  query (\<open>spec.Evaluate\<close>) is an argument: the observations it returned or its error.
  Times and durations are nanosecond counts. The unique index of the instance table
  (one unresolved alert per rule and fingerprint) is not part of the tables here; it
  is shown to hold (\<open>unique_open\<close>) when a rule's observations have distinct keys,
  and otherwise its violation is one of the faults that abort the transaction.
\<close>

subsection \<open>States and decisions\<close>

text \<open>The enum of the status column, in the order the life of an alert takes.\<close>

datatype alert_status = PENDING | FIRING | ACKNOWLEDGED | RESOLVED

fun status_rank :: "alert_status \<Rightarrow> nat" where
  "status_rank PENDING = 0"
| "status_rank FIRING = 1"
| "status_rank ACKNOWLEDGED = 2"
| "status_rank RESOLVED = 3"

lemma status_rank_inj: "status_rank s = status_rank s' \<Longrightarrow> s = s'"
  by (cases s; cases s') auto

instantiation alert_status :: linorder
begin

definition less_eq_alert_status :: "alert_status \<Rightarrow> alert_status \<Rightarrow> bool" where
  "s \<le> s' \<longleftrightarrow> status_rank s \<le> status_rank s'"

definition less_alert_status :: "alert_status \<Rightarrow> alert_status \<Rightarrow> bool" where
  "s < s' \<longleftrightarrow> status_rank s < status_rank s'"

instance
  by intro_classes (auto simp: less_eq_alert_status_def less_alert_status_def intro: status_rank_inj)

end

lemma status_le_RESOLVED [simp]: "s \<le> RESOLVED"
  by (cases s) (auto simp: less_eq_alert_status_def)

record observedDecision =
  od_next :: alert_status
  od_notify :: bool
  od_changed :: bool

fun decideObserved :: "alert_status \<Rightarrow> int \<Rightarrow> int option \<Rightarrow> int \<Rightarrow> int \<Rightarrow> int \<Rightarrow> observedDecision" where
  "decideObserved PENDING firstSeen lastNotified forDuration cooldown now =
     (if now - firstSeen \<ge> forDuration
      then \<lparr>od_next = FIRING, od_notify = True, od_changed = True\<rparr>
      else \<lparr>od_next = PENDING, od_notify = False, od_changed = False\<rparr>)"
| "decideObserved FIRING firstSeen lastNotified forDuration cooldown now =
     \<lparr>od_next = FIRING,
      od_notify = (case lastNotified of None \<Rightarrow> True | Some t \<Rightarrow> now - t \<ge> cooldown),
      od_changed = False\<rparr>"
| "decideObserved ACKNOWLEDGED firstSeen lastNotified forDuration cooldown now =
     \<lparr>od_next = ACKNOWLEDGED, od_notify = False, od_changed = False\<rparr>"
| "decideObserved RESOLVED firstSeen lastNotified forDuration cooldown now =
     \<lparr>od_next = RESOLVED, od_notify = False, od_changed = False\<rparr>"

fun decideMissing :: "alert_status \<Rightarrow> alert_status \<times> bool" where
  "decideMissing PENDING = (RESOLVED, False)"
| "decideMissing FIRING = (RESOLVED, True)"
| "decideMissing ACKNOWLEDGED = (RESOLVED, True)"
| "decideMissing RESOLVED = (RESOLVED, False)"

definition CanAcknowledge :: "alert_status \<Rightarrow> bool" where
  "CanAcknowledge status \<longleftrightarrow> status = FIRING \<or> status = ACKNOWLEDGED"

fun CanResolve :: "alert_status \<Rightarrow> bool" where
  "CanResolve PENDING = True"
| "CanResolve FIRING = True"
| "CanResolve ACKNOWLEDGED = True"
| "CanResolve RESOLVED = False"

datatype alert_error = ErrIllegalTransition | ErrAlertNotFound | ErrRuleTimers | ErrAlertDatabase string

definition ValidateManualTransition :: "alert_status \<Rightarrow> string \<Rightarrow> alert_status \<times> alert_error option" where
  "ValidateManualTransition prev action =
     (if action = ''ack'' then
        (if \<not> CanAcknowledge prev then (prev, Some ErrIllegalTransition) else (ACKNOWLEDGED, None))
      else if action = ''resolve'' then
        (if \<not> CanResolve prev then (prev, Some ErrIllegalTransition) else (RESOLVED, None))
      else (prev, Some ErrIllegalTransition))"

definition ValidateRuleTimers :: "int \<Rightarrow> int \<Rightarrow> bool" where
  "ValidateRuleTimers forSeconds cooldownSeconds \<longleftrightarrow>
     \<not> (forSeconds < 0 \<or> forSeconds > 86400) \<and> \<not> (cooldownSeconds < 60 \<or> cooldownSeconds > 86400)"

definition Fingerprint :: "string \<Rightarrow> string \<Rightarrow> string" where
  "Fingerprint kind key = kind @ ''/'' @ key"

subsection \<open>Tables\<close>

record alert_instance =
  ai_id :: nat
  ai_rule :: string
  ai_cluster :: string
  ai_kind :: string
  ai_fingerprint :: string
  ai_status :: alert_status
  ai_severity :: string
  ai_title :: string
  ai_detail :: string
  ai_firstSeen :: int
  ai_lastSeen :: int
  ai_firedAt :: "int option"
  ai_ackedAt :: "int option"
  ai_ackedBy :: "string option"
  ai_resolvedAt :: "int option"
  ai_resolvedReason :: "string option"
  ai_lastNotified :: "int option"
  ai_notifyCount :: nat
  ai_suppressed :: bool

datatype event_type = STATE_CHANGE | NOTIFY | ACK | RESOLVE | REARM

datatype event_payload = NoPayload | Reason string | Phase string nat | Manual

record alert_event =
  ev_id :: nat
  ev_instance :: nat
  ev_type :: event_type
  ev_from :: alert_status
  ev_to :: alert_status
  ev_payload :: event_payload

datatype delivery_status = D_PENDING | D_SENT | D_FAILED

record alert_delivery =
  dl_id :: nat
  dl_instance :: nat
  dl_channel :: string
  dl_kind :: string
  dl_status :: delivery_status
  dl_attempts :: int
  dl_nextRetry :: "int option"
  dl_event :: "nat option"
  dl_sentAt :: "int option"
  dl_lastError :: "string option"

record alert_db =
  al_instances :: "alert_instance list"
  al_events :: "alert_event list"
  al_deliveries :: "alert_delivery list"
  al_fresh :: nat
  al_ticks :: nat

record alert_rule =
  ru_id :: string
  ru_cluster :: string
  ru_kind :: string
  ru_severity :: string
  ru_forSeconds :: int
  ru_cooldownSeconds :: int
  ru_channels :: "string list"

record observation =
  ob_key :: string
  ob_title :: string
  ob_detail :: string

definition alertTx :: "alert_error option \<Rightarrow> (alert_db \<Rightarrow> alert_error + alert_db) \<Rightarrow> alert_db
    \<Rightarrow> alert_error option \<times> alert_db" where
  "alertTx fault f db =
     (case f db of
        Inl e \<Rightarrow> (Some e, db)
      | Inr db' \<Rightarrow> (case fault of Some e \<Rightarrow> (Some e, db) | None \<Rightarrow> (None, db')))"

definition updateInstance :: "nat \<Rightarrow> (alert_instance \<Rightarrow> alert_instance) \<Rightarrow> alert_db \<Rightarrow> alert_db" where
  "updateInstance k f db =
     db\<lparr>al_instances := map (\<lambda>r. if ai_id r = k then f r else r) (al_instances db)\<rparr>"

definition recordEvent :: "nat \<Rightarrow> event_type \<Rightarrow> alert_status \<Rightarrow> alert_status \<Rightarrow> event_payload
    \<Rightarrow> alert_db \<Rightarrow> nat \<times> alert_db" where
  "recordEvent i t prev nxt payload db =
     (al_fresh db,
      db\<lparr>al_events := al_events db @ [\<lparr>ev_id = al_fresh db, ev_instance = i, ev_type = t,
                                      ev_from = prev, ev_to = nxt, ev_payload = payload\<rparr>],
         al_fresh := Suc (al_fresh db)\<rparr>)"

definition createDelivery :: "nat \<Rightarrow> string \<Rightarrow> nat option \<Rightarrow> string \<Rightarrow> alert_db \<Rightarrow> alert_db" where
  "createDelivery i phase eventID channel db =
     db\<lparr>al_deliveries := al_deliveries db @
          [\<lparr>dl_id = al_fresh db, dl_instance = i, dl_channel = channel, dl_kind = phase,
            dl_status = D_PENDING, dl_attempts = 0, dl_nextRetry = None, dl_event = eventID,
            dl_sentAt = None, dl_lastError = None\<rparr>],
        al_fresh := Suc (al_fresh db)\<rparr>"

definition enqueueNotification :: "(nat \<Rightarrow> int) \<Rightarrow> alert_instance \<Rightarrow> string list \<Rightarrow> string
    \<Rightarrow> alert_db \<Rightarrow> alert_db" where
  "enqueueNotification clock inst channels phase db =
     (let now = clock (al_ticks db);
          db = db\<lparr>al_ticks := Suc (al_ticks db)\<rparr>;
          db = (if length channels > 0
                then let (eventID, db) = recordEvent (ai_id inst) NOTIFY (ai_status inst) (ai_status inst)
                                           (Phase phase (length channels)) db
                     in fold (createDelivery (ai_id inst) phase (Some eventID)) channels db
                else db)
      in updateInstance (ai_id inst)
           (\<lambda>r. r\<lparr>ai_lastNotified := Some now,
                  ai_notifyCount := ai_notifyCount inst + length channels\<rparr>) db)"

definition channelsFor :: "alert_rule \<Rightarrow> (string \<Rightarrow> string list) \<Rightarrow> string list" where
  "channelsFor rule byCluster =
     (let cluster = byCluster (ru_cluster rule)
      in if length (ru_channels rule) = 0 then cluster
         else filter (\<lambda>c. c \<in> set (ru_channels rule)) cluster)"

subsection \<open>Evaluating a rule\<close>

text \<open>A map built by assigning in list order: the last entry of a fingerprint wins.\<close>

definition lookupFp :: "string \<Rightarrow> alert_instance list \<Rightarrow> alert_instance option" where
  "lookupFp fp is = find (\<lambda>i. ai_fingerprint i = fp) (rev is)"

definition touch :: "alert_rule \<Rightarrow> int \<Rightarrow> observation \<Rightarrow> alert_instance \<Rightarrow> alert_instance" where
  "touch rule now ob r = r\<lparr>ai_lastSeen := now, ai_title := ob_title ob, ai_detail := ob_detail ob,
                          ai_severity := ru_severity rule\<rparr>"

definition newInstance :: "alert_rule \<Rightarrow> int \<Rightarrow> observation \<Rightarrow> nat \<Rightarrow> alert_instance" where
  "newInstance rule now ob i =
     \<lparr>ai_id = i, ai_rule = ru_id rule, ai_cluster = ru_cluster rule, ai_kind = ru_kind rule,
      ai_fingerprint = Fingerprint (ru_kind rule) (ob_key ob), ai_status = PENDING,
      ai_severity = ru_severity rule, ai_title = ob_title ob, ai_detail = ob_detail ob,
      ai_firstSeen = now, ai_lastSeen = now, ai_firedAt = None, ai_ackedAt = None,
      ai_ackedBy = None, ai_resolvedAt = None, ai_resolvedReason = None,
      ai_lastNotified = None, ai_notifyCount = 0, ai_suppressed = False\<rparr>"

definition createInstance :: "alert_rule \<Rightarrow> int \<Rightarrow> observation \<Rightarrow> alert_db \<Rightarrow> alert_instance \<times> alert_db" where
  "createInstance rule now ob db =
     (let i = newInstance rule now ob (al_fresh db)
      in (i, db\<lparr>al_instances := al_instances db @ [i], al_fresh := Suc (al_fresh db)\<rparr>))"

text \<open>What follows \<open>decideObserved\<close>; the second component is the in-memory instance.\<close>

definition applyDecision :: "alert_rule \<Rightarrow> (nat \<Rightarrow> int) \<Rightarrow> string list \<Rightarrow> bool \<Rightarrow> int
    \<Rightarrow> alert_instance \<Rightarrow> alert_db \<Rightarrow> alert_db \<times> alert_instance" where
  "applyDecision rule clock channels muted now inst db =
     (let decision = decideObserved (ai_status inst) (ai_firstSeen inst) (ai_lastNotified inst)
                       (ru_forSeconds rule * 10 ^ 9) (ru_cooldownSeconds rule * 10 ^ 9) now;
          (db, inst) =
            (if od_changed decision
             then let db = updateInstance (ai_id inst)
                             (\<lambda>r. r\<lparr>ai_status := od_next decision, ai_firedAt := Some now\<rparr>) db;
                      previous = ai_status inst;
                      inst = inst\<lparr>ai_status := od_next decision\<rparr>
                  in (snd (recordEvent (ai_id inst) STATE_CHANGE previous (od_next decision) NoPayload db), inst)
             else (db, inst));
          db = (if od_notify decision \<and> \<not> muted
                then enqueueNotification clock inst channels ''firing'' db else db)
      in (db, inst))"

definition observeOne :: "alert_rule \<Rightarrow> (nat \<Rightarrow> int) \<Rightarrow> string list \<Rightarrow> bool \<Rightarrow> int
    \<Rightarrow> alert_instance list \<Rightarrow> observation \<Rightarrow> alert_db \<times> alert_instance list
    \<Rightarrow> alert_db \<times> alert_instance list" where
  "observeOne rule clock channels muted now suppressed ob s =
     (case s of (db, active) \<Rightarrow>
        (let fp = Fingerprint (ru_kind rule) (ob_key ob)
         in case lookupFp fp active of
              None \<Rightarrow>
                (case lookupFp fp suppressed of
                   Some i \<Rightarrow> (updateInstance (ai_id i) (touch rule now ob) db, active)
                 | None \<Rightarrow>
                     let (inst, db) = createInstance rule now ob db
                     in (fst (applyDecision rule clock channels muted now inst db), active))
            | Some inst \<Rightarrow>
                let db = updateInstance (ai_id inst) (touch rule now ob) db;
                    (db, inst') = applyDecision rule clock channels muted now inst db
                in (db, map (\<lambda>a. if ai_id a = ai_id inst then inst' else a) active)))"

definition missingOne :: "(nat \<Rightarrow> int) \<Rightarrow> string list \<Rightarrow> bool \<Rightarrow> int \<Rightarrow> string set
    \<Rightarrow> alert_instance \<Rightarrow> alert_db \<Rightarrow> alert_db" where
  "missingOne clock channels muted now seen inst db =
     (if ai_fingerprint inst \<in> seen then db
      else case decideMissing (ai_status inst) of (nxt, recovered) \<Rightarrow>
        if nxt = ai_status inst then db
        else
          let db = updateInstance (ai_id inst)
                     (\<lambda>r. r\<lparr>ai_status := nxt, ai_resolvedAt := Some now,
                            ai_resolvedReason := Some ''condition cleared''\<rparr>) db;
              db = snd (recordEvent (ai_id inst) STATE_CHANGE (ai_status inst) nxt
                          (Reason ''condition cleared'') db)
          in if recovered \<and> \<not> muted then enqueueNotification clock inst channels ''recovery'' db
             else db)"

definition rearmOne :: "string set \<Rightarrow> alert_instance \<Rightarrow> alert_db \<Rightarrow> alert_db" where
  "rearmOne seen inst db =
     (if ai_fingerprint inst \<in> seen then db
      else let db = updateInstance (ai_id inst) (\<lambda>r. r\<lparr>ai_suppressed := False\<rparr>) db
           in snd (recordEvent (ai_id inst) REARM RESOLVED RESOLVED (Reason ''condition cleared'') db))"

definition activeOf :: "alert_rule \<Rightarrow> alert_db \<Rightarrow> alert_instance list" where
  "activeOf rule db =
     filter (\<lambda>i. ai_status i \<noteq> RESOLVED) (filter (\<lambda>i. ai_rule i = ru_id rule) (al_instances db))"

definition suppressedOf :: "alert_rule \<Rightarrow> alert_db \<Rightarrow> alert_instance list" where
  "suppressedOf rule db =
     filter (\<lambda>i. ai_status i = RESOLVED \<and> ai_suppressed i)
       (filter (\<lambda>i. ai_rule i = ru_id rule) (al_instances db))"

definition evaluateRule :: "alert_rule \<Rightarrow> (nat \<Rightarrow> int) \<Rightarrow> string list \<Rightarrow> bool \<Rightarrow> bool
    \<Rightarrow> alert_error + observation list \<Rightarrow> alert_db \<Rightarrow> alert_error + alert_db" where
  "evaluateRule rule clock channels muted analyticsMissing observed db =
     (if \<not> ValidateRuleTimers (ru_forSeconds rule) (ru_cooldownSeconds rule) then Err ErrRuleTimers
      else if analyticsMissing \<and> ru_kind rule \<in> {''origin_error_rate'', ''node_resource_usage''} then Ok db
      else (case observed of
              Inl e \<Rightarrow> Err e
            | Inr observations \<Rightarrow>
                (let now = clock (al_ticks db);
                     db = db\<lparr>al_ticks := Suc (al_ticks db)\<rparr>;
                     active = activeOf rule db;
                     suppressed = suppressedOf rule db;
                     seen = set (map (\<lambda>ob. Fingerprint (ru_kind rule) (ob_key ob)) observations);
                     (db, active) = fold (observeOne rule clock channels muted now suppressed)
                                      observations (db, active);
                     db = fold (missingOne clock channels muted now seen) active db
                 in Ok (fold (rearmOne seen) suppressed db))))"

subsection \<open>Manual operations\<close>

definition mutateInstance :: "string \<Rightarrow> nat
    \<Rightarrow> (alert_instance \<Rightarrow> alert_error + ((alert_instance \<Rightarrow> alert_instance) \<times> alert_status))
    \<Rightarrow> event_type \<Rightarrow> event_payload \<Rightarrow> alert_db \<Rightarrow> alert_error + alert_db" where
  "mutateInstance clusterID alertID mutate eventType payload db =
     (case filter (\<lambda>i. ai_id i = alertID \<and> ai_cluster i = clusterID) (al_instances db) of
        [inst] \<Rightarrow>
          (case mutate inst of
             Inl e \<Rightarrow> Err e
           | Inr (sets, nxt) \<Rightarrow>
               Ok (snd (recordEvent (ai_id inst) eventType (ai_status inst) nxt payload
                          (updateInstance (ai_id inst) sets db))))
      | _ \<Rightarrow> Err ErrAlertNotFound)"

text \<open>The closures that \<open>Acknowledge\<close> and \<open>Resolve\<close> pass to \<open>mutateInstance\<close>.\<close>

definition ackMutate :: "int \<Rightarrow> string \<Rightarrow> alert_instance
    \<Rightarrow> alert_error + ((alert_instance \<Rightarrow> alert_instance) \<times> alert_status)" where
  "ackMutate now userID inst =
     (if \<not> CanAcknowledge (ai_status inst) then Err ErrIllegalTransition
      else Ok ((\<lambda>r. r\<lparr>ai_status := ACKNOWLEDGED, ai_ackedAt := Some now, ai_ackedBy := Some userID\<rparr>),
               ACKNOWLEDGED))"

definition resolveMutate :: "int \<Rightarrow> string \<Rightarrow> alert_instance
    \<Rightarrow> alert_error + ((alert_instance \<Rightarrow> alert_instance) \<times> alert_status)" where
  "resolveMutate now reason inst =
     (if \<not> CanResolve (ai_status inst) then Err ErrIllegalTransition
      else let reason = (if reason = [] then ''resolved manually'' else reason)
           in Ok ((\<lambda>r. r\<lparr>ai_status := RESOLVED, ai_resolvedAt := Some now,
                         ai_resolvedReason := Some reason, ai_suppressed := True\<rparr>),
                  RESOLVED))"

definition Acknowledge :: "int \<Rightarrow> string \<Rightarrow> nat \<Rightarrow> string \<Rightarrow> alert_db \<Rightarrow> alert_error + alert_db" where
  "Acknowledge now clusterID alertID userID =
     mutateInstance clusterID alertID (ackMutate now userID) ACK NoPayload"

definition Resolve :: "int \<Rightarrow> string \<Rightarrow> nat \<Rightarrow> string \<Rightarrow> alert_db \<Rightarrow> alert_error + alert_db" where
  "Resolve now clusterID alertID reason =
     mutateInstance clusterID alertID (resolveMutate now reason) RESOLVE Manual"

subsection \<open>Deliveries\<close>

definition deliveryMaxAttempts :: int where
  "deliveryMaxAttempts = 5"

definition minute :: int where
  "minute = 60 * 10 ^ 9"

definition backoff :: "int \<Rightarrow> int" where
  "backoff attempts = (let attempts = (if attempts < 1 then 1 else attempts) in 2 ^ nat attempts * minute)"

definition finishDelivery :: "int \<Rightarrow> nat \<Rightarrow> int \<Rightarrow> bool \<Rightarrow> string option \<Rightarrow> bool \<Rightarrow> alert_db \<Rightarrow> alert_db" where
  "finishDelivery now deliveryID attempts sent cause permanent db =
     (let upd = (\<lambda>f. db\<lparr>al_deliveries :=
                     map (\<lambda>d. if dl_id d = deliveryID then f d else d) (al_deliveries db)\<rparr>)
      in if sent
         then upd (\<lambda>d. d\<lparr>dl_status := D_SENT, dl_sentAt := Some now, dl_attempts := attempts,
                          dl_nextRetry := None, dl_lastError := None\<rparr>)
         else
           let final = (permanent \<or> attempts \<ge> deliveryMaxAttempts);
               status = (if final then D_FAILED else D_PENDING);
               retry = (if final then None else Some (now + backoff attempts));
               message = (case cause of None \<Rightarrow> [] | Some m \<Rightarrow> m)
           in upd (\<lambda>d. d\<lparr>dl_status := status, dl_nextRetry := retry, dl_lastError := Some message,
                          dl_attempts := attempts\<rparr>))"

text \<open>The claim of \<open>flushDeliveries\<close>: due rows, hidden for the claim window.\<close>

definition deliveryBatchSize :: nat where
  "deliveryBatchSize = 32"

definition claimable :: "int \<Rightarrow> alert_delivery \<Rightarrow> bool" where
  "claimable now d \<longleftrightarrow> dl_status d = D_PENDING
     \<and> (case dl_nextRetry d of None \<Rightarrow> True | Some t \<Rightarrow> t \<le> now)"

definition claimDeliveries :: "int \<Rightarrow> alert_db \<Rightarrow> (nat \<times> int) list \<times> alert_db" where
  "claimDeliveries now db =
     (let due = take deliveryBatchSize (filter (claimable now) (al_deliveries db));
          ids = map dl_id due
      in (map (\<lambda>d. (dl_id d, dl_attempts d + 1)) due,
          db\<lparr>al_deliveries := map (\<lambda>d. if dl_id d \<in> set ids
                                        then d\<lparr>dl_nextRetry := Some (now + 3 * minute)\<rparr> else d)
                                (al_deliveries db)\<rparr>))"

subsection \<open>What an evaluation does to the alerts\<close>

text \<open>The view of the instance table that the lemmas use: rule, fingerprint and status by id.\<close>

type_synonym alert_view = "nat \<Rightarrow> (string \<times> string \<times> alert_status) option"

definition viewRow :: "alert_instance \<Rightarrow> string \<times> string \<times> alert_status" where
  "viewRow r = (ai_rule r, ai_fingerprint r, ai_status r)"

definition view :: "alert_db \<Rightarrow> alert_view" where
  "view db = map_of (map (\<lambda>r. (ai_id r, viewRow r)) (al_instances db))"

definition ids_ok :: "alert_db \<Rightarrow> bool" where
  "ids_ok db \<longleftrightarrow> distinct (map ai_id (al_instances db))
     \<and> (\<forall>i \<in> set (map ai_id (al_instances db)). i < al_fresh db)"

definition view_le :: "alert_view \<Rightarrow> alert_view \<Rightarrow> bool" where
  "view_le V V' \<longleftrightarrow> (\<forall>k r f s. V k = Some (r, f, s) \<longrightarrow> (\<exists>s'. V' k = Some (r, f, s') \<and> s \<le> s'))"

definition openFps :: "string \<Rightarrow> alert_view \<Rightarrow> string set" where
  "openFps rid V = {f. \<exists>k s. V k = Some (rid, f, s) \<and> s \<noteq> RESOLVED}"

lemma view_le_refl [simp]: "view_le V V"
  by (simp add: view_le_def)

lemma view_le_trans: "view_le V V' \<Longrightarrow> view_le V' V'' \<Longrightarrow> view_le V V''"
  unfolding view_le_def by (blast intro: order_trans)

lemma ids_ok_fresh: "ids_ok db \<Longrightarrow> view db k = None" if "al_fresh db \<le> k"
  using that by (auto simp: ids_ok_def view_def map_of_eq_None_iff)

lemma view_updateInstance:
  assumes "\<And>r. ai_id (f r) = ai_id r" "\<And>r. viewRow (f r) = h (viewRow r)"
  shows "view (updateInstance k f db) = (view db)(k := map_option h (view db k))"
proof -
  have "map_of (map (\<lambda>r. (ai_id r, viewRow r)) (map (\<lambda>r. if ai_id r = k then f r else r) rs))
      = (let V = map_of (map (\<lambda>r. (ai_id r, viewRow r)) rs) in V(k := map_option h (V k)))" for rs
    by (induction rs) (auto simp: assms Let_def fun_eq_iff)
  then show ?thesis
    by (simp add: view_def updateInstance_def Let_def)
qed

lemma ids_ok_updateInstance:
  assumes "\<And>r. ai_id (f r) = ai_id r"
  shows "ids_ok (updateInstance k f db) = ids_ok db"
proof -
  have "map ai_id (al_instances (updateInstance k f db)) = map ai_id (al_instances db)"
    by (simp add: assms updateInstance_def)
  moreover have "al_fresh (updateInstance k f db) = al_fresh db"
    by (simp add: updateInstance_def)
  ultimately show ?thesis
    by (simp only: ids_ok_def)
qed

lemma updateInstance_same:
  assumes "\<And>r. ai_id (f r) = ai_id r" "\<And>r. viewRow (f r) = viewRow r"
  shows "view (updateInstance k f db) = view db" "ids_ok (updateInstance k f db) = ids_ok db"
    "al_fresh (updateInstance k f db) = al_fresh db"
  using view_updateInstance [of f id k db] ids_ok_updateInstance [OF assms(1)] assms
  by (simp_all add: option.map_id fun_upd_idem updateInstance_def)

lemma touch_same [simp]:
  "view (updateInstance k (touch rule now ob) db) = view db"
  "ids_ok (updateInstance k (touch rule now ob) db) = ids_ok db"
  by (intro updateInstance_same; simp add: touch_def viewRow_def)+

lemma recordEvent_same [simp]:
  "view (snd (recordEvent i t p n pl db)) = view db"
  "ids_ok db \<Longrightarrow> ids_ok (snd (recordEvent i t p n pl db))"
  by (auto simp: recordEvent_def view_def ids_ok_def less_SucI)

lemma createDelivery_same:
  "view (fold (createDelivery i ph ev) cs db) = view db"
  "ids_ok db \<Longrightarrow> ids_ok (fold (createDelivery i ph ev) cs db)"
  by (induction cs arbitrary: db) (auto simp: createDelivery_def view_def ids_ok_def less_SucI)

lemma tick_same [simp]: "view (db\<lparr>al_ticks := n\<rparr>) = view db" "ids_ok (db\<lparr>al_ticks := n\<rparr>) = ids_ok db"
  by (simp_all add: view_def ids_ok_def)

lemma enqueueNotification_same [simp]:
  "view (enqueueNotification clock i cs ph db) = view db"
  "ids_ok db \<Longrightarrow> ids_ok (enqueueNotification clock i cs ph db)"
  by (auto simp: enqueueNotification_def Let_def case_prod_beta createDelivery_same viewRow_def
      updateInstance_same(1,2))

text \<open>The in-memory copies agree with their rows.\<close>

definition coupled :: "alert_view \<Rightarrow> alert_instance list \<Rightarrow> bool" where
  "coupled V A \<longleftrightarrow> distinct (map ai_id A) \<and> (\<forall>a \<in> set A. V (ai_id a) = Some (viewRow a) \<and> ai_status a \<noteq> RESOLVED)"

lemma decideObserved_next:
  "s \<le> od_next (decideObserved s f l d c n)" "s \<noteq> RESOLVED \<Longrightarrow> od_next (decideObserved s f l d c n) \<noteq> RESOLVED"
  "\<not> od_changed (decideObserved s f l d c n) \<Longrightarrow> od_next (decideObserved s f l d c n) = s"
  by (cases s; auto simp: less_eq_alert_status_def)+

lemma applyDecision_view:
  assumes "view db (ai_id inst) = Some (viewRow inst)" "ids_ok db"
    and "applyDecision rule clock channels muted now inst db = (db', inst')"
  shows "view db' = (view db)(ai_id inst \<mapsto> viewRow inst') \<and> ids_ok db'
    \<and> ai_id inst' = ai_id inst \<and> ai_rule inst' = ai_rule inst \<and> ai_fingerprint inst' = ai_fingerprint inst
    \<and> ai_status inst \<le> ai_status inst' \<and> (ai_status inst \<noteq> RESOLVED \<longrightarrow> ai_status inst' \<noteq> RESOLVED)"
proof -
  let ?d = "decideObserved (ai_status inst) (ai_firstSeen inst) (ai_lastNotified inst)
      (ru_forSeconds rule * 10 ^ 9) (ru_cooldownSeconds rule * 10 ^ 9) now"
  define inst1 where "inst1 = inst\<lparr>ai_status := od_next ?d\<rparr>"
  define db1 where "db1 = snd (recordEvent (ai_id inst) STATE_CHANGE (ai_status inst) (od_next ?d) NoPayload
      (updateInstance (ai_id inst) (\<lambda>r. r\<lparr>ai_status := od_next ?d, ai_firedAt := Some now\<rparr>) db))"
  have db1: "view db1 = (view db)(ai_id inst \<mapsto> viewRow inst1)" "ids_ok db1"
    using assms(1,2) view_updateInstance [of "\<lambda>r. r\<lparr>ai_status := od_next ?d, ai_firedAt := Some now\<rparr>"
        "\<lambda>(a, b, s). (a, b, od_next ?d)" "ai_id inst" db]
      ids_ok_updateInstance [of "\<lambda>r. r\<lparr>ai_status := od_next ?d, ai_firedAt := Some now\<rparr>" "ai_id inst" db]
    by (simp_all add: db1_def inst1_def viewRow_def)
  have "inst' = (if od_changed ?d then inst1 else inst)"
      "view db' = view (if od_changed ?d then db1 else db)" "ids_ok db'"
    using assms(2,3) db1(2)
    by (auto simp: applyDecision_def Let_def inst1_def db1_def split: if_splits)
  then show ?thesis
    using db1(1) assms(1) decideObserved_next [where s = "ai_status inst"]
    by (auto simp: inst1_def fun_upd_idem)
qed

lemma lookupFp_None: "lookupFp fp is = None \<longleftrightarrow> fp \<notin> ai_fingerprint ` set is"
  by (auto simp: lookupFp_def find_None_iff)

lemma lookupFp_Some: "lookupFp fp is = Some i \<Longrightarrow> i \<in> set is \<and> ai_fingerprint i = fp"
  by (auto simp: lookupFp_def find_Some_iff) (metis length_rev nth_mem set_rev)

lemma createInstance_view:
  assumes "ids_ok db" "createInstance rule now ob db = (inst, db')"
  shows "view db' = (view db)(al_fresh db \<mapsto> viewRow inst)" "ids_ok db'"
    "inst = newInstance rule now ob (al_fresh db)"
proof -
  have "view db (al_fresh db) = None"
    using ids_ok_fresh [OF order_refl assms(1)] .
  then show "view db' = (view db)(al_fresh db \<mapsto> viewRow inst)"
    using assms(2) by (auto simp: createInstance_def Let_def view_def newInstance_def map_add_def
        fun_eq_iff split: option.splits)
  show "ids_ok db'" "inst = newInstance rule now ob (al_fresh db)"
    using assms by (auto simp: createInstance_def Let_def ids_ok_def newInstance_def less_SucI)
      (metis less_irrefl)
qed

text \<open>Rows keep their rule and fingerprint and do not resolve; new rows have a fingerprint of \<open>F\<close>.\<close>

definition traced :: "string set \<Rightarrow> alert_view \<Rightarrow> alert_view \<Rightarrow> bool" where
  "traced F V V' \<longleftrightarrow> (\<forall>k r f s. V' k = Some (r, f, s) \<longrightarrow>
     (\<exists>s0. V k = Some (r, f, s0) \<and> (s0 = RESOLVED \<longleftrightarrow> s = RESOLVED)) \<or> f \<in> F)"

lemma tracedD:
  "traced F V V' \<Longrightarrow> V' k = Some (r, f, s) \<Longrightarrow> f \<notin> F \<Longrightarrow>
   \<exists>s0. V k = Some (r, f, s0) \<and> (s0 = RESOLVED \<longleftrightarrow> s = RESOLVED)"
  unfolding traced_def by blast

lemma traced_trans:
  assumes "traced F V V'" "traced G V' V''"
  shows "traced (F \<union> G) V V''"
  unfolding traced_def
proof (intro allI impI disjCI)
  fix k r f s
  assume a: "V'' k = Some (r, f, s)" "f \<notin> F \<union> G"
  then obtain s1 where "V' k = Some (r, f, s1)" "s1 = RESOLVED \<longleftrightarrow> s = RESOLVED"
    using tracedD [OF assms(2)] by blast
  then show "\<exists>s0. V k = Some (r, f, s0) \<and> (s0 = RESOLVED \<longleftrightarrow> s = RESOLVED)"
    using tracedD [OF assms(1), of k r f s1] a(2) by blast
qed

text \<open>One observation: its fingerprint is open afterwards, unless it is suppressed.\<close>

definition observed_effect :: "alert_rule \<Rightarrow> string set \<Rightarrow> string set \<Rightarrow> string \<Rightarrow> alert_view \<Rightarrow> alert_view \<Rightarrow> bool" where
  "observed_effect rule known hidden fp V V' \<longleftrightarrow> view_le V V'
     \<and> openFps (ru_id rule) V' = openFps (ru_id rule) V \<union> (if fp \<in> known \<union> hidden then {} else {fp})
     \<and> traced {fp} V V'
     \<and> (if fp \<in> known \<union> hidden then dom V' = dom V
        else \<exists>k. V k = None \<and> dom V' = insert k (dom V))"

lemma openFps_update:
  assumes "V k = Some (r, f, s)" "s = RESOLVED \<longleftrightarrow> s' = RESOLVED"
  shows "openFps rid (V(k \<mapsto> (r, f, s'))) = openFps rid V"
proof -
  have "(\<exists>x. (V(k \<mapsto> (r, f, s'))) k' = Some (rid, g, x) \<and> x \<noteq> RESOLVED)
      \<longleftrightarrow> (\<exists>x. V k' = Some (rid, g, x) \<and> x \<noteq> RESOLVED)" for k' g
    using assms by (cases "k' = k") auto
  then show ?thesis by (simp add: openFps_def del: fun_upd_apply)
qed

lemma openFps_new:
  assumes "V k = None" "s \<noteq> RESOLVED"
  shows "openFps rid (V(k \<mapsto> (rid, fp, s))) = insert fp (openFps rid V)"
proof -
  have "(\<exists>x. (V(k \<mapsto> (rid, fp, s))) k' = Some (rid, g, x) \<and> x \<noteq> RESOLVED)
      \<longleftrightarrow> k' = k \<and> g = fp \<or> (\<exists>x. V k' = Some (rid, g, x) \<and> x \<noteq> RESOLVED)" for k' g
    using assms by (cases "k' = k") auto
  then show ?thesis by (auto simp: openFps_def simp del: fun_upd_apply)
qed

lemma observed_effect_update:
  assumes "V k = Some (r, f, s)" "s \<le> s'" "s \<noteq> RESOLVED" "s' \<noteq> RESOLVED" "fp \<in> known"
  shows "observed_effect rule known hidden fp V (V(k \<mapsto> (r, f, s')))"
  using assms openFps_update [of V k r f s s' "ru_id rule"]
  by (auto simp: observed_effect_def view_le_def traced_def simp del: fun_upd_apply)
     (auto split: if_splits)

lemma observed_effect_new:
  assumes "V k = None" "fp \<notin> known \<union> hidden" "s \<noteq> RESOLVED"
  shows "observed_effect rule known hidden fp V (V(k \<mapsto> (ru_id rule, fp, s)))"
  using assms openFps_new [of V k s "ru_id rule" fp]
  by (auto simp: observed_effect_def view_le_def traced_def simp del: fun_upd_apply)
     (auto split: if_splits)

lemma observeOne_effect:
  assumes ok: "ids_ok db" and cp: "coupled (view db) A"
    and step: "observeOne rule clock chans muted now S ob (db, A) = (db', A')"
  defines "fp \<equiv> Fingerprint (ru_kind rule) (ob_key ob)"
  shows "ids_ok db' \<and> coupled (view db') A' \<and> map ai_id A' = map ai_id A
    \<and> map ai_fingerprint A' = map ai_fingerprint A
    \<and> observed_effect rule (ai_fingerprint ` set A) (ai_fingerprint ` set S) fp (view db) (view db')"
proof (cases "lookupFp fp A")
  case (Some inst)
  define db1 where "db1 = updateInstance (ai_id inst) (touch rule now ob) db"
  obtain db2 inst' where app: "applyDecision rule clock chans muted now inst db1 = (db2, inst')"
    by fastforce
  have inst: "inst \<in> set A" "ai_fingerprint inst = fp"
    using lookupFp_Some [OF Some] by auto
  then have row: "view db (ai_id inst) = Some (viewRow inst)" "ai_status inst \<noteq> RESOLVED"
    using cp by (auto simp: coupled_def)
  have known: "fp \<in> ai_fingerprint ` set A"
    using inst by blast
  have d1: "view db1 = view db" "ids_ok db1"
    using ok by (simp_all add: db1_def)
  have d2: "view db2 = (view db)(ai_id inst \<mapsto> viewRow inst')" "ids_ok db2" "ai_id inst' = ai_id inst"
      "ai_rule inst' = ai_rule inst" "ai_fingerprint inst' = ai_fingerprint inst"
      "ai_status inst \<le> ai_status inst'" "ai_status inst' \<noteq> RESOLVED"
    using applyDecision_view [OF _ d1(2) app] row d1(1) by auto
  let ?A = "map (\<lambda>a. if ai_id a = ai_id inst then inst' else a) A"
  have res: "db' = db2" "A' = ?A"
    using step Some app by (auto simp: observeOne_def fp_def db1_def Let_def)
  have same: "a = inst" if "a \<in> set A" "ai_id a = ai_id inst" for a
    using cp inst(1) that by (auto simp: coupled_def distinct_map dest: inj_onD)
  have ids: "map ai_id ?A = map ai_id A" "map ai_fingerprint ?A = map ai_fingerprint A"
    using same d2(3,5) by auto
  moreover have "coupled (view db') A'"
    unfolding coupled_def res ids(1) using cp d2(1,3,7)
    by (auto simp: coupled_def split: if_splits)
  moreover have "observed_effect rule (ai_fingerprint ` set A) (ai_fingerprint ` set S) fp (view db) (view db')"
    using observed_effect_update [of "view db" "ai_id inst" "ai_rule inst" "ai_fingerprint inst"
        "ai_status inst" "ai_status inst'" fp "ai_fingerprint ` set A" rule "ai_fingerprint ` set S"]
      row d2 inst(2) known by (simp add: res viewRow_def)
  ultimately show ?thesis
    using d2(2) res by simp
next
  case None
  then have unknown: "fp \<notin> ai_fingerprint ` set A"
    by (simp add: lookupFp_None)
  show ?thesis
  proof (cases "lookupFp fp S")
    case (Some i)
    then have "fp \<in> ai_fingerprint ` set S"
      using lookupFp_Some by fastforce
    then show ?thesis
      using step None Some ok cp by (auto simp: observeOne_def fp_def observed_effect_def traced_def)
  next
    case none: None
    obtain inst db1 where create: "createInstance rule now ob db = (inst, db1)" by fastforce
    obtain db2 inst' where app: "applyDecision rule clock chans muted now inst db1 = (db2, inst')"
      by fastforce
    note c = createInstance_view [OF ok create]
    have new: "ai_id inst = al_fresh db" "ai_status inst \<noteq> RESOLVED" "ai_rule inst = ru_id rule"
        "ai_fingerprint inst = fp"
      using c(3) by (auto simp: newInstance_def fp_def)
    have d2: "view db2 = (view db)(al_fresh db \<mapsto> viewRow inst')" "ids_ok db2"
        "ai_rule inst' = ru_id rule" "ai_fingerprint inst' = fp" "ai_status inst' \<noteq> RESOLVED"
      using applyDecision_view [OF _ c(2) app] c(1) new by auto
    have res: "db' = db2" "A' = A"
      using step None none create app by (auto simp: observeOne_def fp_def)
    have fresh: "view db (al_fresh db) = None"
      using ids_ok_fresh [OF order_refl ok] .
    then have "coupled (view db2) A"
      using cp by (auto simp: coupled_def d2(1))
    moreover have "observed_effect rule (ai_fingerprint ` set A) (ai_fingerprint ` set S) fp (view db) (view db2)"
      using observed_effect_new [of "view db" "al_fresh db" fp "ai_fingerprint ` set A"
          "ai_fingerprint ` set S" "ai_status inst'" rule] fresh unknown none d2 by (auto simp: viewRow_def lookupFp_None)
    ultimately show ?thesis
      using d2(2) res by simp
  qed
qed

definition fpsOf :: "alert_rule \<Rightarrow> observation list \<Rightarrow> string set" where
  "fpsOf rule obs = set (map (\<lambda>ob. Fingerprint (ru_kind rule) (ob_key ob)) obs)"

lemma observe_all_effect:
  assumes "ids_ok db" "coupled (view db) A"
    and "fold (observeOne rule clock chans muted now S) obs (db, A) = (db', A')"
  defines "known \<equiv> ai_fingerprint ` set A" and "hidden \<equiv> ai_fingerprint ` set S"
  shows "ids_ok db' \<and> coupled (view db') A' \<and> map ai_id A' = map ai_id A
    \<and> map ai_fingerprint A' = map ai_fingerprint A \<and> view_le (view db) (view db')
    \<and> openFps (ru_id rule) (view db')
        = openFps (ru_id rule) (view db) \<union> (fpsOf rule obs - known - hidden)
    \<and> traced (fpsOf rule obs) (view db) (view db')"
  using assms(1-3) unfolding known_def hidden_def
proof (induction obs arbitrary: db A)
  case Nil
  then show ?case by (auto simp: fpsOf_def traced_def)
next
  case (Cons ob obs)
  obtain db1 A1 where step: "observeOne rule clock chans muted now S ob (db, A) = (db1, A1)"
    by fastforce
  let ?fp = "Fingerprint (ru_kind rule) (ob_key ob)"
  have one: "ids_ok db1" "coupled (view db1) A1" "map ai_id A1 = map ai_id A"
      "map ai_fingerprint A1 = map ai_fingerprint A"
      "observed_effect rule (ai_fingerprint ` set A) (ai_fingerprint ` set S) ?fp (view db) (view db1)"
    using observeOne_effect [OF Cons.prems(1,2) step] by auto
  have known: "ai_fingerprint ` set A1 = ai_fingerprint ` set A"
    using one(4) by (metis list.set_map)
  have rest: "fold (observeOne rule clock chans muted now S) obs (db1, A1) = (db', A')"
    using Cons.prems(3) step by simp
  note IH = Cons.IH [OF one(1,2) rest, unfolded known]
  have fps: "fpsOf rule (ob # obs) = insert ?fp (fpsOf rule obs)"
    by (simp add: fpsOf_def)
  have "view_le (view db) (view db')"
    using IH one(5) view_le_trans [of "view db" "view db1"] by (simp add: observed_effect_def)
  moreover have "openFps (ru_id rule) (view db') = openFps (ru_id rule) (view db)
      \<union> (fpsOf rule (ob # obs) - ai_fingerprint ` set A - ai_fingerprint ` set S)"
    using IH one(5) unfolding observed_effect_def fps by auto
  moreover have "traced (fpsOf rule (ob # obs)) (view db) (view db')"
    using IH one(5) traced_trans [of "{?fp}" "view db" "view db1" "fpsOf rule obs"]
    by (simp add: observed_effect_def fps)
  ultimately show ?case
    using IH one(3,4) by simp
qed

definition unique_open :: "string \<Rightarrow> alert_view \<Rightarrow> bool" where
  "unique_open rid V \<longleftrightarrow> (\<forall>k k' f s s'. V k = Some (rid, f, s) \<and> s \<noteq> RESOLVED
     \<and> V k' = Some (rid, f, s') \<and> s' \<noteq> RESOLVED \<longrightarrow> k = k')"

lemma unique_openD:
  "unique_open rid V \<Longrightarrow> V k = Some (rid, f, s) \<Longrightarrow> s \<noteq> RESOLVED \<Longrightarrow> V k' = Some (rid, f, s') \<Longrightarrow>
   s' \<noteq> RESOLVED \<Longrightarrow> k = k'"
  unfolding unique_open_def by blast

lemma unique_open_sub:
  assumes "unique_open rid V" "\<And>k r f s. V' k = Some (r, f, s) \<Longrightarrow> s \<noteq> RESOLVED \<Longrightarrow> V k = Some (r, f, s)"
  shows "unique_open rid V'"
  unfolding unique_open_def using assms(2) unique_openD [OF assms(1)] by meson

lemma view_le_open:
  assumes "view_le V V'" "k \<in> dom V" "V' k = Some (r, f, s)" "s \<noteq> RESOLVED"
  shows "\<exists>s0. V k = Some (r, f, s0) \<and> s0 \<noteq> RESOLVED"
proof -
  obtain r0 f0 s0 where v: "V k = Some (r0, f0, s0)" using assms(2) by auto
  then have "r0 = r" "f0 = f" "s0 \<le> s"
    using assms(1,3) unfolding view_le_def by fastforce+
  then show ?thesis
    using v assms(4) by (cases s0; cases s) (auto simp: less_eq_alert_status_def)
qed

lemma observed_effect_unique:
  assumes "observed_effect rule known hidden fp V V'" "unique_open (ru_id rule) V"
    and "fp \<in> openFps (ru_id rule) V \<Longrightarrow> fp \<in> known"
  shows "unique_open (ru_id rule) V'"
  unfolding unique_open_def
proof (intro allI impI, elim conjE)
  fix k k' f s s'
  assume a: "V' k = Some (ru_id rule, f, s)" "s \<noteq> RESOLVED" "V' k' = Some (ru_id rule, f, s')" "s' \<noteq> RESOLVED"
  have le: "view_le V V'" and tr: "traced {fp} V V'"
    using assms(1) by (auto simp: observed_effect_def)
  have new: "f = fp \<and> fp \<notin> known" if "j \<notin> dom V" "V' j = Some (ru_id rule, f, x)" for j x
    using that assms(1) tracedD [OF tr that(2)] unfolding observed_effect_def by (auto split: if_splits)
  have no: False if "j \<notin> dom V" "V' j = Some (ru_id rule, f, x)" "j' \<in> dom V" "V' j' = Some (ru_id rule, f, y)"
      "y \<noteq> RESOLVED" for j x j' y
    using new [OF that(1,2)] view_le_open [OF le that(3,4,5)] assms(3) by (auto simp: openFps_def)
  show "k = k'"
  proof (cases "k \<in> dom V"; cases "k' \<in> dom V")
    assume "k \<in> dom V" "k' \<in> dom V"
    then show ?thesis
      using view_le_open [OF le _ a(1,2)] view_le_open [OF le _ a(3,4)] unique_openD [OF assms(2)] by blast
  next
    assume n: "k \<notin> dom V" "k' \<notin> dom V"
    then have "fp \<notin> known \<union> hidden"
      using a(1) assms(1) unfolding observed_effect_def by (auto split: if_splits)
    then obtain j where "dom V' = insert j (dom V)"
      using assms(1) unfolding observed_effect_def by auto
    moreover have "k \<in> dom V'" "k' \<in> dom V'" using a(1,3) by auto
    ultimately show ?thesis
      using n by (metis insertE)
  qed (use no a in blast)+
qed

lemma observe_all_unique:
  assumes "ids_ok db" "coupled (view db) A" "unique_open (ru_id rule) (view db)" "distinct (map ob_key obs)"
    and "fpsOf rule obs \<inter> openFps (ru_id rule) (view db) \<subseteq> ai_fingerprint ` set A"
    and "fold (observeOne rule clock chans muted now S) obs (db, A) = (db', A')"
  shows "unique_open (ru_id rule) (view db')"
  using assms
proof (induction obs arbitrary: db A)
  case (Cons ob obs)
  obtain db1 A1 where step: "observeOne rule clock chans muted now S ob (db, A) = (db1, A1)"
    by fastforce
  let ?fp = "Fingerprint (ru_kind rule) (ob_key ob)"
  have one: "ids_ok db1" "coupled (view db1) A1" "map ai_fingerprint A1 = map ai_fingerprint A"
      "observed_effect rule (ai_fingerprint ` set A) (ai_fingerprint ` set S) ?fp (view db) (view db1)"
    using observeOne_effect [OF Cons.prems(1,2) step] by auto
  have known: "ai_fingerprint ` set A1 = ai_fingerprint ` set A"
    using one(3) by (metis list.set_map)
  have fps: "fpsOf rule (ob # obs) = insert ?fp (fpsOf rule obs)" "?fp \<notin> fpsOf rule obs"
    using Cons.prems(4) by (auto simp: fpsOf_def Fingerprint_def)
  have "unique_open (ru_id rule) (view db1)"
    using observed_effect_unique [OF one(4) Cons.prems(3)] Cons.prems(5) fps(1) by blast
  moreover have "openFps (ru_id rule) (view db1) \<subseteq> insert ?fp (openFps (ru_id rule) (view db))"
    using one(4) by (auto simp: observed_effect_def split: if_splits)
  then have "fpsOf rule obs \<inter> openFps (ru_id rule) (view db1) \<subseteq> ai_fingerprint ` set A1"
    using Cons.prems(5) fps unfolding known by blast
  ultimately show ?case
    using Cons.IH [OF one(1,2)] Cons.prems(4,6) step by simp
qed simp

lemma missingOne_view:
  assumes "view db (ai_id a) = Some (viewRow a)" "ai_status a \<noteq> RESOLVED" "ids_ok db"
  shows "view (missingOne clock chans muted now seen a db) =
      (if ai_fingerprint a \<in> seen then view db
       else (view db)(ai_id a \<mapsto> (ai_rule a, ai_fingerprint a, RESOLVED)))"
    and "ids_ok (missingOne clock chans muted now seen a db)"
proof -
  let ?f = "\<lambda>r. r\<lparr>ai_status := RESOLVED, ai_resolvedAt := Some now,
                  ai_resolvedReason := Some ''condition cleared''\<rparr>"
  let ?db = "snd (recordEvent (ai_id a) STATE_CHANGE (ai_status a) RESOLVED (Reason ''condition cleared'')
      (updateInstance (ai_id a) ?f db))"
  have u: "view ?db = (view db)(ai_id a \<mapsto> (ai_rule a, ai_fingerprint a, RESOLVED))" "ids_ok ?db"
    using assms view_updateInstance [of ?f "\<lambda>(x, y, s). (x, y, RESOLVED)" "ai_id a" db]
      ids_ok_updateInstance [of ?f "ai_id a" db]
    by (simp_all add: viewRow_def)
  have dec: "fst (decideMissing (ai_status a)) = RESOLVED"
    by (cases "ai_status a") auto
  have run: "missingOne clock chans muted now seen a db =
      (if ai_fingerprint a \<in> seen then db
       else if snd (decideMissing (ai_status a)) \<and> \<not> muted
            then enqueueNotification clock a chans ''recovery'' ?db else ?db)"
    using assms(2) dec by (auto simp: missingOne_def case_prod_beta Let_def)
  show "view (missingOne clock chans muted now seen a db) =
      (if ai_fingerprint a \<in> seen then view db
       else (view db)(ai_id a \<mapsto> (ai_rule a, ai_fingerprint a, RESOLVED)))"
    "ids_ok (missingOne clock chans muted now seen a db)"
    using u assms(3) unfolding run by auto
qed

lemma missing_all_view:
  assumes "coupled (view db) A" "ids_ok db"
  shows "view (fold (missingOne clock chans muted now seen) A db) =
      (\<lambda>k. if \<exists>a \<in> set A. ai_id a = k \<and> ai_fingerprint a \<notin> seen
           then map_option (\<lambda>(r, f, s). (r, f, RESOLVED)) (view db k) else view db k)
    \<and> ids_ok (fold (missingOne clock chans muted now seen) A db)"
  using assms
proof (induction A arbitrary: db)
  case (Cons a A)
  let ?db = "missingOne clock chans muted now seen a db"
  have a: "view db (ai_id a) = Some (viewRow a)" "ai_status a \<noteq> RESOLVED"
      "\<forall>b \<in> set A. ai_id b \<noteq> ai_id a"
    using Cons.prems(1) unfolding coupled_def by (simp_all, metis imageI)
  note v = missingOne_view [OF a(1,2) Cons.prems(2), of clock chans muted now seen]
  have "coupled (view ?db) A"
    using Cons.prems(1) a(3) v(1) by (auto simp: coupled_def)
  from Cons.IH [OF this v(2)] show ?case
    using v(1) a by (auto simp: fun_eq_iff viewRow_def)
qed simp

lemma rearm_all_view:
  "view (fold (rearmOne seen) S db) = view db" "ids_ok db \<Longrightarrow> ids_ok (fold (rearmOne seen) S db)"
proof -
  have "view (rearmOne seen a db) = view db \<and> (ids_ok db \<longrightarrow> ids_ok (rearmOne seen a db))" for a db
    using updateInstance_same [of "\<lambda>r. r\<lparr>ai_suppressed := False\<rparr>" "ai_id a" db]
    by (simp add: rearmOne_def Let_def viewRow_def)
  then show "view (fold (rearmOne seen) S db) = view db" "ids_ok db \<Longrightarrow> ids_ok (fold (rearmOne seen) S db)"
    by (induction S arbitrary: db) auto
qed

lemma view_row: "ids_ok db \<Longrightarrow> r \<in> set (al_instances db) \<Longrightarrow> view db (ai_id r) = Some (viewRow r)"
  unfolding view_def ids_ok_def by (rule map_of_is_SomeI) (auto simp: comp_def)

lemma row_of_view: "view db k = Some v \<Longrightarrow> \<exists>r \<in> set (al_instances db). ai_id r = k \<and> viewRow r = v"
  unfolding view_def by (auto dest!: map_of_SomeD)

lemma active_coupled: "ids_ok db \<Longrightarrow> coupled (view db) (activeOf rule db)"
  using view_row by (auto simp: coupled_def activeOf_def ids_ok_def distinct_map inj_on_def)

lemma activeOf_fps: "ids_ok db \<Longrightarrow> ai_fingerprint ` set (activeOf rule db) = openFps (ru_id rule) (view db)"
proof (intro equalityI subsetI)
  fix f assume ok: "ids_ok db" and "f \<in> ai_fingerprint ` set (activeOf rule db)"
  then obtain r where "r \<in> set (al_instances db)" "ai_rule r = ru_id rule" "ai_status r \<noteq> RESOLVED"
      "ai_fingerprint r = f"
    by (auto simp: activeOf_def)
  then show "f \<in> openFps (ru_id rule) (view db)"
    using view_row [OF ok, of r] by (auto simp: openFps_def viewRow_def)
next
  fix f assume "f \<in> openFps (ru_id rule) (view db)"
  then obtain k s where "view db k = Some (ru_id rule, f, s)" "s \<noteq> RESOLVED"
    by (auto simp: openFps_def)
  then obtain r where "r \<in> set (al_instances db)" "viewRow r = (ru_id rule, f, s)"
    using row_of_view by blast
  then show "f \<in> ai_fingerprint ` set (activeOf rule db)"
    using \<open>s \<noteq> RESOLVED\<close> by (force simp: activeOf_def viewRow_def)
qed

definition suppressedFps :: "alert_rule \<Rightarrow> alert_db \<Rightarrow> string set" where
  "suppressedFps rule db = ai_fingerprint ` set (suppressedOf rule db)"

lemma evaluateRule_effect:
  assumes ok: "ids_ok db"
    and run: "evaluateRule rule clock chans muted False (Ok obs) db = Ok db'"
  shows "ids_ok db'" "view_le (view db) (view db')"
    "openFps (ru_id rule) (view db')
       = {f \<in> fpsOf rule obs. f \<in> openFps (ru_id rule) (view db) \<or> f \<notin> suppressedFps rule db}"
    "unique_open (ru_id rule) (view db) \<Longrightarrow> distinct (map ob_key obs) \<Longrightarrow> unique_open (ru_id rule) (view db')"
proof -
  let ?now = "clock (al_ticks db)" and ?db0 = "db\<lparr>al_ticks := Suc (al_ticks db)\<rparr>"
  let ?seen = "fpsOf rule obs" and ?A = "activeOf rule db" and ?S = "suppressedOf rule db"
  obtain db1 A1 where obs: "fold (observeOne rule clock chans muted ?now ?S) obs (?db0, ?A) = (db1, A1)"
    by fastforce
  let ?db2 = "fold (missingOne clock chans muted ?now ?seen) A1 db1"
  have lists: "activeOf rule ?db0 = ?A" "suppressedOf rule ?db0 = ?S"
    by (simp_all add: activeOf_def suppressedOf_def)
  have db': "db' = fold (rearmOne ?seen) ?S ?db2"
    using run obs lists by (simp add: evaluateRule_def Let_def fpsOf_def split: if_splits)
  have cp: "coupled (view ?db0) ?A"
    using active_coupled [OF ok] by simp
  have o: "ids_ok db1" "coupled (view db1) A1" "map ai_id A1 = map ai_id ?A"
      "view_le (view db) (view db1)" "traced ?seen (view db) (view db1)"
      "openFps (ru_id rule) (view db1) = openFps (ru_id rule) (view db) \<union> (?seen - suppressedFps rule db)"
    using observe_all_effect [OF _ cp obs] ok activeOf_fps [OF ok, of rule]
    by (auto simp: suppressedFps_def)
  note m = missing_all_view [OF o(2,1), of clock chans muted ?now ?seen]
  have v: "view db' = view ?db2" and ok': "ids_ok db'"
    using rearm_all_view [where seen = ?seen and S = ?S and db = ?db2] m by (simp_all add: db')
  show "ids_ok db'" by (rule ok')
  have "view_le (view db1) (view ?db2)"
    using m by (auto simp: view_le_def)
  then show "view_le (view db) (view db')"
    using view_le_trans [OF o(4)] by (simp add: v)
  have fp: "ai_fingerprint a = f" if "a \<in> set A1" "view db1 (ai_id a) = Some (r, f, s)" for a r f s
    using o(2) that by (auto simp: coupled_def viewRow_def)
  have "openFps (ru_id rule) (view db') = openFps (ru_id rule) (view db1) \<inter> ?seen"
  proof (intro equalityI subsetI)
    fix f assume "f \<in> openFps (ru_id rule) (view db')"
    then obtain k s where k: "view ?db2 k = Some (ru_id rule, f, s)" "s \<noteq> RESOLVED"
      by (auto simp: openFps_def v)
    then have k1: "view db1 k = Some (ru_id rule, f, s)" "\<nexists>a. a \<in> set A1 \<and> ai_id a = k \<and> ai_fingerprint a \<notin> ?seen"
      using m by (auto split: if_splits)
    have "f \<in> ?seen"
    proof (rule ccontr)
      assume f: "f \<notin> ?seen"
      then obtain s0 where "view db k = Some (ru_id rule, f, s0)" "s0 \<noteq> RESOLVED"
        using tracedD [OF o(5) k1(1)] k(2) by blast
      then have "k \<in> ai_id ` set ?A"
        using row_of_view [of db k] by (fastforce simp: activeOf_def viewRow_def)
      then obtain a where "a \<in> set A1" "ai_id a = k"
        using o(3) by (metis imageE list.set_map)
      then show False
        using k1 fp [of a "ru_id rule" f s] f by blast
    qed
    then show "f \<in> openFps (ru_id rule) (view db1) \<inter> ?seen"
      using k1(1) k(2) by (auto simp: openFps_def)
  next
    fix f assume f: "f \<in> openFps (ru_id rule) (view db1) \<inter> ?seen"
    then obtain k s where k: "view db1 k = Some (ru_id rule, f, s)" "s \<noteq> RESOLVED"
      by (auto simp: openFps_def)
    then have "\<nexists>a. a \<in> set A1 \<and> ai_id a = k \<and> ai_fingerprint a \<notin> ?seen"
      using fp f by blast
    then have "view ?db2 k = Some (ru_id rule, f, s)"
      using m k(1) by auto
    then show "f \<in> openFps (ru_id rule) (view db')"
      using k(2) by (auto simp: openFps_def v)
  qed
  then show "openFps (ru_id rule) (view db')
       = {f \<in> ?seen. f \<in> openFps (ru_id rule) (view db) \<or> f \<notin> suppressedFps rule db}"
    using o(6) by auto
  assume "unique_open (ru_id rule) (view db)" "distinct (map ob_key obs)"
  then have "unique_open (ru_id rule) (view db1)"
    using observe_all_unique [OF _ cp _ _ _ obs] ok activeOf_fps [OF ok, of rule] by simp
  then show "unique_open (ru_id rule) (view db')"
    unfolding v by (rule unique_open_sub) (use m in \<open>auto split: if_splits\<close>)
qed

subsection \<open>Manual operations and runs\<close>

lemma mutateInstance_view:
  assumes run: "mutateInstance c i mutate t pl db = Ok db'" and ok: "ids_ok db"
    and sets: "\<And>inst f n. mutate inst = Ok (f, n) \<Longrightarrow>
        (\<forall>r. ai_id (f r) = ai_id r \<and> viewRow (f r) = (ai_rule r, ai_fingerprint r, n))"
  shows "\<exists>inst f n. inst \<in> set (al_instances db) \<and> ai_id inst = i \<and> mutate inst = Ok (f, n)
    \<and> view db' = (view db)(i \<mapsto> (ai_rule inst, ai_fingerprint inst, n)) \<and> ids_ok db'
    \<and> al_instances db' = al_instances (updateInstance i f db)"
proof -
  obtain inst where inst: "filter (\<lambda>r. ai_id r = i \<and> ai_cluster r = c) (al_instances db) = [inst]"
    using run by (auto simp: mutateInstance_def split: list.splits)
  then have mem: "inst \<in> set (al_instances db)" "ai_id inst = i"
    by (auto dest!: arg_cong [of _ _ set])
  obtain f n where f: "mutate inst = Ok (f, n)"
      and db': "db' = snd (recordEvent i t (ai_status inst) n pl (updateInstance i f db))"
    using run inst mem(2) by (auto simp: mutateInstance_def split: sum.splits)
  have "view (updateInstance i f db) = (view db)(i := map_option (\<lambda>(a, b, s). (a, b, n)) (view db i))"
    using sets [OF f] by (intro view_updateInstance) (auto simp: viewRow_def)
  moreover have "view db i = Some (viewRow inst)"
    using view_row [OF ok mem(1)] mem(2) by simp
  moreover have "ids_ok (updateInstance i f db)"
    using ids_ok_updateInstance [of f i db] sets [OF f] ok by simp
  ultimately show ?thesis
    using mem f db' by (intro exI [of _ inst] exI [of _ f] exI [of _ n])
      (simp add: viewRow_def, simp add: recordEvent_def)
qed

lemma ackMutate_Ok:
  "ackMutate now u inst = Ok (f, n) \<Longrightarrow> CanAcknowledge (ai_status inst) \<and> n = ACKNOWLEDGED
    \<and> (\<forall>r. ai_id (f r) = ai_id r \<and> viewRow (f r) = (ai_rule r, ai_fingerprint r, n))"
  by (auto simp: ackMutate_def viewRow_def split: if_splits)

lemma resolveMutate_Ok:
  "resolveMutate now u inst = Ok (f, n) \<Longrightarrow> CanResolve (ai_status inst) \<and> n = RESOLVED
    \<and> (\<forall>r. ai_id (f r) = ai_id r \<and> viewRow (f r) = (ai_rule r, ai_fingerprint r, n) \<and> ai_suppressed (f r))"
  by (auto simp: resolveMutate_def viewRow_def Let_def split: if_splits)

lemma Acknowledge_view:
  assumes "Acknowledge now c i u db = Ok db'" "ids_ok db"
  shows "\<exists>r f s. view db i = Some (r, f, s) \<and> CanAcknowledge s
    \<and> view db' = (view db)(i \<mapsto> (r, f, ACKNOWLEDGED)) \<and> ids_ok db'"
proof -
  obtain inst f n where "inst \<in> set (al_instances db)" "ai_id inst = i" "ackMutate now u inst = Ok (f, n)"
      "view db' = (view db)(i \<mapsto> (ai_rule inst, ai_fingerprint inst, n))" "ids_ok db'"
    using mutateInstance_view [OF assms(1) [unfolded Acknowledge_def] assms(2)] ackMutate_Ok by blast
  then show ?thesis
    using view_row [OF assms(2), of inst] ackMutate_Ok [of now u inst f n] by (auto simp: viewRow_def)
qed

lemma Resolve_view:
  assumes "Resolve now c i reason db = Ok db'" "ids_ok db"
  shows "\<exists>r f s. view db i = Some (r, f, s) \<and> CanResolve s
    \<and> view db' = (view db)(i \<mapsto> (r, f, RESOLVED)) \<and> ids_ok db'
    \<and> (\<exists>row \<in> set (al_instances db'). viewRow row = (r, f, RESOLVED) \<and> ai_suppressed row)"
proof -
  obtain inst f n where inst: "inst \<in> set (al_instances db)" "ai_id inst = i"
      "resolveMutate now reason inst = Ok (f, n)"
      "view db' = (view db)(i \<mapsto> (ai_rule inst, ai_fingerprint inst, n))" "ids_ok db'"
      "al_instances db' = al_instances (updateInstance i f db)"
    using mutateInstance_view [OF assms(1) [unfolded Resolve_def] assms(2)] resolveMutate_Ok by blast
  note m = resolveMutate_Ok [OF inst(3)]
  have "f inst \<in> set (al_instances db')"
    using inst(1,2,6) by (force simp: updateInstance_def)
  then have "\<exists>row \<in> set (al_instances db'). viewRow row = (ai_rule inst, ai_fingerprint inst, RESOLVED)
      \<and> ai_suppressed row"
    using m by (intro bexI [of _ "f inst"]) simp_all
  then show ?thesis
    using inst view_row [OF assms(2) inst(1)] m by (auto simp: viewRow_def)
qed

text \<open>
  Everything that happens to the tables: evaluations, manual operations and the
  bookkeeping of deliveries, each in its transaction.
\<close>

inductive alert_step :: "alert_db \<Rightarrow> alert_db \<Rightarrow> bool" where
  evaluate: "alert_step db (snd (alertTx fault (evaluateRule rule clock chans muted off observed) db))"
| acknowledge: "alert_step db (snd (alertTx fault (Acknowledge now c i u) db))"
| resolve: "alert_step db (snd (alertTx fault (Resolve now c i reason) db))"
| claim: "alert_step db (snd (claimDeliveries now db))"
| finish: "alert_step db (finishDelivery now d attempts sent cause permanent db)"

inductive_cases alert_stepE: "alert_step db db'"

lemma alertTx_cases: "snd (alertTx fault f db) = db \<or> f db = Ok (snd (alertTx fault f db))"
  by (auto simp: alertTx_def split: sum.splits option.splits)

lemma evaluateRule_skip:
  "evaluateRule rule clock chans muted off observed db = Ok db' \<Longrightarrow>
   db' = db \<or> (\<exists>obs. observed = Ok obs \<and> evaluateRule rule clock chans muted False (Ok obs) db = Ok db')"
  by (auto simp: evaluateRule_def split: if_splits sum.splits)

lemma view_le_update: "V k = Some (r, f, s) \<Longrightarrow> s \<le> s' \<Longrightarrow> view_le V (V(k \<mapsto> (r, f, s')))"
  by (simp add: view_le_def)

lemma alert_step_le:
  assumes "alert_step db db'" "ids_ok db"
  shows "view_le (view db) (view db') \<and> ids_ok db'"
  using assms
proof (induction rule: alert_step.induct)
  case (evaluate db fault rule clock chans muted off observed)
  then show ?case
    using alertTx_cases [of fault "evaluateRule rule clock chans muted off observed" db]
      evaluateRule_skip [of rule clock chans muted off observed db] evaluateRule_effect(1,2)
    by (metis view_le_refl)
next
  case (acknowledge db fault now c i u)
  let ?db = "snd (alertTx fault (Acknowledge now c i u) db)"
  consider "?db = db" | "Acknowledge now c i u db = Ok ?db"
    using alertTx_cases by blast
  then show ?case
  proof cases
    case 2
    then show ?thesis
      using Acknowledge_view [OF 2 acknowledge] by (auto simp: CanAcknowledge_def less_eq_alert_status_def
          simp del: fun_upd_apply intro!: view_le_update)
  qed (use acknowledge in simp)
next
  case (resolve db fault now c i reason)
  let ?db = "snd (alertTx fault (Resolve now c i reason) db)"
  consider "?db = db" | "Resolve now c i reason db = Ok ?db"
    using alertTx_cases by blast
  then show ?case
  proof cases
    case 2
    then show ?thesis
      using Resolve_view [OF 2 resolve] by (auto simp del: fun_upd_apply intro!: view_le_update)
  qed (use resolve in simp)
qed (simp_all add: claimDeliveries_def finishDelivery_def Let_def view_def ids_ok_def)

lemma alert_run_le:
  assumes "alert_step\<^sup>*\<^sup>* db db'" "ids_ok db"
  shows "view_le (view db) (view db') \<and> ids_ok db'"
  using assms by (induction rule: rtranclp_induct) (auto intro: view_le_trans dest: alert_step_le)

lemma evaluateRule_Ok:
  "ValidateRuleTimers (ru_forSeconds rule) (ru_cooldownSeconds rule) \<Longrightarrow>
   \<exists>db'. evaluateRule rule clock chans muted False (Ok obs) db = Ok db'"
  by (simp add: evaluateRule_def Let_def case_prod_beta)

lemma claimed_ids:
  "map fst (fst (claimDeliveries n db)) = map dl_id (take deliveryBatchSize (filter (claimable n) (al_deliveries db)))"
  by (simp add: claimDeliveries_def Let_def comp_def)

lemma claimed_row:
  "k \<in> set (map fst (fst (claimDeliveries n db))) \<Longrightarrow>
   \<exists>x \<in> set (al_deliveries db). dl_id x = k \<and> claimable n x"
  unfolding claimed_ids by (auto dest!: in_set_takeD)

lemma claimed_hidden:
  assumes "x \<in> set (al_deliveries (snd (claimDeliveries n db)))"
    "dl_id x \<in> set (map fst (fst (claimDeliveries n db)))"
  shows "dl_nextRetry x = Some (n + 3 * minute)"
  using assms unfolding claimed_ids by (auto simp: claimDeliveries_def Let_def split: if_splits)

lemma failed_row:
  assumes "deliveryMaxAttempts \<le> attempts"
    and "x \<in> set (al_deliveries (finishDelivery now d attempts False cause permanent db))" "dl_id x = d"
  shows "\<not> claimable t x"
proof -
  let ?f = "\<lambda>y. y\<lparr>dl_status := D_FAILED, dl_nextRetry := None,
      dl_lastError := Some (case cause of None \<Rightarrow> [] | Some m \<Rightarrow> m), dl_attempts := attempts\<rparr>"
  have "al_deliveries (finishDelivery now d attempts False cause permanent db)
      = map (\<lambda>y. if dl_id y = d then ?f y else y) (al_deliveries db)"
    using assms(1) by (simp add: finishDelivery_def Let_def)
  then have "x \<in> (\<lambda>y. if dl_id y = d then ?f y else y) ` set (al_deliveries db)"
    using assms(2) by (simp only: list.set_map)
  then obtain y where y: "x = (if dl_id y = d then ?f y else y)"
    by (rule imageE)
  show ?thesis
  proof (cases "dl_id y = d")
    case True
    then show ?thesis using y by (simp add: claimable_def)
  next
    case False
    then show ?thesis using y assms(3) by simp
  qed
qed

subsection \<open>Sample tables\<close>

definition sampleRule :: alert_rule where
  "sampleRule = \<lparr>ru_id = ''r'', ru_cluster = ''c'', ru_kind = ''node_offline'', ru_severity = ''CRITICAL'',
                 ru_forSeconds = 0, ru_cooldownSeconds = 60, ru_channels = []\<rparr>"

definition sampleObservation :: observation where
  "sampleObservation = \<lparr>ob_key = ''n1'', ob_title = ''t'', ob_detail = ''d''\<rparr>"

definition sampleAlerts :: alert_db where
  "sampleAlerts = \<lparr>al_instances = [(newInstance sampleRule 0 sampleObservation 0)\<lparr>ai_status := FIRING\<rparr>],
                   al_events = [], al_deliveries = [], al_fresh = 1, al_ticks = 0\<rparr>"

lemma sampleAlerts_facts:
  "ids_ok sampleAlerts"
  "view sampleAlerts = [0 \<mapsto> (''r'', ''node_offline/n1'', FIRING)]"
  "ValidateRuleTimers (ru_forSeconds sampleRule) (ru_cooldownSeconds sampleRule)"
  "ru_id sampleRule = ''r''" "fpsOf sampleRule [sampleObservation] = {''node_offline/n1''}"
  "unique_open (ru_id sampleRule) (view sampleAlerts)"
  by (simp_all add: unique_open_def sampleAlerts_def sampleRule_def sampleObservation_def ids_ok_def newInstance_def
      view_def viewRow_def ValidateRuleTimers_def Fingerprint_def fpsOf_def)

lemma sampleAlerts_open: "openFps ''r'' (view sampleAlerts) = {''node_offline/n1''}"
  unfolding openFps_def sampleAlerts_facts(2) by (auto split: if_splits)

definition sampleInstance :: alert_instance where
  "sampleInstance = (newInstance sampleRule 0 sampleObservation 0)\<lparr>ai_status := FIRING\<rparr>"

lemma sampleInstance_facts:
  "sampleInstance \<in> set (al_instances sampleAlerts)" "ai_id sampleInstance = 0"
  "ai_cluster sampleInstance = ''c''" "ai_status sampleInstance = FIRING"
  "ai_rule sampleInstance = ''r''" "ai_fingerprint sampleInstance = ''node_offline/n1''"
  by (simp_all add: sampleInstance_def sampleAlerts_def newInstance_def sampleRule_def sampleObservation_def
      Fingerprint_def)

subsection \<open>Properties\<close>

text \<open>
  Property C13: whatever sequence of evaluations, acknowledgements, manual
  resolutions and delivery updates happens, committed or failed, an alert keeps its
  row, rule and fingerprint, and its status only moves forward in the order
  pending, firing, acknowledged, resolved. So an acknowledged alert never fires
  again and a resolved one stays resolved.
\<close>

theorem alert_status_forward:
  assumes "alert_step\<^sup>*\<^sup>* db db'" "ids_ok db" "r \<in> set (al_instances db)"
  shows "\<exists>r' \<in> set (al_instances db'). ai_id r' = ai_id r \<and> ai_rule r' = ai_rule r
    \<and> ai_fingerprint r' = ai_fingerprint r \<and> ai_status r \<le> ai_status r'"
proof -
  have "view_le (view db) (view db')"
    using alert_run_le [OF assms(1,2)] by simp
  then obtain s' where "view db' (ai_id r) = Some (ai_rule r, ai_fingerprint r, s')" "ai_status r \<le> s'"
    using view_row [OF assms(2,3)] unfolding view_le_def viewRow_def by blast
  then show ?thesis
    using row_of_view [of db' "ai_id r"] by (auto simp: viewRow_def)
qed

theorem alert_status_forward_witness:
  "\<exists>r' \<in> set (al_instances (snd (alertTx None (Acknowledge 5 ''c'' 0 ''u'') sampleAlerts))).
     ai_id r' = 0 \<and> FIRING \<le> ai_status r'"
  using alert_status_forward [OF r_into_rtranclp [of alert_step, OF acknowledge] sampleAlerts_facts(1),
      of sampleInstance None 5 "''c''" 0 "''u''"]
  by (auto simp: sampleInstance_facts)

text \<open>
  Property C5: when the observations of a rule have distinct keys, its evaluation
  leaves an unresolved alert for exactly the observed fingerprints, except those
  that had none and that an operator resolved by hand while the condition still
  held, and it leaves one for each. Every alert whose condition cleared is resolved,
  and every new condition has an alert.
\<close>

theorem evaluateRule_opens_observed:
  assumes "ids_ok db" "ValidateRuleTimers (ru_forSeconds rule) (ru_cooldownSeconds rule)"
    and "unique_open (ru_id rule) (view db)" "distinct (map ob_key obs)"
  shows "\<exists>db'. evaluateRule rule clock chans muted False (Ok obs) db = Ok db' \<and> ids_ok db'
    \<and> openFps (ru_id rule) (view db')
      = {f \<in> fpsOf rule obs. f \<in> openFps (ru_id rule) (view db) \<or> f \<notin> suppressedFps rule db}
    \<and> unique_open (ru_id rule) (view db')"
proof -
  obtain db' where run: "evaluateRule rule clock chans muted False (Ok obs) db = Ok db'"
    using evaluateRule_Ok [OF assms(2)] by blast
  show ?thesis
    using run evaluateRule_effect(1,3) [OF assms(1) run] evaluateRule_effect(4) [OF assms(1) run assms(3,4)]
    by blast
qed

theorem evaluateRule_opens_observed_witness:
  "\<exists>db'. evaluateRule sampleRule int [''mail''] False False (Ok [sampleObservation]) sampleAlerts = Ok db'
    \<and> openFps ''r'' (view db') = {''node_offline/n1''}"
proof -
  have "distinct (map ob_key [sampleObservation])" by simp
  then obtain db' where "evaluateRule sampleRule int [''mail''] False False (Ok [sampleObservation]) sampleAlerts = Ok db'"
      "openFps ''r'' (view db') = {f \<in> {''node_offline/n1''}. f \<in> {''node_offline/n1''}
         \<or> f \<notin> suppressedFps sampleRule sampleAlerts}"
    using evaluateRule_opens_observed [OF sampleAlerts_facts(1,3,6), of "[sampleObservation]" int "[''mail'']" False]
    unfolding sampleAlerts_facts(4,5) sampleAlerts_open by blast
  then show ?thesis by auto
qed







end
