(* ===== verification/Dns_Scheduler.thy ===== *)
theory Dns_Scheduler
  imports Complex_Main Prelude "HOL-Library.Char_ord" "HOL-Library.List_Lexorder" "HOL-Library.Multiset"
begin

section \<open>Which nodes a cluster publishes in DNS\<close>

text \<open>
  \<open>internal/dnssync/scheduler.go\<close> and the removal pacing of \<open>service.go\<close>
  (\<open>paceRemovals\<close>, \<open>droppedFromSelection\<close>, \<open>droppedNodes\<close>). Go's \<open>int\<close> and
  \<open>time.Duration\<close> values are integers; the ratio is a real number and its product
  with the node count goes through \<open>float64\<close>, the rounding of IEEE double precision
  to nearest, ties to even, in the normal range. The two database reads of the
  pacing are arguments. \<open>published\<close>, a Go map used as a set, is the list of its keys.
\<close>

record node =
  nd_id :: string
  nd_priority :: int
  nd_onlineSince :: "int option"
  nd_updatedAt :: int

record NodeCandidate =
  nc_node :: node
  nc_addresses :: "string list"
  nc_lines :: "string option list"

record SchedulerPolicy =
  sp_placement :: string
  sp_minPublished :: int
  sp_minHealthyTime :: "int option"
  sp_maxRemovalRatio :: real

subsection \<open>Double precision\<close>

definition round_even :: "real \<Rightarrow> int" where
  "round_even y =
     (let f = \<lfloor>y\<rfloor>; d = y - of_int f
      in if d < 1 / 2 then f else if d > 1 / 2 then f + 1 else if even f then f else f + 1)"

definition float64 :: "real \<Rightarrow> real" where
  "float64 x =
     (if x \<le> 0 then 0
      else let u = 2 powr (of_int (\<lfloor>log 2 x\<rfloor> - 52)) in of_int (round_even (x / u)) * u)"

lemma round_even_le: "y \<le> of_int k \<Longrightarrow> round_even y \<le> k"
proof -
  assume le: "y \<le> of_int k"
  consider "\<lfloor>y\<rfloor> < k" | "\<lfloor>y\<rfloor> = k" "y = of_int k"
    using le by (metis floor_le_iff floor_mono floor_of_int le_less of_int_floor_le order.antisym)
  then show ?thesis
    by cases (auto simp: round_even_def Let_def)
qed

lemma round_even_nonneg: "0 \<le> y \<Longrightarrow> 0 \<le> round_even y"
  by (auto simp: round_even_def Let_def)

lemma float64_nonneg: "0 \<le> float64 x"
  by (auto simp: float64_def Let_def round_even_nonneg)

lemma float64_le:
  assumes "x \<le> of_nat n" "n < 2 ^ 53"
  shows "float64 x \<le> of_nat n"
proof (cases "x \<le> 0")
  case True
  then show ?thesis by (simp add: float64_def)
next
  case False
  define e where "e = \<lfloor>log 2 x\<rfloor> - 52"
  have "x < 2 ^ 53"
    using assms by (metis le_less_trans of_nat_less_iff of_nat_numeral of_nat_power)
  then have "log 2 x < 53"
    using False by (simp add: log_less_iff powr_numeral)
  then have e: "e \<le> 0"
    by (simp add: e_def floor_less_iff)
  define k where "k = int n * 2 ^ nat (- e)"
  have k: "of_int k = of_nat n / (2 powr of_int e :: real)"
    using e by (simp add: k_def powr_minus divide_inverse flip: powr_realpow powr_minus)
  have "x / 2 powr of_int e \<le> of_int k"
    unfolding k using assms(1) by (simp add: divide_right_mono)
  then have "of_int (round_even (x / 2 powr of_int e)) \<le> (of_int k :: real)"
    using round_even_le by (simp add: of_int_le_iff)
  then have "of_int (round_even (x / 2 powr of_int e)) * 2 powr of_int e \<le> (of_int k * 2 powr of_int e :: real)"
    by (intro mult_right_mono) simp_all
  also have "\<dots> = of_nat n"
    unfolding k by simp
  finally show ?thesis
    using False by (simp add: float64_def e_def Let_def)
qed

subsection \<open>Selection\<close>

definition DefaultSchedulerPolicy :: SchedulerPolicy where
  "DefaultSchedulerPolicy = \<lparr>sp_placement = ''ALL'', sp_minPublished = 2,
     sp_minHealthyTime = Some (2 * 60 * 10 ^ 9), sp_maxRemovalRatio = float64 (34 / 100)\<rparr>"

definition WithDefaults :: "SchedulerPolicy \<Rightarrow> SchedulerPolicy" where
  "WithDefaults p =
     (let defaults = DefaultSchedulerPolicy;
          p = (if sp_placement p = [] then p\<lparr>sp_placement := sp_placement defaults\<rparr> else p);
          p = (if sp_minPublished p \<le> 0 then p\<lparr>sp_minPublished := sp_minPublished defaults\<rparr> else p);
          p = (if sp_minHealthyTime p = None
               then p\<lparr>sp_minHealthyTime := sp_minHealthyTime defaults\<rparr> else p)
      in if sp_maxRemovalRatio p \<le> 0 \<or> sp_maxRemovalRatio p > 1
         then p\<lparr>sp_maxRemovalRatio := sp_maxRemovalRatio defaults\<rparr> else p)"

definition healthyLongEnough :: "node \<Rightarrow> int option \<Rightarrow> int \<Rightarrow> bool" where
  "healthyLongEnough n minHealthy now =
     (case minHealthy of
        None \<Rightarrow> True
      | Some h \<Rightarrow>
          if h \<le> 0 then True
          else (case nd_onlineSince n of None \<Rightarrow> True | Some t \<Rightarrow> \<not> now < t + h))"

text \<open>The inner loop of \<open>selectByPlacement\<close>: \<open>best\<close> starts at the sentinel -1.\<close>

definition bestStep :: "int set \<Rightarrow> NodeCandidate \<Rightarrow> int \<Rightarrow> int" where
  "bestStep used c best =
     (let tier = nd_priority (nc_node c)
      in if tier \<notin> used \<and> (best = -1 \<or> tier < best) then tier else best)"

definition bestTier :: "int set \<Rightarrow> NodeCandidate list \<Rightarrow> int" where
  "bestTier used admitted = fold (bestStep used) admitted (-1)"

definition tierOf :: "int \<Rightarrow> NodeCandidate list \<Rightarrow> NodeCandidate list" where
  "tierOf t admitted = filter (\<lambda>c. nd_priority (nc_node c) = t) admitted"

abbreviation tiers :: "NodeCandidate list \<Rightarrow> int set" where
  "tiers admitted \<equiv> (\<lambda>c. nd_priority (nc_node c)) ` set admitted"

lemma bestTier_cases_aux:
  "fold (bestStep used) admitted b = b \<or> fold (bestStep used) admitted b \<in> tiers admitted - used"
proof (induction admitted arbitrary: b)
  case (Cons c cs)
  show ?case
    using Cons [of "bestStep used c b"] by (auto simp: bestStep_def Let_def split: if_splits)
qed simp

lemma bestTier_cases: "bestTier used admitted = -1 \<or> bestTier used admitted \<in> tiers admitted - used"
  unfolding bestTier_def by (rule bestTier_cases_aux)

function tierLoop :: "NodeCandidate list \<Rightarrow> int \<Rightarrow> int set \<Rightarrow> NodeCandidate list \<Rightarrow> int \<Rightarrow> NodeCandidate list" where
  "tierLoop admitted minPublished used selected covered =
     (let best = bestTier used admitted
      in if best = -1 then selected
         else let used' = insert best used;
                  selected' = selected @ tierOf best admitted;
                  covered' = covered + int (length (tierOf best admitted))
              in if covered' \<ge> minPublished then selected'
                 else tierLoop admitted minPublished used' selected' covered')"
  by pat_completeness auto
termination
proof (relation "measure (\<lambda>(admitted, m, used, s, c). card (tiers admitted - used))", simp)
  fix admitted m used s c b u s' c'
  assume "b = bestTier used admitted" "b \<noteq> -1" "u = insert b used"
  then have "b \<in> tiers admitted - used"
    using bestTier_cases by auto
  then have "tiers admitted - u \<subset> tiers admitted - used"
    using \<open>u = insert b used\<close> by blast
  then show "((admitted, m, u, s', c'), admitted, m, used, s, c)
      \<in> measure (\<lambda>(admitted, m, used, s, c). card (tiers admitted - used))"
    by (simp add: psubset_card_mono)
qed

declare tierLoop.simps [simp del]

definition selectByPlacement :: "NodeCandidate list \<Rightarrow> SchedulerPolicy \<Rightarrow> NodeCandidate list" where
  "selectByPlacement admitted policy =
     (if sp_placement policy \<noteq> ''PRIMARY_BACKUP'' then admitted
      else tierLoop admitted (sp_minPublished policy) {} [] 0)"

definition Select :: "NodeCandidate list \<Rightarrow> string list \<Rightarrow> SchedulerPolicy \<Rightarrow> int \<Rightarrow> NodeCandidate list" where
  "Select candidates published policy now =
     (let policy = WithDefaults policy;
          admitted = filter (\<lambda>c. nd_id (nc_node c) \<in> set published
                               \<or> healthyLongEnough (nc_node c) (sp_minHealthyTime policy) now) candidates
      in selectByPlacement admitted policy)"

subsection \<open>Removal pacing\<close>

definition allowedRemovals :: "nat \<Rightarrow> real \<Rightarrow> int" where
  "allowedRemovals published ratio =
     (let allowed = \<lfloor>float64 (ratio * of_nat published)\<rfloor> in if allowed < 1 then 1 else allowed)"

definition deferredRemovals :: "node list \<Rightarrow> int \<Rightarrow> node list" where
  "deferredRemovals dropped keep =
     (if keep \<le> 0 then []
      else if keep \<ge> int (length dropped) then dropped
      else take (nat keep) (sort_key (\<lambda>n. - nd_updatedAt n) dropped))"

definition droppedFromSelection :: "string list \<Rightarrow> NodeCandidate list \<Rightarrow> string list" where
  "droppedFromSelection published selected =
     sort (filter (\<lambda>i. i \<notin> (\<lambda>c. nd_id (nc_node c)) ` set selected) published)"

text \<open>A map built by assignment in list order: the last candidate with an id wins.\<close>

definition candidateByID :: "NodeCandidate list \<Rightarrow> string \<Rightarrow> NodeCandidate option" where
  "candidateByID candidates i = find (\<lambda>c. nd_id (nc_node c) = i) (rev candidates)"

definition droppedNodes :: "(string list \<Rightarrow> string + node list) \<Rightarrow> string list
    \<Rightarrow> (string \<Rightarrow> NodeCandidate option) \<Rightarrow> string + node list" where
  "droppedNodes loadNodes droppedIDs byID =
     (let dropped = map nc_node (List.map_filter byID droppedIDs);
          missing = filter (\<lambda>i. byID i = None) droppedIDs
      in if missing = [] then Ok dropped
         else (case loadNodes missing of Inl e \<Rightarrow> Err e | Inr nodes \<Rightarrow> Ok (dropped @ nodes)))"

fun deferAll :: "(node \<Rightarrow> string + NodeCandidate) \<Rightarrow> (string \<Rightarrow> NodeCandidate option) \<Rightarrow> node list
    \<Rightarrow> NodeCandidate list \<Rightarrow> string + NodeCandidate list" where
  "deferAll loadCandidate byID [] result = Ok result"
| "deferAll loadCandidate byID (n # ns) result =
     (case byID (nd_id n) of
        Some item \<Rightarrow> deferAll loadCandidate byID ns (result @ [item])
      | None \<Rightarrow> (case loadCandidate n of
                   Inl e \<Rightarrow> Err e
                 | Inr item \<Rightarrow> deferAll loadCandidate byID ns (result @ [item])))"

definition paceRemovals :: "(string list \<Rightarrow> string + node list) \<Rightarrow> (node \<Rightarrow> string + NodeCandidate)
    \<Rightarrow> NodeCandidate list \<Rightarrow> NodeCandidate list \<Rightarrow> string list \<Rightarrow> SchedulerPolicy
    \<Rightarrow> string + (NodeCandidate list \<times> bool)" where
  "paceRemovals loadNodes loadCandidate candidates selected published policy =
     (if length selected = 0 \<or> length published = 0 then Ok (selected, False)
      else
        let policy = WithDefaults policy;
            byID = candidateByID candidates;
            droppedIDs = droppedFromSelection published selected
        in if length droppedIDs = 0 then Ok (selected, False)
           else
             let allowed = allowedRemovals (length published) (sp_maxRemovalRatio policy)
             in if int (length droppedIDs) \<le> allowed then Ok (selected, False)
                else (case droppedNodes loadNodes droppedIDs byID of
                        Inl e \<Rightarrow> Err e
                      | Inr dropped \<Rightarrow>
                          let deferred = deferredRemovals dropped (int (length dropped) - allowed)
                          in if length deferred = 0 then Ok (selected, False)
                             else (case deferAll loadCandidate byID deferred selected of
                                     Inl e \<Rightarrow> Err e
                                   | Inr result \<Rightarrow> Ok (result, True))))"

subsection \<open>What placement selects\<close>

definition nonneg_tiers :: "NodeCandidate list \<Rightarrow> bool" where
  "nonneg_tiers admitted \<longleftrightarrow> list_all (\<lambda>c. 0 \<le> nd_priority (nc_node c)) admitted"

lemma fold_bestStep:
  assumes "nonneg_tiers admitted" "b = -1 \<or> 0 \<le> b"
  shows "fold (bestStep used) admitted b =
    (let T = tiers admitted - used
     in if T = {} then b else if b = -1 then Min T else min b (Min T))"
  using assms
proof (induction admitted arbitrary: b)
  case (Cons c cs)
  let ?t = "nd_priority (nc_node c)" and ?T = "tiers cs - used"
  have c: "0 \<le> ?t" "nonneg_tiers cs"
    using Cons.prems(1) by (auto simp: nonneg_tiers_def)
  then have b: "bestStep used c b = -1 \<or> 0 \<le> bestStep used c b"
    using Cons.prems(2) by (auto simp: bestStep_def Let_def)
  have ins: "tiers (c # cs) - used = (if ?t \<in> used then ?T else insert ?t ?T)"
    by auto
  define E m where "E = (?T = {})" and "m = Min ?T"
  have "Min (insert ?t ?T) = (if E then ?t else min ?t m)"
  proof (cases "?T = {}")
    case True
    show ?thesis unfolding E_def True by simp
  next
    case False
    then show ?thesis using Min_insert [of ?T ?t] by (simp add: E_def m_def)
  qed
  then have mins: "Min (tiers (c # cs) - used) = (if ?t \<in> used then m else if E then ?t else min ?t m)"
      "(tiers (c # cs) - used = {}) = (?t \<in> used \<and> E)"
    unfolding ins by (simp_all only: E_def m_def if_splits) auto
  have run: "fold (bestStep used) (c # cs) b
      = (if E then bestStep used c b else if bestStep used c b = -1 then m else min (bestStep used c b) m)"
    using Cons.IH [OF c(2) b] unfolding Let_def E_def m_def by simp
  show ?case
    unfolding run Let_def mins using c(1) Cons.prems(2) by (auto simp: bestStep_def Let_def min_def)
qed simp

lemma bestTier_Min:
  assumes "nonneg_tiers admitted"
  shows "bestTier used admitted = (if tiers admitted - used = {} then -1 else Min (tiers admitted - used))"
  using fold_bestStep [OF assms, of "-1" used] by (simp add: bestTier_def Let_def)

abbreviation byTiers :: "NodeCandidate list \<Rightarrow> int list \<Rightarrow> NodeCandidate list" where
  "byTiers admitted ts \<equiv> concat (map (\<lambda>t. tierOf t admitted) ts)"

lemma tierLoop_spec:
  assumes "nonneg_tiers admitted"
  shows "\<exists>ts. tierLoop admitted m used selected covered = selected @ byTiers admitted ts
    \<and> prefix ts (sorted_list_of_set (tiers admitted - used))
    \<and> (ts = sorted_list_of_set (tiers admitted - used) \<or> m \<le> covered + int (length (byTiers admitted ts)))
    \<and> (\<forall>n. 0 < n \<and> n < length ts \<longrightarrow> covered + int (length (byTiers admitted (take n ts))) < m)"
  using assms
proof (induction admitted m used selected covered rule: tierLoop.induct)
  case (1 admitted m used selected covered)
  let ?T = "tiers admitted - used" and ?b = "bestTier used admitted"
  show ?case
  proof (cases "?T = {}")
    case True
    then have "tierLoop admitted m used selected covered = selected"
      using bestTier_Min [OF "1.prems"] by (subst tierLoop.simps) simp
    then show ?thesis unfolding True by (intro exI [of _ "[]"]) simp
  next
    case False
    then have b: "?b = Min ?T"
      using bestTier_Min [OF "1.prems"] by simp
    then have mem: "?b \<in> ?T"
      using Min_in [of ?T] False by simp
    then have ne: "?b \<noteq> -1"
      using "1.prems" mem by (auto simp: nonneg_tiers_def list_all_iff)
    have sl: "sorted_list_of_set ?T = ?b # sorted_list_of_set (tiers admitted - insert ?b used)"
    proof -
      have "tiers admitted - insert ?b used = ?T - {Min ?T}"
        using b by auto
      then show ?thesis
        using False b sorted_list_of_set_nonempty [of ?T] by simp
    qed
    let ?c = "covered + int (length (tierOf ?b admitted))"
    show ?thesis
    proof (cases "m \<le> ?c")
      case True
      then have "tierLoop admitted m used selected covered = selected @ tierOf ?b admitted"
        using ne by (subst tierLoop.simps) (simp add: Let_def)
      then show ?thesis
        using True sl by (intro exI [of _ "[?b]"]) simp
    next
      case cont: False
      obtain ts where ts: "tierLoop admitted m (insert ?b used) (selected @ tierOf ?b admitted) ?c
          = (selected @ tierOf ?b admitted) @ byTiers admitted ts"
        "prefix ts (sorted_list_of_set (tiers admitted - insert ?b used))"
        "ts = sorted_list_of_set (tiers admitted - insert ?b used)
          \<or> m \<le> ?c + int (length (byTiers admitted ts))"
        "\<forall>n. 0 < n \<and> n < length ts \<longrightarrow> ?c + int (length (byTiers admitted (take n ts))) < m"
        using "1.IH" [OF refl ne refl refl refl cont "1.prems"] by blast
      have "tierLoop admitted m used selected covered = selected @ byTiers admitted (?b # ts)"
        using ne cont ts(1) by (subst tierLoop.simps) (simp add: Let_def)
      moreover have "covered + int (length (byTiers admitted (take n (?b # ts)))) < m"
        if "0 < n" "n < length (?b # ts)" for n
        using that ts(4) cont by (cases n; cases "n - 1") (auto simp: add.assoc)
      ultimately show ?thesis
        using ts(2,3) sl by (intro exI [of _ "?b # ts"]) (auto simp: add.assoc)
    qed
  qed
qed

lemma WithDefaults_minPublished: "0 < sp_minPublished (WithDefaults p)"
  by (auto simp: WithDefaults_def Let_def DefaultSchedulerPolicy_def)

lemma WithDefaults_ratio:
  "0 \<le> sp_maxRemovalRatio (WithDefaults p)" "sp_maxRemovalRatio (WithDefaults p) \<le> 1"
  using float64_nonneg [of "34 / 100"] float64_le [of "34 / 100" 1]
  by (auto simp: WithDefaults_def Let_def DefaultSchedulerPolicy_def)

subsection \<open>What pacing removes\<close>

lemma allowedRemovals_bounds:
  assumes "0 \<le> r" "r \<le> 1" "n < 2 ^ 53"
  shows "1 \<le> allowedRemovals n r" "0 < n \<Longrightarrow> allowedRemovals n r \<le> int n"
proof -
  show "1 \<le> allowedRemovals n r"
    by (simp add: allowedRemovals_def Let_def)
  have "r * of_nat n \<le> of_nat n"
    using assms(1,2) by (simp add: mult_left_le_one_le)
  then have "\<lfloor>float64 (r * of_nat n)\<rfloor> \<le> int n"
    using float64_le [of "r * of_nat n" n] assms(3) by (simp add: floor_le_iff)
  then show "0 < n \<Longrightarrow> allowedRemovals n r \<le> int n"
    by (auto simp: allowedRemovals_def Let_def)
qed

lemma deferredRemovals_length: "length (deferredRemovals ns k) = min (nat k) (length ns)"
  by (auto simp: deferredRemovals_def)

lemma deferredRemovals_newest:
  assumes "n \<in> set (deferredRemovals ns k)" "n' \<in># mset ns - mset (deferredRemovals ns k)"
  shows "nd_updatedAt n' \<le> nd_updatedAt n"
proof -
  let ?s = "sort_key (\<lambda>n. - nd_updatedAt n) ns"
  have d: "deferredRemovals ns k = take (nat k) ?s"
    using assms by (auto simp: deferredRemovals_def split: if_splits)
  have "mset ns = mset (take (nat k) ?s) + mset (drop (nat k) ?s)"
    by (metis append_take_drop_id mset_append mset_sort)
  then have "n' \<in> set (drop (nat k) ?s)"
    using assms(2) d by simp
  moreover have "sorted (map (\<lambda>n. - nd_updatedAt n) (take (nat k) ?s @ drop (nat k) ?s))"
    by simp
  ultimately show ?thesis
    using assms(1) d by (fastforce simp: sorted_append simp del: append_take_drop_id)
qed

abbreviation idsOf :: "NodeCandidate list \<Rightarrow> string set" where
  "idsOf cs \<equiv> (\<lambda>c. nd_id (nc_node c)) ` set cs"

lemma candidateByID_id: "candidateByID cs i = Some c \<Longrightarrow> nd_id (nc_node c) = i"
  by (auto simp: candidateByID_def find_Some_iff)

lemma deferAll_ids:
  assumes "\<And>n c. loadCandidate n = Ok c \<Longrightarrow> nc_node c = n"
    and "deferAll loadCandidate (candidateByID cs) ns result = Ok out"
  shows "\<exists>more. out = result @ more \<and> map (\<lambda>c. nd_id (nc_node c)) more = map nd_id ns"
  using assms(2)
proof (induction ns arbitrary: result)
  case (Cons n ns)
  then obtain c where "nd_id (nc_node c) = nd_id n"
      "deferAll loadCandidate (candidateByID cs) ns (result @ [c]) = Ok out"
    using assms(1) by (fastforce split: option.splits sum.splits dest: candidateByID_id)
  then show ?case
    using Cons.IH [of "result @ [c]"] by fastforce
qed simp

text \<open>What the database reads of the pacing are relied on for: every node still has its row.\<close>

definition loads_nodes :: "(string list \<Rightarrow> string + node list) \<Rightarrow> bool" where
  "loads_nodes loadNodes \<longleftrightarrow> (\<forall>is. \<exists>ns. loadNodes is = Ok ns \<and> mset (map nd_id ns) = mset is)"

definition loads_candidates :: "(node \<Rightarrow> string + NodeCandidate) \<Rightarrow> bool" where
  "loads_candidates loadCandidate \<longleftrightarrow> (\<forall>n. \<exists>c. loadCandidate n = Ok c \<and> nc_node c = n)"

lemma mset_map_filter:
  assumes "\<And>i c. byID i = Some c \<Longrightarrow> nd_id (nc_node c) = i"
  shows "image_mset nd_id (image_mset nc_node (mset (List.map_filter byID is)))
      + mset (filter (\<lambda>i. byID i = None) is) = mset is"
  using assms by (induction "is") (auto simp: List.map_filter_simps split: option.splits)

lemma droppedNodes_ids:
  assumes "loads_nodes loadNodes"
  shows "\<exists>ns. droppedNodes loadNodes ids (candidateByID cs) = Ok ns \<and> mset (map nd_id ns) = mset ids"
proof -
  let ?missing = "filter (\<lambda>i. candidateByID cs i = None) ids"
  obtain ns where "loadNodes ?missing = Ok ns" "mset (map nd_id ns) = mset ?missing"
    using assms unfolding loads_nodes_def by blast
  then show ?thesis
    using mset_map_filter [of "candidateByID cs" ids] candidateByID_id
    by (auto simp: droppedNodes_def Let_def simp del: mset_filter)
qed

lemma deferAll_Ok:
  assumes "loads_candidates loadCandidate"
  shows "\<exists>out. deferAll loadCandidate byID ns result = Ok out"
proof (induction ns arbitrary: result)
  case (Cons n ns)
  obtain c where "loadCandidate n = Ok c"
    using assms unfolding loads_candidates_def by blast
  then show ?case
    using Cons by (auto split: option.splits)
qed simp

lemma deferredRemovals_subset: "mset (deferredRemovals ns k) \<subseteq># mset ns"
proof -
  have "mset (take n (sort_key f ns)) \<subseteq># mset ns" for n and f :: "node \<Rightarrow> int"
    by (metis append_take_drop_id mset_append mset_sort mset_subset_eq_add_left)
  then show ?thesis by (simp add: deferredRemovals_def)
qed

lemma distinct_submset: "mset xs \<subseteq># mset ys \<Longrightarrow> distinct ys \<Longrightarrow> distinct xs"
proof -
  assume sub: "mset xs \<subseteq># mset ys" and dist: "distinct ys"
  obtain zs where "mset ys = mset (xs @ zs)"
    using sub by (metis ex_mset mset_append subset_mset.le_iff_add)
  then show ?thesis
    using mset_eq_imp_distinct_iff dist distinct_append by metis
qed

lemma card_kept:
  assumes "mset (map nd_id ns) = mset D" "distinct D" "0 \<le> k"
  shows "int (card (set D - nd_id ` set (deferredRemovals ns k))) = int (length D) - min k (int (length D))"
proof -
  let ?keep = "deferredRemovals ns k"
  have sub: "mset ?keep \<subseteq># mset ns"
    by (rule deferredRemovals_subset)
  have len: "length ns = length D"
    using assms(1) by (metis length_map size_mset)
  have "distinct (map nd_id ns)"
    using mset_eq_imp_distinct_iff [OF assms(1)] assms(2) by simp
  then have dist: "distinct (map nd_id ?keep)"
    using sub distinct_submset [of "map nd_id ?keep" "map nd_id ns"] by (simp add: image_mset_subseteq_mono)
  have "nd_id ` set ?keep \<subseteq> set D"
    using sub assms(1) by (metis image_mono list.set_map set_mset_mono set_mset_mset)
  then have "card (set D - nd_id ` set ?keep) = card (set D) - card (nd_id ` set ?keep)"
    by (simp add: card_Diff_subset)
  also have "\<dots> = length D - length ?keep"
    using assms(2) dist by (metis distinct_card length_map list.set_map)
  finally show ?thesis
    using len assms(3) by (simp add: deferredRemovals_length)
qed

lemma paceRemovals_cap:
  fixes policy :: SchedulerPolicy
  assumes "loads_nodes loadNodes" "loads_candidates loadCandidate" "distinct published" "selected \<noteq> []"
    and "length published < 2 ^ 53"
  defines "allowed \<equiv> allowedRemovals (length published) (sp_maxRemovalRatio (WithDefaults policy))"
  shows "\<exists>result deferred. paceRemovals loadNodes loadCandidate candidates selected published policy = Ok (result, deferred)
    \<and> prefix selected result \<and> (deferred \<longleftrightarrow> result \<noteq> selected)
    \<and> int (card (set published - idsOf result)) = min (int (card (set published - idsOf selected))) allowed"
proof -
  let ?D = "droppedFromSelection published selected"
  have D: "set ?D = set published - idsOf selected" "distinct ?D"
    using assms(3) by (auto simp: droppedFromSelection_def)
  then have D3: "length ?D = card (set published - idsOf selected)"
    using distinct_card by metis
  have pos: "1 \<le> allowed"
    using allowedRemovals_bounds(1) [OF WithDefaults_ratio assms(5)] by (simp add: allowed_def)
  show ?thesis
  proof (cases "published = [] \<or> int (length ?D) \<le> allowed")
    case True
    then have "paceRemovals loadNodes loadCandidate candidates selected published policy = Ok (selected, False)"
      using assms(4) by (auto simp: paceRemovals_def Let_def allowed_def)
    then show ?thesis using True D3 pos by auto
  next
    case False
    obtain ns where ns: "droppedNodes loadNodes ?D (candidateByID candidates) = Ok ns" "mset (map nd_id ns) = mset ?D"
      using droppedNodes_ids [OF assms(1)] by blast
    have len: "length ns = length ?D"
      using ns(2) by (metis length_map size_mset)
    let ?keep = "deferredRemovals ns (int (length ns) - allowed)"
    obtain out where out: "deferAll loadCandidate (candidateByID candidates) ?keep selected = Ok out"
      using deferAll_Ok [OF assms(2)] by blast
    then obtain more where more: "out = selected @ more" "map (\<lambda>c. nd_id (nc_node c)) more = map nd_id ?keep"
      using deferAll_ids [OF _ out] assms(2) unfolding loads_candidates_def by (metis Inr_inject)
    have keep: "?keep \<noteq> []"
      using False len pos deferredRemovals_length [of ns "int (length ns) - allowed"] by auto
    then have "paceRemovals loadNodes loadCandidate candidates selected published policy = Ok (out, True)"
      using False assms(4) ns(1) out pos by (auto simp: paceRemovals_def Let_def allowed_def)
    moreover have "idsOf more = nd_id ` set ?keep"
      using more(2) by (metis list.set_map)
    then have "set published - idsOf out = set ?D - nd_id ` set ?keep"
      unfolding D(1) more(1) set_append image_Un by blast
    moreover have "int (card (set ?D - nd_id ` set ?keep)) = allowed"
      using card_kept [OF ns(2) D(2), of "int (length ns) - allowed"] False len pos by simp
    moreover have "more \<noteq> []"
      using keep more(2) by auto
    ultimately show ?thesis
      using False D3 more(1) by (intro exI [of _ out] exI [of _ True]) simp
  qed
qed

subsection \<open>Properties\<close>


definition sampleNode :: "string \<Rightarrow> int \<Rightarrow> node" where
  "sampleNode i p = \<lparr>nd_id = i, nd_priority = p, nd_onlineSince = None, nd_updatedAt = 0\<rparr>"

definition sampleCandidate :: "node \<Rightarrow> NodeCandidate" where
  "sampleCandidate n = \<lparr>nc_node = n, nc_addresses = [], nc_lines = []\<rparr>"

definition samplePolicy :: SchedulerPolicy where
  "samplePolicy = \<lparr>sp_placement = ''PRIMARY_BACKUP'', sp_minPublished = 1, sp_minHealthyTime = None,
                   sp_maxRemovalRatio = 1\<rparr>"

lemma sample_loads:
  "loads_nodes (\<lambda>is. Ok (map (\<lambda>i. sampleNode i 0) is))" "loads_candidates (\<lambda>n. Ok (sampleCandidate n))"
  by (simp_all add: loads_nodes_def loads_candidates_def sampleNode_def sampleCandidate_def comp_def
      flip: mset_map)




text \<open>
  Property C28: whatever the configured ratio, the default policy included, a pass
  may remove at least one node and never more than are published, also after the
  rounding of the product to double precision.
\<close>

theorem allowedRemovals_range:
  assumes "0 < n" "n < 2 ^ 53"
  shows "1 \<le> allowedRemovals n (sp_maxRemovalRatio (WithDefaults policy))
    \<and> allowedRemovals n (sp_maxRemovalRatio (WithDefaults policy)) \<le> int n"
  using allowedRemovals_bounds [OF WithDefaults_ratio assms(2)] assms(1) by blast

theorem allowedRemovals_range_witness:
  "1 \<le> allowedRemovals 10 (sp_maxRemovalRatio (WithDefaults samplePolicy))
   \<and> allowedRemovals 10 (sp_maxRemovalRatio (WithDefaults samplePolicy)) \<le> 10"
  using allowedRemovals_range [of 10 samplePolicy] by simp

end
