(* ===== verification/Rbac.thy ===== *)
theory Rbac
  imports Prelude
begin

section \<open>Permissions and roles\<close>

text \<open>
  \<open>internal/rbac/rbac.go\<close>. Roles and permissions are Go strings; the constants of
  the source are constructors and any other string is \<open>OtherRole\<close> or
  \<open>OtherPermission\<close>. A Go map that is missing a key gives its zero value: no
  permissions for an unknown role, rank zero for it. The properties say that the role
  matrix grows with the rank, that \<open>Highest\<close> is exactly the union of what two roles
  grant, and that a scoped subject is below both its role and its scope.
\<close>

datatype permission =
    PermissionClusterRead | PermissionSiteWrite | PermissionSiteDelete | PermissionPublish
  | PermissionCacheOperate | PermissionNodeManage | PermissionNodeDelete | PermissionCredentialManage
  | PermissionCertificateManage | PermissionCertificateDelete | PermissionMemberManage
  | PermissionClusterTransfer | PermissionNotificationManage | PermissionLogpushManage
  | PermissionAPIKeyManage | PermissionAlertManage
  | PermissionPlatformUserManage | PermissionPlatformClusterRead | PermissionPlatformSettingsManage
  | PermissionPlatformAuditRead | PermissionPlatformPolicyManage
  | OtherPermission string

datatype role = RoleViewer | RoleOperator | RoleOwner | RoleAdmin | OtherRole string

fun rolePermissions :: "role \<Rightarrow> permission list" where
  "rolePermissions RoleViewer = [PermissionClusterRead]"
| "rolePermissions RoleOperator =
     [PermissionClusterRead, PermissionSiteWrite, PermissionPublish, PermissionCacheOperate,
      PermissionAlertManage]"
| "rolePermissions RoleOwner =
     [PermissionClusterRead, PermissionSiteWrite, PermissionSiteDelete, PermissionPublish,
      PermissionCacheOperate, PermissionNodeManage, PermissionNodeDelete, PermissionCredentialManage,
      PermissionCertificateManage, PermissionCertificateDelete, PermissionMemberManage,
      PermissionClusterTransfer, PermissionNotificationManage, PermissionLogpushManage,
      PermissionAPIKeyManage, PermissionAlertManage]"
| "rolePermissions RoleAdmin =
     [PermissionClusterRead, PermissionSiteWrite, PermissionSiteDelete, PermissionPublish,
      PermissionCacheOperate, PermissionNodeManage, PermissionNodeDelete, PermissionCredentialManage,
      PermissionCertificateManage, PermissionCertificateDelete, PermissionMemberManage,
      PermissionClusterTransfer, PermissionNotificationManage, PermissionLogpushManage,
      PermissionAPIKeyManage, PermissionAlertManage,
      PermissionPlatformUserManage, PermissionPlatformClusterRead, PermissionPlatformSettingsManage,
      PermissionPlatformAuditRead, PermissionPlatformPolicyManage]"
| "rolePermissions (OtherRole r) = []"

definition Allows :: "role \<Rightarrow> permission \<Rightarrow> bool" where
  "Allows r p \<longleftrightarrow> p \<in> set (rolePermissions r)"

fun roleRank :: "role \<Rightarrow> int" where
  "roleRank RoleViewer = 1"
| "roleRank RoleOperator = 2"
| "roleRank RoleOwner = 3"
| "roleRank RoleAdmin = 4"
| "roleRank (OtherRole r) = 0"

definition Highest :: "role \<Rightarrow> role \<Rightarrow> role" where
  "Highest first second = (if roleRank second > roleRank first then second else first)"

record Subject =
  su_role :: role
  su_permissions :: "permission list option"

definition SubjectForRole :: "role \<Rightarrow> Subject" where
  "SubjectForRole r = \<lparr>su_role = r, su_permissions = None\<rparr>"

definition ScopedSubject :: "role \<Rightarrow> permission list \<Rightarrow> Subject" where
  "ScopedSubject r permissions = \<lparr>su_role = r, su_permissions = Some permissions\<rparr>"

definition SubjectAllows :: "Subject \<Rightarrow> permission \<Rightarrow> bool" where
  "SubjectAllows subject p =
     (if \<not> Allows (su_role subject) p then False
      else (case su_permissions subject of None \<Rightarrow> True | Some ps \<Rightarrow> p \<in> set ps))"

definition keyGrantablePermissions :: "permission list" where
  "keyGrantablePermissions =
     [PermissionClusterRead, PermissionSiteWrite, PermissionSiteDelete, PermissionPublish,
      PermissionCacheOperate]"

definition KeyGrantablePermissions :: "permission list" where
  "KeyGrantablePermissions = keyGrantablePermissions"

fun keyAllowedIn :: "permission list \<Rightarrow> permission \<Rightarrow> bool" where
  "keyAllowedIn [] p = False"
| "keyAllowedIn (c # cs) p = (if c = p then True else keyAllowedIn cs p)"

definition KeyPermissionAllowed :: "permission \<Rightarrow> bool" where
  "KeyPermissionAllowed p = keyAllowedIn keyGrantablePermissions p"

lemma Allows_mono: "roleRank a \<le> roleRank b \<Longrightarrow> Allows a p \<Longrightarrow> Allows b p"
  by (cases a; cases b) (auto simp: Allows_def)

lemma keyAllowedIn_iff: "keyAllowedIn ps p \<longleftrightarrow> p \<in> set ps"
  by (induction ps) auto

subsection \<open>Properties\<close>

text \<open>
  The more privileged of two roles grants exactly what either of them
  grants, for unknown roles too; so combining a membership with a platform role
  neither loses nor adds a permission.
\<close>

lemma Highest_union:
  "Allows (Highest a b) p \<longleftrightarrow> Allows a p \<or> Allows b p"
  using Allows_mono [of a b p] Allows_mono [of b a p] by (auto simp: Highest_def)

text \<open>
  Property C18: an API key cannot escalate. A key subject made of permissions the
  whitelist accepts allows only permissions in its scope that its role grants too,
  none of them a platform, member, credential, node or key management permission,
  and the owner of the cluster could do each of them.
\<close>

theorem api_key_no_escalation:
  assumes "list_all KeyPermissionAllowed ps" "SubjectAllows (ScopedSubject r ps) p"
  shows "p \<in> set ps \<and> Allows r p \<and> Allows RoleOwner p
    \<and> p \<notin> {PermissionPlatformUserManage, PermissionPlatformClusterRead, PermissionPlatformSettingsManage,
            PermissionPlatformAuditRead, PermissionPlatformPolicyManage, PermissionMemberManage,
            PermissionCredentialManage, PermissionNodeManage, PermissionNodeDelete,
            PermissionNotificationManage, PermissionAPIKeyManage}"
proof -
  have p: "p \<in> set ps" "Allows r p"
    using assms(2) by (auto simp: SubjectAllows_def ScopedSubject_def split: if_splits)
  then have "p \<in> set keyGrantablePermissions"
    using assms(1) by (auto simp: list_all_iff KeyPermissionAllowed_def keyAllowedIn_iff)
  then show ?thesis
    using p by (auto simp: keyGrantablePermissions_def Allows_def)
qed

theorem api_key_no_escalation_witness:
  "SubjectAllows (ScopedSubject RoleAdmin [PermissionPublish]) PermissionPublish \<and> Allows RoleOwner PermissionPublish"
proof -
  have "list_all KeyPermissionAllowed [PermissionPublish]"
      "SubjectAllows (ScopedSubject RoleAdmin [PermissionPublish]) PermissionPublish"
    by (simp_all add: KeyPermissionAllowed_def keyGrantablePermissions_def SubjectAllows_def ScopedSubject_def Allows_def)
  then show ?thesis
    using api_key_no_escalation by blast
qed

end
