(* ===== verification/Go_Strings.thy ===== *)
theory Go_Strings
  imports Prelude "HOL-Library.Char_ord" "HOL-Library.List_Lexorder"
begin

section \<open>Strings of the Go library\<close>

text \<open>
  The functions of \<open>strings\<close>, \<open>sort\<close>, \<open>net/textproto\<close> and \<open>strconv\<close> that the
  validators and matchers call. A Go string is its bytes, one \<open>char\<close> each, so
  \<open>len\<close> is \<open>length\<close> and \<open>sort.Strings\<close> is \<open>sort\<close> in the lexicographic order of the
  library. \<open>TrimSpace\<close> removes every space of \<open>unicode.IsSpace\<close>, written out as its
  UTF-8 bytes. The case maps take the path of the source: bytewise on ASCII
  strings, by the Unicode case tables otherwise. Those tables, the RE2 and URL
  parsers, the JSON checker and SHA-256 are fields of the record \<open>golib\<close>, over which every
  statement is quantified, and so are the functions of \<open>golang.org/x/net/http/httpguts\<close>.
\<close>

record url =
  u_scheme :: string
  u_user :: bool
  u_host :: string
  u_path :: string
  u_rawQuery :: string
  u_fragment :: string

record golib =
  gl_lower :: "string \<Rightarrow> string"
  gl_upper :: "string \<Rightarrow> string"
  gl_regexp :: "string \<Rightarrow> bool"
  gl_urlParse :: "string \<Rightarrow> url option"
  gl_jsonValid :: "string \<Rightarrow> bool"
  gl_sha256 :: "string \<Rightarrow> bytes"
  gl_validHostHeader :: "string \<Rightarrow> bool"
  gl_validHeaderFieldName :: "string \<Rightarrow> bool"
  gl_validHeaderFieldValue :: "string \<Rightarrow> bool"

subsection \<open>Searching\<close>

definition HasPrefix :: "string \<Rightarrow> string \<Rightarrow> bool" where
  "HasPrefix s p \<longleftrightarrow> take (length p) s = p"

definition HasSuffix :: "string \<Rightarrow> string \<Rightarrow> bool" where
  "HasSuffix s p \<longleftrightarrow> HasPrefix (rev s) (rev p)"

definition TrimPrefix :: "string \<Rightarrow> string \<Rightarrow> string" where
  "TrimPrefix s p = (if HasPrefix s p then drop (length p) s else s)"

definition TrimSuffix :: "string \<Rightarrow> string \<Rightarrow> string" where
  "TrimSuffix s p = (if HasSuffix s p then take (length s - length p) s else s)"

definition ContainsAny :: "string \<Rightarrow> string \<Rightarrow> bool" where
  "ContainsAny s cs \<longleftrightarrow> list_ex (\<lambda>c. c \<in> set cs) s"

fun Contains :: "string \<Rightarrow> string \<Rightarrow> bool" where
  "Contains [] p \<longleftrightarrow> p = []"
| "Contains (c # s) p \<longleftrightarrow> HasPrefix (c # s) p \<or> Contains s p"

fun IndexByte :: "string \<Rightarrow> char \<Rightarrow> nat option" where
  "IndexByte [] c = None"
| "IndexByte (x # s) c = (if x = c then Some 0 else map_option Suc (IndexByte s c))"

definition LastIndexByte :: "string \<Rightarrow> char \<Rightarrow> nat option" where
  "LastIndexByte s c = map_option (\<lambda>i. length s - 1 - i) (IndexByte (rev s) c)"

lemma HasPrefix_iff: "HasPrefix s p \<longleftrightarrow> (\<exists>t. s = p @ t)"
  unfolding HasPrefix_def by (metis append_eq_conv_conj append_take_drop_id)

lemma HasPrefix_append: "HasPrefix s p \<Longrightarrow> HasPrefix (s @ t) p"
  by (auto simp: HasPrefix_iff)

subsection \<open>White space\<close>

definition spaces :: "string list" where
  "spaces =
     [[CHR 0x09], [CHR 0x0A], [CHR 0x0B], [CHR 0x0C], [CHR 0x0D], [CHR 0x20],
      [CHR 0xC2, CHR 0x85], [CHR 0xC2, CHR 0xA0], [CHR 0xE1, CHR 0x9A, CHR 0x80],
      [CHR 0xE2, CHR 0x80, CHR 0x80], [CHR 0xE2, CHR 0x80, CHR 0x81], [CHR 0xE2, CHR 0x80, CHR 0x82],
      [CHR 0xE2, CHR 0x80, CHR 0x83], [CHR 0xE2, CHR 0x80, CHR 0x84], [CHR 0xE2, CHR 0x80, CHR 0x85],
      [CHR 0xE2, CHR 0x80, CHR 0x86], [CHR 0xE2, CHR 0x80, CHR 0x87], [CHR 0xE2, CHR 0x80, CHR 0x88],
      [CHR 0xE2, CHR 0x80, CHR 0x89], [CHR 0xE2, CHR 0x80, CHR 0x8A], [CHR 0xE2, CHR 0x80, CHR 0xA8],
      [CHR 0xE2, CHR 0x80, CHR 0xA9], [CHR 0xE2, CHR 0x80, CHR 0xAF], [CHR 0xE2, CHR 0x81, CHR 0x9F],
      [CHR 0xE3, CHR 0x80, CHR 0x80]]"

fun firstOf :: "string list \<Rightarrow> string \<Rightarrow> string option" where
  "firstOf [] s = None"
| "firstOf (p # ps) s = (if HasPrefix s p then Some p else firstOf ps s)"

lemma firstOf_Some: "firstOf ps s = Some p \<Longrightarrow> p \<in> set ps \<and> HasPrefix s p"
  by (induction ps) (auto split: if_splits)

lemma firstOf_None: "firstOf ps s = None \<longleftrightarrow> (\<forall>p \<in> set ps. \<not> HasPrefix s p)"
  by (induction ps) auto

lemma spaces_nonempty [simp]: "[] \<notin> set spaces"
  by (simp add: spaces_def)

function trimFirst :: "string list \<Rightarrow> string \<Rightarrow> string" where
  "trimFirst ps s =
     (case firstOf ps s of
        None \<Rightarrow> s
      | Some p \<Rightarrow> if p = [] then s else trimFirst ps (drop (length p) s))"
  by pat_completeness auto
termination
proof (relation "measure (length \<circ> snd)")
  fix ps and s p :: string
  assume "firstOf ps s = Some p" "p \<noteq> []"
  then have "length p \<le> length s" "0 < length p"
    using firstOf_Some [of ps s p] by (auto simp: HasPrefix_iff)
  then show "((ps, drop (length p) s), (ps, s)) \<in> measure (length \<circ> snd)"
    by (simp del: length_greater_0_conv)
qed simp

declare trimFirst.simps [simp del]

definition TrimLeftSpace :: "string \<Rightarrow> string" where
  "TrimLeftSpace s = trimFirst spaces s"

definition TrimRightSpace :: "string \<Rightarrow> string" where
  "TrimRightSpace s = rev (trimFirst (map rev spaces) (rev s))"

definition TrimSpace :: "string \<Rightarrow> string" where
  "TrimSpace s = TrimRightSpace (TrimLeftSpace s)"

definition noFirst :: "string list \<Rightarrow> string \<Rightarrow> bool" where
  "noFirst ps s \<longleftrightarrow> firstOf ps s = None"

lemma trimFirst_noFirst: "[] \<notin> set ps \<Longrightarrow> noFirst ps (trimFirst ps s)"
proof (induction ps s rule: trimFirst.induct)
  case (1 ps s)
  show ?case
  proof (cases "firstOf ps s")
    case None
    then show ?thesis by (simp add: trimFirst.simps noFirst_def)
  next
    case (Some p)
    then have "p \<noteq> []" using firstOf_Some 1(2) by blast
    then show ?thesis using 1 Some by (subst trimFirst.simps) simp
  qed
qed

lemma trimFirst_id: "noFirst ps s \<Longrightarrow> trimFirst ps s = s"
  by (simp add: trimFirst.simps noFirst_def)

lemma trimFirst_suffix: "\<exists>p. s = p @ trimFirst ps s"
proof (induction ps s rule: trimFirst.induct)
  case (1 ps s)
  show ?case
  proof (cases "firstOf ps s")
    case None
    then show ?thesis by (simp add: trimFirst.simps)
  next
    case (Some p)
    show ?thesis
    proof (cases "p = []")
      case True
      then show ?thesis using Some by (subst trimFirst.simps) simp
    next
      case False
      then obtain x where x: "drop (length p) s = x @ trimFirst ps (drop (length p) s)"
        using 1 [OF Some] by blast
      then have "s = (take (length p) s @ x) @ trimFirst ps (drop (length p) s)"
        by (metis append.assoc append_take_drop_id)
      moreover have "trimFirst ps s = trimFirst ps (drop (length p) s)"
        using False Some by (subst trimFirst.simps) simp
      ultimately show ?thesis
        by metis
    qed
  qed
qed

lemma noFirst_prefix: "noFirst ps (s @ t) \<Longrightarrow> noFirst ps s"
  by (auto simp: noFirst_def firstOf_None dest: HasPrefix_append)

definition trimmed :: "string \<Rightarrow> bool" where
  "trimmed s \<longleftrightarrow> noFirst spaces s \<and> noFirst (map rev spaces) (rev s)"

lemma trimmed_id: "trimmed s \<Longrightarrow> TrimSpace s = s"
  by (simp add: trimmed_def TrimSpace_def TrimLeftSpace_def TrimRightSpace_def trimFirst_id)

lemma TrimSpace_trimmed [simp]: "trimmed (TrimSpace s)"
proof -
  have ne: "[] \<notin> set spaces" "[] \<notin> set (map rev spaces)"
    by auto
  obtain p where "rev (TrimLeftSpace s) = p @ trimFirst (map rev spaces) (rev (TrimLeftSpace s))"
    using trimFirst_suffix by blast
  then have "TrimLeftSpace s = TrimSpace s @ rev p"
    unfolding TrimSpace_def TrimRightSpace_def by (metis rev_append rev_rev_ident)
  moreover have "noFirst spaces (TrimLeftSpace s)"
    unfolding TrimLeftSpace_def by (rule trimFirst_noFirst [OF ne(1)])
  ultimately have "noFirst spaces (TrimSpace s)"
    using noFirst_prefix by metis
  moreover have "noFirst (map rev spaces) (rev (TrimSpace s))"
    unfolding TrimSpace_def TrimRightSpace_def using trimFirst_noFirst [OF ne(2)] by simp
  ultimately show ?thesis
    by (simp add: trimmed_def)
qed

lemma TrimSpace_idem [simp]: "TrimSpace (TrimSpace s) = TrimSpace s"
  by (rule trimmed_id) simp

text \<open>Printable ASCII: what every validated name consists of.\<close>

definition graphic :: "char \<Rightarrow> bool" where
  "graphic c \<longleftrightarrow> 32 < (of_char c :: nat) \<and> (of_char c :: nat) < 127"

lemma spaces_heads:
  "list_all (\<lambda>p. \<not> graphic (hd p)) spaces" "list_all (\<lambda>p. \<not> graphic (hd p)) (map rev spaces)"
  by code_simp+

lemma HasPrefix_hd: "HasPrefix s p \<Longrightarrow> p \<noteq> [] \<Longrightarrow> hd s = hd p"
  by (auto simp: HasPrefix_iff)

lemma graphic_noFirst:
  assumes "graphic (hd s)"
  shows "noFirst spaces s" and "noFirst (map rev spaces) s"
proof -
  have "\<not> HasPrefix s p" if "p \<in> set spaces \<union> set (map rev spaces)" for p
    using that assms spaces_heads HasPrefix_hd [of s p]
    by (cases "p = []") (auto simp: list_all_iff)
  then show "noFirst spaces s" and "noFirst (map rev spaces) s"
    by (auto simp: noFirst_def firstOf_None)
qed

lemma graphic_trimmed: "list_all graphic s \<Longrightarrow> trimmed s"
proof (cases "s = []")
  case True
  then show ?thesis by (simp add: trimmed_def noFirst_def firstOf_None spaces_def HasPrefix_def)
next
  case False
  assume g: "list_all graphic s"
  then have "graphic (hd s)" "graphic (hd (rev s))"
    using False by (auto simp: list_all_iff hd_rev)
  then show ?thesis
    using False by (simp add: trimmed_def graphic_noFirst)
qed

lemma TrimSpace_graphic: "list_all graphic s \<Longrightarrow> TrimSpace s = s"
  by (simp add: graphic_trimmed trimmed_id)


subsection \<open>Case maps and header names\<close>

definition isASCII :: "string \<Rightarrow> bool" where
  "isASCII s \<longleftrightarrow> list_all (\<lambda>c. (of_char c :: nat) < 128) s"

definition between :: "char \<Rightarrow> char \<Rightarrow> char \<Rightarrow> bool" where
  "between lo hi c \<longleftrightarrow> (of_char lo :: nat) \<le> of_char c \<and> (of_char c :: nat) \<le> of_char hi"

abbreviation isUpper :: "char \<Rightarrow> bool" where
  "isUpper \<equiv> between CHR ''A'' CHR ''Z''"

abbreviation isLower :: "char \<Rightarrow> bool" where
  "isLower \<equiv> between CHR ''a'' CHR ''z''"

abbreviation isDigit :: "char \<Rightarrow> bool" where
  "isDigit \<equiv> between CHR ''0'' CHR ''9''"

definition lowerChar :: "char \<Rightarrow> char" where
  "lowerChar c = (if isUpper c then char_of (of_char c + 32 :: nat) else c)"

definition upperChar :: "char \<Rightarrow> char" where
  "upperChar c = (if isLower c then char_of (of_char c - 32 :: nat) else c)"

definition ToLower :: "golib \<Rightarrow> string \<Rightarrow> string" where
  "ToLower L s = (if isASCII s then map lowerChar s else gl_lower L s)"

definition ToUpper :: "golib \<Rightarrow> string \<Rightarrow> string" where
  "ToUpper L s = (if isASCII s then map upperChar s else gl_upper L s)"

definition tokenPunct :: string where
  "tokenPunct = ''!#$%&*+-.^_|~'' @ [CHR 0x27, CHR 0x60]"

definition tokenChar :: "char \<Rightarrow> bool" where
  "tokenChar c \<longleftrightarrow> isLower c \<or> isUpper c \<or> isDigit c \<or> c \<in> set tokenPunct"

fun canonical :: "bool \<Rightarrow> string \<Rightarrow> string" where
  "canonical up [] = []"
| "canonical up (c # s) = (if up then upperChar c else lowerChar c) # canonical (c = CHR ''-'') s"

definition CanonicalHeaderKey :: "string \<Rightarrow> string" where
  "CanonicalHeaderKey s = (if list_all tokenChar s then canonical True s else s)"

lemma of_char_less [simp]: "(of_char (c :: char) :: nat) < 256"
  by (metis of_char_mod_256 mod_less_divisor zero_less_numeral)

lemma of_char_char_of_nat: "(of_char (char_of (n :: nat)) :: nat) = n mod 256"
  by simp

lemma lowerChar_code:
  "(of_char (lowerChar c) :: nat) = (if isUpper c then of_char c + 32 else of_char c)"
  by (auto simp: lowerChar_def between_def)

lemma upperChar_code:
  "(of_char (upperChar c) :: nat) = (if isLower c then of_char c - 32 else of_char c)"
  by (auto simp: upperChar_def between_def)

lemma lowerChar_id: "\<not> isUpper c \<Longrightarrow> lowerChar c = c"
  by (simp add: lowerChar_def)

lemma upperChar_id: "\<not> isLower c \<Longrightarrow> upperChar c = c"
  by (simp add: upperChar_def)

lemma lowerChar_idem [simp]: "lowerChar (lowerChar c) = lowerChar c"
  by (rule lowerChar_id) (simp add: between_def lowerChar_code)

lemma upperChar_idem [simp]: "upperChar (upperChar c) = upperChar c"
  by (rule upperChar_id) (auto simp: between_def upperChar_code)

lemma ToLower_id: "isASCII s \<Longrightarrow> list_all (\<lambda>c. \<not> isUpper c) s \<Longrightarrow> ToLower L s = s"
  by (induction s) (auto simp: ToLower_def lowerChar_id isASCII_def)

lemma graphic_ASCII: "list_all graphic s \<Longrightarrow> isASCII s"
  by (auto simp: isASCII_def list_all_iff graphic_def)

lemma case_dash: "lowerChar c = CHR ''-'' \<longleftrightarrow> c = CHR ''-''" "upperChar c = CHR ''-'' \<longleftrightarrow> c = CHR ''-''"
proof -
  have "lowerChar c = CHR ''-'' \<longleftrightarrow> (of_char (lowerChar c) :: nat) = of_char CHR ''-''"
      "upperChar c = CHR ''-'' \<longleftrightarrow> (of_char (upperChar c) :: nat) = of_char CHR ''-''"
      "c = CHR ''-'' \<longleftrightarrow> (of_char c :: nat) = of_char CHR ''-''"
    by (simp_all only: of_char_eq_iff)
  then show "lowerChar c = CHR ''-'' \<longleftrightarrow> c = CHR ''-''" "upperChar c = CHR ''-'' \<longleftrightarrow> c = CHR ''-''"
    by (auto simp: lowerChar_code upperChar_code between_def)
qed

lemma canonical_idem: "canonical up (canonical up s) = canonical up s"
  by (induction s arbitrary: up) (simp_all add: case_dash)

lemma tokenPunct_keeps: "c \<in> set tokenPunct \<Longrightarrow> \<not> isUpper c \<and> \<not> isLower c"
  by (auto simp: tokenPunct_def between_def)

lemma tokenChar_case: "tokenChar c \<Longrightarrow> tokenChar (lowerChar c) \<and> tokenChar (upperChar c)"
  using tokenPunct_keeps [of c]
  by (auto simp: tokenChar_def lowerChar_def upperChar_def between_def)

lemma canonical_token: "list_all tokenChar s \<Longrightarrow> list_all tokenChar (canonical up s)"
  by (induction s arbitrary: up) (auto simp: tokenChar_case)

lemma CanonicalHeaderKey_idem [simp]: "CanonicalHeaderKey (CanonicalHeaderKey s) = CanonicalHeaderKey s"
  by (auto simp: CanonicalHeaderKey_def canonical_token canonical_idem)

lemma canonical_empty [simp]: "canonical up s = [] \<longleftrightarrow> s = []"
  by (cases s) auto

lemma CanonicalHeaderKey_empty [simp]: "CanonicalHeaderKey s = [] \<longleftrightarrow> s = []"
  by (simp add: CanonicalHeaderKey_def)

lemma tokenChar_graphic: "tokenChar c \<Longrightarrow> graphic c"
  by (auto simp: tokenChar_def graphic_def between_def tokenPunct_def)

lemma token_graphic: "list_all tokenChar s \<Longrightarrow> list_all graphic s"
  by (simp add: list_all_iff tokenChar_graphic)

lemma canonical_trimmed: "trimmed s \<Longrightarrow> trimmed (CanonicalHeaderKey s)"
  using graphic_trimmed [OF token_graphic [OF canonical_token]] by (simp add: CanonicalHeaderKey_def)

text \<open>
  What the validators rely on of the Unicode case tables: mapping twice is mapping
  once, and no letter becomes a space.
\<close>

definition case_ok :: "golib \<Rightarrow> bool" where
  "case_ok L \<longleftrightarrow>
     (\<forall>s. \<not> isASCII s \<longrightarrow> ToLower L (gl_lower L s) = gl_lower L s \<and> (trimmed s \<longrightarrow> trimmed (gl_lower L s)))
   \<and> (\<forall>s. \<not> isASCII s \<longrightarrow> ToUpper L (gl_upper L s) = gl_upper L s \<and> (trimmed s \<longrightarrow> trimmed (gl_upper L s)))"

definition caseless :: "char \<Rightarrow> bool" where
  "caseless c \<longleftrightarrow> \<not> isUpper c \<and> \<not> isLower c"

lemma spaces_caseless: "list_all (list_all caseless) spaces" "list_all (list_all caseless) (map rev spaces)"
  by code_simp+

lemma case_inverse: "caseless d \<Longrightarrow> lowerChar c = d \<or> upperChar c = d \<Longrightarrow> c = d"
  by (auto simp: caseless_def lowerChar_def upperChar_def between_def split: if_splits)

lemma HasPrefix_case:
  assumes "f = lowerChar \<or> f = upperChar" "list_all caseless p" "HasPrefix (map f s) p"
  shows "HasPrefix s p"
  using assms(2,3)
proof (induction p arbitrary: s)
  case Nil
  then show ?case by (simp add: HasPrefix_def)
next
  case (Cons d p)
  then obtain c t where s: "s = c # t" "f c = d" "HasPrefix (map f t) p"
    by (cases s) (auto simp: HasPrefix_def)
  then have "c = d"
    using assms(1) Cons.prems(1) case_inverse [of d c] by auto
  then show ?case
    using Cons.IH [of t] Cons.prems(1) s by (simp add: HasPrefix_def)
qed

lemma trimmed_case:
  assumes "f = lowerChar \<or> f = upperChar" "trimmed s"
  shows "trimmed (map f s)"
proof -
  have "noFirst ps (map f t)" if "list_all (list_all caseless) ps" "noFirst ps t" for ps t
    using that HasPrefix_case [OF assms(1)] by (auto simp: noFirst_def firstOf_None list_all_iff)
  then show ?thesis
    using assms(2) spaces_caseless unfolding trimmed_def rev_map by blast
qed

lemma case_ASCII: "isASCII s \<Longrightarrow> isASCII (map lowerChar s) \<and> isASCII (map upperChar s)"
  by (auto simp: isASCII_def list_all_iff lowerChar_code upperChar_code between_def)

definition lowerTrim :: "golib \<Rightarrow> string \<Rightarrow> string" where
  "lowerTrim L s = ToLower L (TrimSpace s)"

definition upperTrim :: "golib \<Rightarrow> string \<Rightarrow> string" where
  "upperTrim L s = ToUpper L (TrimSpace s)"

lemma ToLower_facts:
  assumes "case_ok L"
  shows "ToLower L (ToLower L s) = ToLower L s" "trimmed s \<Longrightarrow> trimmed (ToLower L s)"
  using assms case_ASCII trimmed_case
  by (auto simp: case_ok_def ToLower_def comp_def)

lemma ToUpper_facts:
  assumes "case_ok L"
  shows "ToUpper L (ToUpper L s) = ToUpper L s" "trimmed s \<Longrightarrow> trimmed (ToUpper L s)"
  using assms case_ASCII trimmed_case
  by (auto simp: case_ok_def ToUpper_def comp_def)

lemma lowerTrim_idem:
  "case_ok L \<Longrightarrow> lowerTrim L (lowerTrim L s) = lowerTrim L s"
  "case_ok L \<Longrightarrow> upperTrim L (upperTrim L s) = upperTrim L s"
  by (simp_all add: lowerTrim_def upperTrim_def ToLower_facts ToUpper_facts trimmed_id)

lemma TrimSpace_empty [simp]: "TrimSpace [] = []"
  by (rule TrimSpace_graphic) simp

lemma upperTrim_upper: "list_all (\<lambda>c. graphic c \<and> \<not> isLower c) s \<Longrightarrow> upperTrim L s = s"
proof -
  assume a: "list_all (\<lambda>c. graphic c \<and> \<not> isLower c) s"
  then have "TrimSpace s = s" "isASCII s"
    by (simp_all add: TrimSpace_graphic graphic_ASCII list_all_iff)
  moreover have "map upperChar s = s"
    using a by (induction s) (auto simp: upperChar_id)
  ultimately show ?thesis
    by (simp add: upperTrim_def ToUpper_def)
qed

lemma lowerTrim_lower: "list_all (\<lambda>c. graphic c \<and> \<not> isUpper c) s \<Longrightarrow> lowerTrim L s = s"
  by (simp add: lowerTrim_def TrimSpace_graphic ToLower_id graphic_ASCII list_all_iff)

subsection \<open>Numbers\<close>

definition digit :: "nat \<Rightarrow> char" where
  "digit n = char_of (48 + n mod 10)"

fun decimal :: "nat \<Rightarrow> string" where
  "decimal n = (if n < 10 then [digit n] else decimal (n div 10) @ [digit n])"

declare decimal.simps [simp del]

definition hexDigit :: "nat \<Rightarrow> char" where
  "hexDigit n = (if n < 10 then char_of (48 + n) else char_of (87 + n))"

definition hex :: "bytes \<Rightarrow> string" where
  "hex bs = concat (map (\<lambda>b. [hexDigit (unat b div 16), hexDigit (unat b mod 16)]) bs)"

definition digitsValue :: "string \<Rightarrow> int option" where
  "digitsValue s =
     (if s \<noteq> [] \<and> list_all isDigit s
      then Some (foldl (\<lambda>n c. n * 10 + (int (of_char c) - 48)) 0 s) else None)"

definition Atoi :: "string \<Rightarrow> int option" where
  "Atoi s =
     (let v = (case s of
                 [] \<Rightarrow> None
               | c # t \<Rightarrow> if c = CHR ''-'' then map_option uminus (digitsValue t)
                          else if c = CHR ''+'' then digitsValue t else digitsValue s)
      in case v of None \<Rightarrow> None | Some n \<Rightarrow> if int64_range n then Some n else None)"

lemma digit_graphic: "graphic (digit n)"
proof -
  have "48 + n mod 10 < 58" by simp
  then show ?thesis by (simp add: graphic_def digit_def)
qed

lemma decimal_graphic: "list_all graphic (decimal n)"
  by (induction n rule: decimal.induct) (subst decimal.simps, simp add: digit_graphic)

lemma decimal_nonempty: "decimal n \<noteq> []"
  by (subst decimal.simps) simp

subsection \<open>Host and port\<close>

definition SplitHostPort :: "string \<Rightarrow> (string \<times> string) option" where
  "SplitHostPort hostport =
     (case LastIndexByte hostport CHR '':'' of
        None \<Rightarrow> None
      | Some i \<Rightarrow>
          (case (if hd hostport = CHR ''[''
                 then (case IndexByte hostport CHR '']'' of
                         None \<Rightarrow> None
                       | Some e \<Rightarrow> if e + 1 = i then Some (take (e - 1) (drop 1 hostport), 1, e + 1) else None)
                 else (let host = take i hostport
                       in if IndexByte host CHR '':'' \<noteq> None then None else Some (host, 0, 0))) of
             None \<Rightarrow> None
           | Some (host, j, k) \<Rightarrow>
               if IndexByte (drop j hostport) CHR ''['' \<noteq> None then None
               else if IndexByte (drop k hostport) CHR '']'' \<noteq> None then None
               else Some (host, drop (i + 1) hostport)))"

subsection \<open>Results and validated lists\<close>

definition bindE :: "'e + 'a \<Rightarrow> ('a \<Rightarrow> 'e + 'b) \<Rightarrow> 'e + 'b" where
  "bindE m f = (case m of Inl e \<Rightarrow> Err e | Inr x \<Rightarrow> f x)"

lemma bindE_simps [simp]: "bindE (Err e) f = Err e" "bindE (Ok x) f = f x"
  by (simp_all add: bindE_def)

lemma bindE_Ok: "bindE m f = Ok y \<longleftrightarrow> (\<exists>x. m = Ok x \<and> f x = Ok y)"
  by (cases m) auto

text \<open>
  The loop the validators share: normalise each value, refuse one whose key was
  seen, remember it.
\<close>

fun normUnique :: "('a \<Rightarrow> 'e + 'b) \<Rightarrow> ('b \<Rightarrow> 'k) \<Rightarrow> ('a \<Rightarrow> 'e) \<Rightarrow> 'k list \<Rightarrow> 'a list \<Rightarrow> 'e + 'b list" where
  "normUnique f key dup seen [] = Ok []"
| "normUnique f key dup seen (x # xs) =
     bindE (f x) (\<lambda>y.
       if key y \<in> set seen then Err (dup x)
       else bindE (normUnique f key dup (key y # seen) xs) (\<lambda>ys. Ok (y # ys)))"

lemma normUnique_Ok:
  "normUnique f key dup seen xs = Ok ys \<longleftrightarrow>
     list_all2 (\<lambda>x y. f x = Ok y) xs ys \<and> distinct (map key ys) \<and> set (map key ys) \<inter> set seen = {}"
proof (induction xs arbitrary: seen ys)
  case Nil
  then show ?case by (cases ys) auto
next
  case (Cons x xs)
  show ?case
    by (cases ys) (auto simp: bindE_Ok Cons.IH split: if_splits)
qed

definition stable :: "('a \<Rightarrow> 'e + 'a) \<Rightarrow> bool" where
  "stable f \<longleftrightarrow> (\<forall>x y. f x = Ok y \<longrightarrow> f y = Ok y)"

lemma stableD: "stable f \<Longrightarrow> f x = Ok y \<Longrightarrow> f y = Ok y"
  by (simp add: stable_def)

lemma list_all2_image: "list_all2 (\<lambda>x y. f x = Ok y) xs ys \<Longrightarrow> y \<in> set ys \<Longrightarrow> \<exists>x. f x = Ok y"
  by (induction xs ys rule: list_all2_induct) auto

lemma normUnique_fixed:
  assumes "\<forall>y \<in> set ys. f y = Ok y" "distinct (map key ys)" "set (map key ys) \<inter> set seen = {}"
  shows "normUnique f key dup seen ys = Ok ys"
  using assms by (auto simp: normUnique_Ok list_all2_same)

lemma normUnique_image: "normUnique f key dup seen xs = Ok ys \<Longrightarrow> y \<in> set ys \<Longrightarrow> \<exists>x. f x = Ok y"
  by (auto simp: normUnique_Ok intro: list_all2_image)

lemma normUnique_idem:
  assumes "normUnique f key dup [] xs = Ok ys" "stable f"
  shows "normUnique f key dup [] ys = Ok ys"
  using assms normUnique_image [OF assms(1)]
  by (intro normUnique_fixed) (auto simp: normUnique_Ok dest: stableD)

lemma sort_key_twice [simp]: "sort_key k (sort_key k xs) = sort_key k xs"
  by (simp add: sort_key_id_if_sorted)

lemma normUnique_sort_idem:
  assumes "normUnique f (\<lambda>y. y) dup [] xs = Ok ys" "stable f"
  shows "normUnique f (\<lambda>y. y) dup [] (sort_key k ys) = Ok (sort_key k ys)"
  using assms normUnique_image [OF assms(1)]
  by (intro normUnique_fixed) (auto simp: normUnique_Ok dest: stableD)

text \<open>The same loop with a position and without the duplicate check.\<close>

fun mapE :: "(nat \<Rightarrow> 'a \<Rightarrow> 'e + 'b) \<Rightarrow> nat \<Rightarrow> 'a list \<Rightarrow> 'e + 'b list" where
  "mapE f i [] = Ok []"
| "mapE f i (x # xs) = bindE (f i x) (\<lambda>y. bindE (mapE f (i + 1) xs) (\<lambda>ys. Ok (y # ys)))"

lemma mapE_length: "mapE f i xs = Ok ys \<Longrightarrow> length ys = length xs"
  by (induction xs arbitrary: i ys) (auto simp: bindE_Ok)

lemma mapE_nth: "mapE f i xs = Ok ys \<Longrightarrow> n < length xs \<Longrightarrow> f (i + n) (xs ! n) = Ok (ys ! n)"
proof (induction xs arbitrary: i ys n)
  case (Cons x xs)
  then show ?case by (cases n) (auto simp: bindE_Ok dest: Cons.IH)
qed simp

lemma mapE_image: "mapE f i xs = Ok ys \<Longrightarrow> y \<in> set ys \<Longrightarrow> \<exists>j x. x \<in> set xs \<and> f j x = Ok y"
  using mapE_length mapE_nth by (metis in_set_conv_nth)

lemma mapE_idem:
  assumes "mapE f i xs = Ok ys" "\<And>j x y. f j x = Ok y \<Longrightarrow> f j y = Ok y"
  shows "mapE f i ys = Ok ys"
  using assms(1)
proof (induction xs arbitrary: i ys)
  case (Cons x xs)
  then show ?case by (auto simp: bindE_Ok assms(2))
qed simp

text \<open>The same loop with a set or map threaded through it.\<close>

fun mapAccumE :: "(nat \<Rightarrow> 's \<Rightarrow> 'a \<Rightarrow> 'e + ('b \<times> 's)) \<Rightarrow> nat \<Rightarrow> 's \<Rightarrow> 'a list \<Rightarrow> 'e + ('b list \<times> 's)" where
  "mapAccumE f i s [] = Ok ([], s)"
| "mapAccumE f i s (x # xs) =
     bindE (f i s x) (\<lambda>(y, s'). bindE (mapAccumE f (i + 1) s' xs) (\<lambda>(ys, t). Ok (y # ys, t)))"

lemma mapAccumE_Cons:
  "mapAccumE f i s (x # xs) = Ok (zs, t) \<longleftrightarrow>
     (\<exists>y ys s'. f i s x = Ok (y, s') \<and> mapAccumE f (i + 1) s' xs = Ok (ys, t) \<and> zs = y # ys)"
  by (auto simp: bindE_Ok)

lemma mapAccumE_length: "mapAccumE f i s xs = Ok (ys, t) \<Longrightarrow> length ys = length xs"
proof (induction xs arbitrary: i s ys)
  case (Cons x xs)
  then show ?case unfolding mapAccumE_Cons by auto
qed simp

lemma mapAccumE_idem:
  assumes "mapAccumE f i s xs = Ok (ys, t)" "\<And>j u x y v. f j u x = Ok (y, v) \<Longrightarrow> f j u y = Ok (y, v)"
  shows "mapAccumE f i s ys = Ok (ys, t)"
  using assms(1)
proof (induction xs arbitrary: i s ys)
  case (Cons x xs)
  then obtain y zs s' where c: "f i s x = Ok (y, s')" "mapAccumE f (i + 1) s' xs = Ok (zs, t)" "ys = y # zs"
    unfolding mapAccumE_Cons by blast
  then show ?case
    using assms(2) [OF c(1)] Cons.IH [OF c(2)] by simp
qed simp

text \<open>
  An invariant of the threaded state and a property of the values that hold at every
  step hold of the whole loop.
\<close>

lemma mapAccumE_invariant:
  assumes "mapAccumE f i s xs = Ok (ys, t)" "I [] s"
    and step: "\<And>j u x y v acc. f j u x = Ok (y, v) \<Longrightarrow> I acc u \<Longrightarrow> I (acc @ [y]) v"
  shows "I ys t"
proof -
  have "I (acc @ ys) t" if "mapAccumE f i s xs = Ok (ys, t)" "I acc s" for acc
    using that
  proof (induction xs arbitrary: i s ys acc)
    case (Cons x xs)
    then obtain y zs s' where c: "f i s x = Ok (y, s')" "mapAccumE f (i + 1) s' xs = Ok (zs, t)" "ys = y # zs"
      unfolding mapAccumE_Cons by blast
    then show ?case
      using Cons.IH [OF c(2) step [OF c(1) Cons.prems(2)]] by simp
  qed simp
  then show ?thesis
    using assms(1,2) by fastforce
qed

text \<open>A library in which every string is ASCII, for concrete evaluations.\<close>

definition asciiLib :: golib where
  "asciiLib =
     \<lparr>gl_lower = (\<lambda>s. s), gl_upper = (\<lambda>s. s), gl_regexp = (\<lambda>s. True), gl_urlParse = (\<lambda>s. None),
      gl_jsonValid = (\<lambda>s. True), gl_sha256 = (\<lambda>s. replicate 32 0), gl_validHostHeader = (\<lambda>s. True),
      gl_validHeaderFieldName = list_all tokenChar, gl_validHeaderFieldValue = (\<lambda>s. True)\<rparr>"

lemma asciiLib_ok: "case_ok asciiLib"
  by (simp add: case_ok_def asciiLib_def ToLower_def ToUpper_def)

end
