(* ===== verification/Policy_Compression.thy ===== *)
theory Policy_Compression
  imports Go_Strings
begin

section \<open>The compression policy\<close>

text \<open>
  \<open>internal/policy/compression.go\<close>: the policy record, its default and
  \<open>NormalizeAndValidate\<close>, which returns the normalised policy or the first error. The
  model of \<open>mime.ParseMediaType\<close> is exact on values without parameters; a value with
  one is never accepted here, since the media type alone is shorter than the value,
  and after a wildcard the appended \<open>plain\<close> would have to end a parameter value.
\<close>

record CompressionPolicy =
  cp_enabled :: bool
  cp_extensions :: "string list"
  cp_excludedExtensions :: "string list"
  cp_mimeTypes :: "string list"
  cp_recompress :: bool
  cp_minimumLength :: int
  cp_maximumLength :: int
  cp_excludedPaths :: "string list"

datatype compression_error =
    NegativeMinimumLength | MaximumLengthRange | MinimumAboveMaximum
  | InvalidExtension string string | DuplicateExtension string string
  | InvalidMIMEType string | DuplicateMIMEType string
  | PathWithoutSlash string | DuplicateExcludedPath string
  | NothingToCompress

definition defaultCompressionMaxLength :: int where
  "defaultCompressionMaxLength = 10 * 2 ^ 20"

definition maximumCompressionLength :: int where
  "maximumCompressionLength = 64 * 2 ^ 20"

definition DefaultCompressionPolicy :: CompressionPolicy where
  "DefaultCompressionPolicy =
     \<lparr>cp_enabled = False,
      cp_extensions = [''css'', ''csv'', ''htm'', ''html'', ''js'', ''json'', ''map'', ''md'', ''mjs'', ''svg'', ''txt'',
                       ''wasm'', ''xml''],
      cp_excludedExtensions = [''7z'', ''avif'', ''br'', ''bz2'', ''gif'', ''gz'', ''jpeg'', ''jpg'', ''mov'', ''mp3'',
                       ''mp4'', ''pdf'', ''png'', ''rar'', ''webm'', ''webp'', ''zip'', ''zst''],
      cp_mimeTypes = [''application/javascript'', ''application/json'', ''application/manifest+json'',
                      ''application/wasm'', ''application/xml'', ''image/svg+xml'', ''text/*''],
      cp_recompress = False, cp_minimumLength = 1024, cp_maximumLength = defaultCompressionMaxLength,
      cp_excludedPaths = []\<rparr>"

fun extensionPattern :: "string \<Rightarrow> bool" where
  "extensionPattern [] \<longleftrightarrow> False"
| "extensionPattern (c # s) \<longleftrightarrow>
     (isLower c \<or> isDigit c) \<and> list_all (\<lambda>d. isLower d \<or> isDigit d \<or> d \<in> set ''_+-'') s"

definition extensionValue :: "golib \<Rightarrow> string \<Rightarrow> string" where
  "extensionValue L value = TrimPrefix (lowerTrim L value) ''.''"

definition normalizeExtension :: "golib \<Rightarrow> string \<Rightarrow> string \<Rightarrow> compression_error + string" where
  "normalizeExtension L field value =
     (let value = extensionValue L value
      in if \<not> extensionPattern value then Err (InvalidExtension field value) else Ok value)"

definition normalizeCompressionExtensions :: "golib \<Rightarrow> string list \<Rightarrow> string \<Rightarrow> compression_error + string list" where
  "normalizeCompressionExtensions L values field =
     bindE (normUnique (normalizeExtension L field) (\<lambda>v. v)
              (\<lambda>value. DuplicateExtension field (extensionValue L value)) [] values)
       (\<lambda>result. Ok (sort result))"

definition mimeTokenChar :: "char \<Rightarrow> bool" where
  "mimeTokenChar c \<longleftrightarrow> graphic c \<and> c \<notin> set (''()<>@,;:/[]?='' @ [CHR 0x22, CHR 0x5C])"

definition checkMediaType :: "string \<Rightarrow> bool" where
  "checkMediaType s =
     (let typ = takeWhile mimeTokenChar s; rest = dropWhile mimeTokenChar s
      in typ \<noteq> [] \<and>
         (rest = [] \<or>
          (hd rest = CHR ''/'' \<and> takeWhile mimeTokenChar (tl rest) \<noteq> []
           \<and> dropWhile mimeTokenChar (tl rest) = [])))"

definition ParseMediaType :: "golib \<Rightarrow> string \<Rightarrow> string option" where
  "ParseMediaType L v =
     (if CHR '';'' \<in> set v then None
      else let mediatype = TrimSpace (ToLower L v)
           in if checkMediaType mediatype then Some mediatype else None)"

definition normalizeMIMEType :: "golib \<Rightarrow> string \<Rightarrow> compression_error + string" where
  "normalizeMIMEType L value =
     (let value = lowerTrim L value
      in if HasSuffix value ''/*''
         then (if ParseMediaType L (TrimSuffix value ''*'' @ ''plain'') = None
               then Err (InvalidMIMEType value) else Ok value)
         else if ParseMediaType L value \<noteq> Some value then Err (InvalidMIMEType value)
         else Ok value)"

definition normalizeExcludedPath :: "string \<Rightarrow> compression_error + string" where
  "normalizeExcludedPath value =
     (let value = TrimSpace value
      in if value = [] \<or> \<not> HasPrefix value ''/'' then Err (PathWithoutSlash value) else Ok value)"

definition CompressionPolicy_NormalizeAndValidate ::
  "golib \<Rightarrow> CompressionPolicy \<Rightarrow> compression_error + CompressionPolicy" where
  "CompressionPolicy_NormalizeAndValidate L p0 =
     (let p1 = (if cp_minimumLength p0 = 0 then p0\<lparr>cp_minimumLength := 1024\<rparr> else p0);
          p = (if cp_maximumLength p1 = 0 then p1\<lparr>cp_maximumLength := defaultCompressionMaxLength\<rparr> else p1)
      in if cp_minimumLength p < 0 then Err NegativeMinimumLength
         else if cp_maximumLength p < 1 \<or> cp_maximumLength p > maximumCompressionLength then Err MaximumLengthRange
         else if cp_minimumLength p > cp_maximumLength p then Err MinimumAboveMaximum
         else
           bindE (normalizeCompressionExtensions L (cp_extensions p) ''extensions'') (\<lambda>exts.
           bindE (normalizeCompressionExtensions L (cp_excludedExtensions p) ''excluded_extensions'') (\<lambda>excluded.
           bindE (normUnique (normalizeMIMEType L) (\<lambda>v. v) (\<lambda>v. DuplicateMIMEType (lowerTrim L v)) [] (cp_mimeTypes p)) (\<lambda>mimes.
           bindE (normUnique normalizeExcludedPath (\<lambda>v. v) (\<lambda>v. DuplicateExcludedPath (TrimSpace v)) [] (cp_excludedPaths p)) (\<lambda>paths.
             let q = p\<lparr>cp_extensions := exts, cp_excludedExtensions := excluded,
                       cp_mimeTypes := sort mimes, cp_excludedPaths := sort paths\<rparr>
             in if cp_enabled q \<and> length (cp_extensions q) = 0 \<and> length (cp_mimeTypes q) = 0
                then Err NothingToCompress else Ok q)))))"

subsection \<open>Normal forms\<close>

lemma extension_chars: "extensionPattern v \<Longrightarrow> list_all (\<lambda>c. graphic c \<and> \<not> isUpper c) v"
  by (cases v) (auto simp: list_all_iff graphic_def between_def)

lemma extensionValue_id:
  assumes "extensionPattern v" shows "extensionValue L v = v"
proof -
  have g: "list_all graphic v" "list_all (\<lambda>c. \<not> isUpper c) v"
    using extension_chars [OF assms] by (auto simp: list_all_iff)
  then have "lowerTrim L v = v"
    by (simp add: lowerTrim_def TrimSpace_graphic ToLower_id graphic_ASCII)
  moreover have "\<not> HasPrefix v ''.''"
    using assms by (cases v) (auto simp: HasPrefix_def between_def)
  ultimately show ?thesis
    by (simp add: extensionValue_def TrimPrefix_def)
qed

lemma stable_extension:
  "stable (normalizeExtension L field)"
  by (auto simp: stable_def normalizeExtension_def Let_def extensionValue_id split: if_splits)

lemma stable_mime: "case_ok L \<Longrightarrow> stable (normalizeMIMEType L)"
  by (auto simp: stable_def normalizeMIMEType_def Let_def lowerTrim_idem split: if_splits)

lemma stable_path: "stable normalizeExcludedPath"
  by (auto simp: stable_def normalizeExcludedPath_def Let_def split: if_splits)

lemma extensions_sorted:
  assumes "normalizeCompressionExtensions L vs field = Ok es"
  obtains ys where "es = sort ys"
    "normUnique (normalizeExtension L field) (\<lambda>v. v)
       (\<lambda>value. DuplicateExtension field (extensionValue L value)) [] vs = Ok ys"
  using assms by (auto simp: normalizeCompressionExtensions_def bindE_Ok)

lemma extensions_idem:
  assumes "normalizeCompressionExtensions L vs field = Ok es"
  shows "normalizeCompressionExtensions L es field = Ok es"
proof -
  obtain ys where ys: "es = sort ys"
    "normUnique (normalizeExtension L field) (\<lambda>v. v)
       (\<lambda>value. DuplicateExtension field (extensionValue L value)) [] vs = Ok ys"
    using extensions_sorted [OF assms] .
  show ?thesis
    unfolding normalizeCompressionExtensions_def ys(1)
      normUnique_sort_idem [OF ys(2) stable_extension] by simp
qed

lemma extensions_wf:
  assumes "normalizeCompressionExtensions L vs field = Ok es"
  shows "list_all extensionPattern es" "sorted es" "distinct es"
proof -
  obtain ys where ys: "es = sort ys"
    "normUnique (normalizeExtension L field) (\<lambda>v. v)
       (\<lambda>value. DuplicateExtension field (extensionValue L value)) [] vs = Ok ys"
    using extensions_sorted [OF assms] .
  have "extensionPattern y" if "y \<in> set ys" for y
    using normUnique_image [OF ys(2) that] by (auto simp: normalizeExtension_def Let_def split: if_splits)
  then show "list_all extensionPattern es" "sorted es" "distinct es"
    using ys(2) by (simp_all add: ys(1) normUnique_Ok list_all_iff)
qed

definition compression_wf :: "CompressionPolicy \<Rightarrow> bool" where
  "compression_wf p \<longleftrightarrow>
     0 < cp_minimumLength p \<and> cp_minimumLength p \<le> cp_maximumLength p
   \<and> cp_maximumLength p \<le> maximumCompressionLength
   \<and> list_all extensionPattern (cp_extensions p) \<and> list_all extensionPattern (cp_excludedExtensions p)
   \<and> list_all (\<lambda>v. HasPrefix v ''/'' \<and> TrimSpace v = v) (cp_excludedPaths p)
   \<and> list_all (\<lambda>vs. sorted vs \<and> distinct vs)
       [cp_extensions p, cp_excludedExtensions p, cp_mimeTypes p, cp_excludedPaths p]
   \<and> (cp_enabled p \<longrightarrow> cp_extensions p \<noteq> [] \<or> cp_mimeTypes p \<noteq> [])"

lemma NormalizeAndValidate_cases:
  assumes "CompressionPolicy_NormalizeAndValidate L p = Ok q"
  obtains mimes paths where
    "normalizeCompressionExtensions L (cp_extensions p) ''extensions'' = Ok (cp_extensions q)"
    "normalizeCompressionExtensions L (cp_excludedExtensions p) ''excluded_extensions'' = Ok (cp_excludedExtensions q)"
    "normUnique (normalizeMIMEType L) (\<lambda>v. v) (\<lambda>v. DuplicateMIMEType (lowerTrim L v)) [] (cp_mimeTypes p) = Ok mimes"
    "normUnique normalizeExcludedPath (\<lambda>v. v) (\<lambda>v. DuplicateExcludedPath (TrimSpace v)) [] (cp_excludedPaths p) = Ok paths"
    "cp_mimeTypes q = sort mimes" "cp_excludedPaths q = sort paths"
    "0 < cp_minimumLength q" "cp_minimumLength q \<le> cp_maximumLength q"
    "cp_maximumLength q \<le> maximumCompressionLength"
    "cp_enabled q \<longrightarrow> cp_extensions q \<noteq> [] \<or> cp_mimeTypes q \<noteq> []"
  using assms
  by (auto simp: CompressionPolicy_NormalizeAndValidate_def Let_def bindE_Ok split: if_splits)


lemma mimes_wf:
  assumes "normUnique f (\<lambda>v. v) dup [] xs = Ok ys"
  shows "sorted (sort ys)" "distinct (sort ys)"
  using assms by (simp_all add: normUnique_Ok)

lemma paths_wf:
  assumes "normUnique normalizeExcludedPath (\<lambda>v. v) dup [] xs = Ok ys"
  shows "list_all (\<lambda>v. HasPrefix v ''/'' \<and> TrimSpace v = v) ys"
proof -
  have "HasPrefix y ''/'' \<and> TrimSpace y = y" if "y \<in> set ys" for y
    using normUnique_image [OF assms that] by (auto simp: normalizeExcludedPath_def Let_def split: if_splits)
  then show ?thesis by (simp add: list_all_iff)
qed

subsection \<open>Properties\<close>

text \<open>
  Property C29: validating a compression policy is idempotent. What it returns is
  accepted as it is, so saving and loading a policy never changes it again.
\<close>

theorem compression_idempotent:
  assumes "case_ok L" "CompressionPolicy_NormalizeAndValidate L p = Ok q"
  shows "CompressionPolicy_NormalizeAndValidate L q = Ok q"
proof -
  obtain mimes paths where q:
    "normalizeCompressionExtensions L (cp_extensions p) ''extensions'' = Ok (cp_extensions q)"
    "normalizeCompressionExtensions L (cp_excludedExtensions p) ''excluded_extensions'' = Ok (cp_excludedExtensions q)"
    "normUnique (normalizeMIMEType L) (\<lambda>v. v) (\<lambda>v. DuplicateMIMEType (lowerTrim L v)) [] (cp_mimeTypes p) = Ok mimes"
    "normUnique normalizeExcludedPath (\<lambda>v. v) (\<lambda>v. DuplicateExcludedPath (TrimSpace v)) [] (cp_excludedPaths p) = Ok paths"
    "cp_mimeTypes q = sort mimes" "cp_excludedPaths q = sort paths"
    "0 < cp_minimumLength q" "cp_minimumLength q \<le> cp_maximumLength q"
    "cp_maximumLength q \<le> maximumCompressionLength"
    "cp_enabled q \<longrightarrow> cp_extensions q \<noteq> [] \<or> cp_mimeTypes q \<noteq> []"
    using NormalizeAndValidate_cases [OF assms(2)] .
  have m: "normUnique (normalizeMIMEType L) (\<lambda>v. v) (\<lambda>v. DuplicateMIMEType (lowerTrim L v)) [] (cp_mimeTypes q) = Ok (cp_mimeTypes q)"
    unfolding q(5) by (rule normUnique_sort_idem [OF q(3) stable_mime [OF assms(1)]])
  have e: "normUnique normalizeExcludedPath (\<lambda>v. v) (\<lambda>v. DuplicateExcludedPath (TrimSpace v)) [] (cp_excludedPaths q) = Ok (cp_excludedPaths q)"
    unfolding q(6) by (rule normUnique_sort_idem [OF q(4) stable_path])
  have s: "sort (cp_mimeTypes q) = cp_mimeTypes q" "sort (cp_excludedPaths q) = cp_excludedPaths q"
    by (simp_all add: q(5,6))
  show ?thesis
    using q(7-10)
    by (auto simp: CompressionPolicy_NormalizeAndValidate_def Let_def m e s
        extensions_idem [OF q(1)] extensions_idem [OF q(2)])
qed

text \<open>
  Property C30: a policy that validation accepts is well formed. Its lengths are
  positive, ordered and bounded; each list is sorted without duplicates; each
  extension and path has its form; an enabled policy names something to compress.
\<close>

theorem compression_wellformed:
  assumes "CompressionPolicy_NormalizeAndValidate L p = Ok q"
  shows "compression_wf q"
proof -
  obtain mimes paths where q:
    "normalizeCompressionExtensions L (cp_extensions p) ''extensions'' = Ok (cp_extensions q)"
    "normalizeCompressionExtensions L (cp_excludedExtensions p) ''excluded_extensions'' = Ok (cp_excludedExtensions q)"
    "normUnique (normalizeMIMEType L) (\<lambda>v. v) (\<lambda>v. DuplicateMIMEType (lowerTrim L v)) [] (cp_mimeTypes p) = Ok mimes"
    "normUnique normalizeExcludedPath (\<lambda>v. v) (\<lambda>v. DuplicateExcludedPath (TrimSpace v)) [] (cp_excludedPaths p) = Ok paths"
    "cp_mimeTypes q = sort mimes" "cp_excludedPaths q = sort paths"
    "0 < cp_minimumLength q" "cp_minimumLength q \<le> cp_maximumLength q"
    "cp_maximumLength q \<le> maximumCompressionLength"
    "cp_enabled q \<longrightarrow> cp_extensions q \<noteq> [] \<or> cp_mimeTypes q \<noteq> []"
    using NormalizeAndValidate_cases [OF assms] .
  have "list_all (\<lambda>v. HasPrefix v ''/'' \<and> TrimSpace v = v) (cp_excludedPaths q)"
    using paths_wf [OF q(4)] by (simp add: q(6) list_all_iff)
  then show ?thesis
    using q(7-10) extensions_wf [OF q(1)] extensions_wf [OF q(2)] mimes_wf [OF q(3)] mimes_wf [OF q(4)]
    by (simp add: compression_wf_def q(5,6))
qed

definition samplePaths :: CompressionPolicy where
  "samplePaths =
     \<lparr>cp_enabled = True, cp_extensions = ['' .JS'', ''css''], cp_excludedExtensions = [], cp_mimeTypes = [''Text/*''],
      cp_recompress = False, cp_minimumLength = 0, cp_maximumLength = 0, cp_excludedPaths = [''/b'', ''/a'']\<rparr>"

definition samplePathsNormal :: CompressionPolicy where
  "samplePathsNormal =
     \<lparr>cp_enabled = True, cp_extensions = [''css'', ''js''], cp_excludedExtensions = [], cp_mimeTypes = [''text/*''],
      cp_recompress = False, cp_minimumLength = 1024, cp_maximumLength = 10485760,
      cp_excludedPaths = [''/a'', ''/b'']\<rparr>"

lemma samplePaths_ok: "CompressionPolicy_NormalizeAndValidate asciiLib samplePaths = Ok samplePathsNormal"
  by code_simp

theorem compression_idempotent_witness:
  "CompressionPolicy_NormalizeAndValidate asciiLib samplePathsNormal = Ok samplePathsNormal"
  by (rule compression_idempotent [OF asciiLib_ok samplePaths_ok])

theorem compression_wellformed_witness:
  "compression_wf samplePathsNormal"
  by (rule compression_wellformed [OF samplePaths_ok])

end
