(* ===== verification/Policy_Cache.thy ===== *)
theory Policy_Cache
  imports Go_Strings
begin

section \<open>The cache policy\<close>

text \<open>
  \<open>internal/policy/cache.go\<close>: the policy records, the default policy and
  \<open>NormalizeAndValidate\<close> with its helpers, in the order of the source. The map of
  status lifetimes is an association list. The flag \<open>all\<close> of
  \<open>normalizeCacheConditions\<close> is whether a normalised condition has type \<open>ALL\<close>.
\<close>

subsection \<open>Records\<close>

record CacheHeaders =
  ch_xCache :: bool
  ch_age :: bool

record CacheStale =
  cs_enabled :: bool
  cs_ifErrorSeconds :: int
  cs_whileRevalidateSeconds :: int

record CacheTTL =
  ct_defaultSeconds :: int
  ct_status :: "(string \<times> int) list"
  ct_overrideClientTTL :: bool
  ct_clientSeconds :: int

record CacheConditionRule =
  cr_type :: string
  cr_value :: string
  cr_values :: "string list"

record CacheConditionGroup =
  cg_operator :: string
  cg_rules :: "CacheConditionRule list"

record CacheConditions =
  cc_groupOperator :: string
  cc_groups :: "CacheConditionGroup list"

record CacheRule =
  ca_name :: string
  ca_ttl :: CacheTTL
  ca_conditions :: CacheConditions

record QueryKey =
  qk_normalize :: "bool option"
  qk_include :: "string list"
  qk_exclude :: "string list"

record CacheKey =
  ck_parts :: "string list"
  ck_headers :: "string list"
  ck_query :: QueryKey
  ck_cookies :: "string list"
  ck_hash :: bool
  ck_hide :: bool

record CachePolicy =
  cy_responseHeaders :: CacheHeaders
  cy_devMode :: bool
  cy_requestCoalescing :: bool
  cy_cacheRangeRequests :: bool
  cy_maxBodyBytes :: nat
  cy_stale :: CacheStale
  cy_rules :: "CacheRule list"
  cy_methods :: "string list"
  cy_cacheKey :: CacheKey
  cy_bypassCacheControl :: "string list"
  cy_surrogateKeyHeader :: string

datatype cache_error =
    StaleIfErrorRange | StaleRevalidateRange | MaxBodyRange | MethodCount
  | UnsupportedMethod string | DuplicateMethod string
  | UnsupportedKeyPart string | DuplicateKeyPart string | MissingPathPart
  | InvalidKeyHeader string | DuplicateKeyHeader string
  | IncludeAndExclude | InvalidQueryParameter string | DuplicateQueryParameter string
  | InvalidCookieName string | DuplicateCookie string
  | InvalidDirective string | DuplicateDirective string
  | SurrogateHeader | TooManyRules | RuleName nat | DuplicateRuleName string
  | TTLDefault nat | TTLClient nat | TTLStatus nat string
  | GroupOperator nat | GroupCount nat | ConditionOperator nat nat | ConditionCount nat nat
  | AllCombined | ConditionValues nat nat nat | InvalidConditionExtension string
  | ConditionPath string | InvalidPathRegex | UnsupportedConditionType string
  | AllNotLast nat

definition NormalizeEnabled :: "QueryKey \<Rightarrow> bool" where
  "NormalizeEnabled q = (case qk_normalize q of None \<Rightarrow> True | Some b \<Rightarrow> b)"

definition DefaultCachePolicy :: CachePolicy where
  "DefaultCachePolicy =
     \<lparr>cy_responseHeaders = \<lparr>ch_xCache = True, ch_age = True\<rparr>, cy_devMode = False,
      cy_requestCoalescing = True, cy_cacheRangeRequests = True, cy_maxBodyBytes = 64 * 2 ^ 20,
      cy_stale = \<lparr>cs_enabled = True, cs_ifErrorSeconds = 86400, cs_whileRevalidateSeconds = 30\<rparr>,
      cy_rules = [], cy_methods = [''GET'', ''HEAD''],
      cy_cacheKey = \<lparr>ck_parts = [''METHOD'', ''HOST'', ''PATH'', ''QUERY''], ck_headers = [],
         ck_query = \<lparr>qk_normalize = Some True, qk_include = [], qk_exclude = []\<rparr>, ck_cookies = [],
         ck_hash = False, ck_hide = False\<rparr>,
      cy_bypassCacheControl = [''no-store'', ''private''], cy_surrogateKeyHeader = ''Surrogate-Key''\<rparr>"

subsection \<open>Methods, key parts and headers\<close>

definition allowedMethods :: "string list" where
  "allowedMethods = [''GET'', ''HEAD'', ''POST'', ''PUT'', ''PATCH'', ''DELETE'', ''OPTIONS'']"

definition normalizeMethod :: "golib \<Rightarrow> string \<Rightarrow> cache_error + string" where
  "normalizeMethod L method =
     (let method = upperTrim L method
      in if method \<notin> set allowedMethods then Err (UnsupportedMethod method) else Ok method)"

definition coalescingMethods :: "string list" where
  "coalescingMethods = [''GET'', ''HEAD'', ''OPTIONS'']"

definition keyPartOrder :: "string list" where
  "keyPartOrder = [''METHOD'', ''SCHEME'', ''HOST'', ''PATH'', ''QUERY'']"

fun position :: "'a list \<Rightarrow> 'a \<Rightarrow> nat" where
  "position [] x = 0"
| "position (y # ys) x = (if y = x then 0 else Suc (position ys x))"

definition normalizeKeyPart :: "golib \<Rightarrow> string \<Rightarrow> cache_error + string" where
  "normalizeKeyPart L part =
     (let part = upperTrim L part
      in if part \<notin> set keyPartOrder then Err (UnsupportedKeyPart part) else Ok part)"

definition headerNamePattern :: "string \<Rightarrow> bool" where
  "headerNamePattern s \<longleftrightarrow> s \<noteq> [] \<and> list_all tokenChar s"

definition keyHeader :: "string \<Rightarrow> string" where
  "keyHeader header = CanonicalHeaderKey (TrimSpace header)"

fun normalizeKeyHeaders :: "string list \<Rightarrow> string list \<Rightarrow> cache_error + string list" where
  "normalizeKeyHeaders seen [] = Ok []"
| "normalizeKeyHeaders seen (header # headers) =
     (let header = keyHeader header
      in if \<not> headerNamePattern header then Err (InvalidKeyHeader header)
         else if map lowerChar header = ''accept-encoding'' then normalizeKeyHeaders seen headers
         else if header \<in> set seen then Err (DuplicateKeyHeader header)
         else bindE (normalizeKeyHeaders (header # seen) headers) (\<lambda>hs. Ok (header # hs)))"

subsection \<open>Query parameters, cookies and directives\<close>

definition queryChar :: "char \<Rightarrow> bool" where
  "queryChar c \<longleftrightarrow> isUpper c \<or> isLower c \<or> isDigit c \<or> c \<in> set ''_.-''"

definition queryParamPattern :: "string \<Rightarrow> bool" where
  "queryParamPattern s =
     (let t = (if s \<noteq> [] \<and> last s = CHR ''*'' then butlast s else s)
      in t \<noteq> [] \<and> list_all queryChar t)"

definition normalizeQueryParam :: "golib \<Rightarrow> string \<Rightarrow> cache_error + string" where
  "normalizeQueryParam L value =
     (let value = TrimSpace value
      in if value = [] \<or> \<not> queryParamPattern value then Err (InvalidQueryParameter value)
         else Ok (ToLower L value))"

definition normalizeQueryParams :: "golib \<Rightarrow> string list \<Rightarrow> cache_error + string list" where
  "normalizeQueryParams L values =
     bindE (normUnique (normalizeQueryParam L) (\<lambda>v. v) (\<lambda>v. DuplicateQueryParameter (TrimSpace v)) [] values)
       (\<lambda>result. Ok (sort result))"

definition normalizeAndValidateQueryKey :: "golib \<Rightarrow> QueryKey \<Rightarrow> cache_error + QueryKey" where
  "normalizeAndValidateQueryKey L q =
     (let q = (if qk_normalize q = None then q\<lparr>qk_normalize := Some True\<rparr> else q)
      in if length (qk_include q) > 0 \<and> length (qk_exclude q) > 0 then Err IncludeAndExclude
         else bindE (normalizeQueryParams L (qk_include q)) (\<lambda>inc.
              bindE (normalizeQueryParams L (qk_exclude q)) (\<lambda>exc.
                Ok (q\<lparr>qk_include := inc, qk_exclude := exc\<rparr>))))"

definition normalizeCookieName :: "string \<Rightarrow> cache_error + string" where
  "normalizeCookieName name =
     (let name = TrimSpace name
      in if name = [] \<or> \<not> list_all tokenChar name then Err (InvalidCookieName name) else Ok name)"

definition normalizeAndValidateCookieNames :: "string list \<Rightarrow> cache_error + string list" where
  "normalizeAndValidateCookieNames cookies =
     bindE (normUnique normalizeCookieName (\<lambda>v. v) (\<lambda>v. DuplicateCookie (TrimSpace v)) [] cookies)
       (\<lambda>normalized. Ok (sort normalized))"

definition directivePattern :: "string \<Rightarrow> bool" where
  "directivePattern s =
     (let name = takeWhile (\<lambda>c. c \<noteq> CHR ''='') s; rest = dropWhile (\<lambda>c. c \<noteq> CHR ''='') s
      in name \<noteq> [] \<and> isLower (hd name)
         \<and> list_all (\<lambda>c. isLower c \<or> isDigit c \<or> c \<in> set ''_-'') (tl name)
         \<and> (rest = [] \<or> (tl rest \<noteq> [] \<and> list_all (\<lambda>c. isLower c \<or> isDigit c \<or> c \<in> set ''._-'') (tl rest))))"

definition normalizeDirective :: "golib \<Rightarrow> string \<Rightarrow> cache_error + string" where
  "normalizeDirective L directive =
     (let directive = lowerTrim L directive
      in if ContainsAny directive [CHR 0x20, CHR 0x09, CHR 0x0D, CHR 0x0A] then Err (InvalidDirective directive)
         else if \<not> directivePattern directive then Err (InvalidDirective directive)
         else Ok directive)"

subsection \<open>Lifetimes and conditions\<close>

definition statusPattern :: "string \<Rightarrow> bool" where
  "statusPattern s \<longleftrightarrow> length s = 3 \<and> between CHR ''1'' CHR ''5'' (s ! 0) \<and> isDigit (s ! 1) \<and> isDigit (s ! 2)"

definition normalizeCacheTTL :: "nat \<Rightarrow> CacheTTL \<Rightarrow> cache_error + unit" where
  "normalizeCacheTTL index ttl =
     (if ct_defaultSeconds ttl < 1 \<or> ct_defaultSeconds ttl > 31536000 then Err (TTLDefault index)
      else if ct_overrideClientTTL ttl \<and> (ct_clientSeconds ttl < 0 \<or> ct_clientSeconds ttl > 31536000)
      then Err (TTLClient index)
      else (case find (\<lambda>(status, seconds). \<not> statusPattern status \<or> seconds < 1 \<or> seconds > 31536000) (ct_status ttl) of
              Some (status, _) \<Rightarrow> Err (TTLStatus index status)
            | None \<Rightarrow> Ok ()))"

definition booleanOperator :: "string \<Rightarrow> bool" where
  "booleanOperator value \<longleftrightarrow> value = ''AND'' \<or> value = ''OR''"

fun conditionExtensionPattern :: "string \<Rightarrow> bool" where
  "conditionExtensionPattern [] \<longleftrightarrow> False"
| "conditionExtensionPattern (c # s) \<longleftrightarrow>
     (isLower c \<or> isDigit c) \<and> list_all (\<lambda>d. isLower d \<or> isDigit d \<or> d \<in> set ''_-'') s"

definition normalizeConditionExtension :: "golib \<Rightarrow> nat \<Rightarrow> string \<Rightarrow> cache_error + string" where
  "normalizeConditionExtension L i value =
     (let value = TrimPrefix (lowerTrim L value) ''.''
      in if \<not> conditionExtensionPattern value then Err (InvalidConditionExtension value) else Ok value)"

definition normalizeCacheConditionRule ::
  "golib \<Rightarrow> nat \<Rightarrow> nat \<Rightarrow> nat \<Rightarrow> nat \<Rightarrow> nat \<Rightarrow> CacheConditionRule \<Rightarrow> cache_error + CacheConditionRule" where
  "normalizeCacheConditionRule L index groups rules gi ri rule0 =
     (let rule = rule0\<lparr>cr_type := upperTrim L (cr_type rule0)\<rparr>
      in if cr_type rule = ''ALL''
         then (if rules \<noteq> 1 \<or> groups \<noteq> 1 then Err AllCombined else Ok rule)
         else if cr_type rule = ''EXTENSION''
         then (if cr_values rule = [] then Err (ConditionValues index gi ri)
               else bindE (mapE (normalizeConditionExtension L) 0 (cr_values rule))
                      (\<lambda>values. Ok (rule\<lparr>cr_values := values\<rparr>)))
         else if cr_type rule = ''PATH_PREFIX''
         then (if cr_values rule = [] then Err (ConditionValues index gi ri)
               else (case find (\<lambda>value. \<not> HasPrefix value ''/'') (cr_values rule) of
                       Some value \<Rightarrow> Err (ConditionPath value)
                     | None \<Rightarrow> Ok rule))
         else if cr_type rule = ''PATH_REGEX''
         then (let rule = rule\<lparr>cr_value := TrimSpace (cr_value rule)\<rparr>
               in if cr_value rule = [] then Err (ConditionValues index gi ri)
                  else if \<not> gl_regexp L (cr_value rule) then Err InvalidPathRegex
                  else Ok rule)
         else Err (UnsupportedConditionType (cr_type rule)))"

definition normalizeCacheConditionGroup ::
  "golib \<Rightarrow> nat \<Rightarrow> nat \<Rightarrow> nat \<Rightarrow> CacheConditionGroup \<Rightarrow> cache_error + CacheConditionGroup" where
  "normalizeCacheConditionGroup L index groups gi group0 =
     (let group = group0\<lparr>cg_operator := upperTrim L (cg_operator group0)\<rparr>
      in if \<not> booleanOperator (cg_operator group) then Err (ConditionOperator index gi)
         else if length (cg_rules group) = 0 \<or> length (cg_rules group) > 32 then Err (ConditionCount index gi)
         else bindE (mapE (normalizeCacheConditionRule L index groups (length (cg_rules group)) gi) 0 (cg_rules group))
                (\<lambda>rules. Ok (group\<lparr>cg_rules := rules\<rparr>)))"

definition hasAll :: "CacheConditions \<Rightarrow> bool" where
  "hasAll conditions = list_ex (\<lambda>g. list_ex (\<lambda>r. cr_type r = ''ALL'') (cg_rules g)) (cc_groups conditions)"

definition normalizeCacheConditions :: "golib \<Rightarrow> nat \<Rightarrow> CacheConditions \<Rightarrow> cache_error + (CacheConditions \<times> bool)" where
  "normalizeCacheConditions L index conditions0 =
     (let conditions = conditions0\<lparr>cc_groupOperator :=
            (let operator = upperTrim L (cc_groupOperator conditions0) in if operator = [] then ''OR'' else operator)\<rparr>
      in if \<not> booleanOperator (cc_groupOperator conditions) then Err (GroupOperator index)
         else if length (cc_groups conditions) = 0 \<or> length (cc_groups conditions) > 16 then Err (GroupCount index)
         else bindE (mapE (normalizeCacheConditionGroup L index (length (cc_groups conditions))) 0 (cc_groups conditions))
                (\<lambda>groups. let conditions = conditions\<lparr>cc_groups := groups\<rparr> in Ok (conditions, hasAll conditions)))"

subsection \<open>The policy\<close>

fun normalizeCacheRules :: "golib \<Rightarrow> nat \<Rightarrow> nat \<Rightarrow> string list \<Rightarrow> CacheRule list \<Rightarrow> cache_error + CacheRule list" where
  "normalizeCacheRules L n index seenNames [] = Ok []"
| "normalizeCacheRules L n index seenNames (rule0 # rules) =
     (let rule = rule0\<lparr>ca_name := TrimSpace (ca_name rule0)\<rparr>
      in if ca_name rule = [] \<or> length (ca_name rule) > 80 then Err (RuleName index)
         else let key = ToLower L (ca_name rule)
         in if key \<in> set seenNames then Err (DuplicateRuleName (ca_name rule))
         else bindE (normalizeCacheTTL index (ca_ttl rule)) (\<lambda>_.
              bindE (normalizeCacheConditions L index (ca_conditions rule)) (\<lambda>(conditions, all).
              if all \<and> int index \<noteq> int n - 1 then Err (AllNotLast index)
              else bindE (normalizeCacheRules L n (index + 1) (key # seenNames) rules)
                     (\<lambda>rs. Ok (rule\<lparr>ca_conditions := conditions\<rparr> # rs)))))"

definition normalizeKey :: "golib \<Rightarrow> CacheKey \<Rightarrow> cache_error + CacheKey" where
  "normalizeKey L key =
     bindE (normUnique (normalizeKeyPart L) (\<lambda>v. v) (\<lambda>v. DuplicateKeyPart (upperTrim L v)) [] (ck_parts key)) (\<lambda>parts.
     if ''PATH'' \<notin> set parts then Err MissingPathPart
     else
     bindE (normalizeKeyHeaders [] (ck_headers key)) (\<lambda>headers.
     bindE (normalizeAndValidateQueryKey L (ck_query key)) (\<lambda>query.
     bindE (normalizeAndValidateCookieNames (ck_cookies key)) (\<lambda>cookies.
       Ok (key\<lparr>ck_parts := sort_key (position keyPartOrder) parts, ck_headers := sort headers,
               ck_query := query, ck_cookies := cookies\<rparr>)))))"

definition CachePolicy_NormalizeAndValidate :: "golib \<Rightarrow> CachePolicy \<Rightarrow> cache_error + CachePolicy" where
  "CachePolicy_NormalizeAndValidate L p =
     (if cs_enabled (cy_stale p) \<and> (cs_ifErrorSeconds (cy_stale p) < 1 \<or> cs_ifErrorSeconds (cy_stale p) > 31536000)
      then Err StaleIfErrorRange
      else if cs_enabled (cy_stale p)
        \<and> (cs_whileRevalidateSeconds (cy_stale p) < 0 \<or> cs_whileRevalidateSeconds (cy_stale p) > 31536000)
      then Err StaleRevalidateRange
      else if cy_maxBodyBytes p < 1 \<or> cy_maxBodyBytes p > 4 * 2 ^ 30 then Err MaxBodyRange
      else if length (cy_methods p) = 0 \<or> length (cy_methods p) > 8 then Err MethodCount
      else
        bindE (normUnique (normalizeMethod L) (\<lambda>v. v) (\<lambda>v. DuplicateMethod (upperTrim L v)) [] (cy_methods p)) (\<lambda>methods.
        bindE (normalizeKey L (cy_cacheKey p)) (\<lambda>key.
        bindE (normUnique (normalizeDirective L) (\<lambda>v. v) (\<lambda>v. DuplicateDirective (lowerTrim L v)) []
                 (cy_bypassCacheControl p)) (\<lambda>directives.
        let surrogate = keyHeader (cy_surrogateKeyHeader p);
            surrogate = (if surrogate = [] then ''Surrogate-Key'' else surrogate)
        in if surrogate \<noteq> ''Surrogate-Key'' then Err SurrogateHeader
           else if length (cy_rules p) > 32 then Err TooManyRules
           else
             bindE (normalizeCacheRules L (length (cy_rules p)) 0 [] (cy_rules p)) (\<lambda>rules.
               Ok (p\<lparr>cy_methods := sort methods,
                     cy_requestCoalescing := (cy_requestCoalescing p \<and> list_all (\<lambda>m. m \<in> set coalescingMethods) (sort methods)),
                     cy_cacheKey := key, cy_bypassCacheControl := sort directives,
                     cy_surrogateKeyHeader := surrogate, cy_rules := rules\<rparr>))))))"

subsection \<open>Normal forms of the parts\<close>

lemma stable_method: "case_ok L \<Longrightarrow> stable (normalizeMethod L)"
  by (auto simp: stable_def normalizeMethod_def Let_def lowerTrim_idem split: if_splits)

lemma stable_keyPart: "case_ok L \<Longrightarrow> stable (normalizeKeyPart L)"
  by (auto simp: stable_def normalizeKeyPart_def Let_def lowerTrim_idem split: if_splits)

lemma stable_directive: "case_ok L \<Longrightarrow> stable (normalizeDirective L)"
  by (auto simp: stable_def normalizeDirective_def Let_def lowerTrim_idem split: if_splits)

lemma stable_cookie: "stable normalizeCookieName"
  by (auto simp: stable_def normalizeCookieName_def Let_def split: if_splits)

lemma queryChar_graphic: "queryChar c \<Longrightarrow> graphic c"
  by (auto simp: queryChar_def graphic_def between_def)

lemma queryParam_cases:
  assumes "queryParamPattern s"
  obtains t where "t \<noteq> []" "list_all queryChar t" "s = t \<or> s = t @ ''*''"
proof (cases "s \<noteq> [] \<and> last s = CHR ''*''")
  case True
  then have "s = butlast s @ ''*''"
    by (metis append_butlast_last_id)
  then show ?thesis
    using that [of "butlast s"] assms True by (auto simp: queryParamPattern_def Let_def)
next
  case False
  then have "s \<noteq> [] \<and> list_all queryChar s"
    using assms by (auto simp: queryParamPattern_def Let_def split: if_splits)
  then show ?thesis
    using that [of s] by blast
qed

lemma star_no_queryChar: "\<not> queryChar CHR ''*''"
  by (simp add: queryChar_def between_def)

lemma queryParam_intro:
  assumes "t \<noteq> []" "list_all queryChar t"
  shows "queryParamPattern t" "queryParamPattern (t @ ''*'')"
proof -
  have "last t \<noteq> CHR ''*''"
    using assms star_no_queryChar last_in_set [of t] by (metis list_all_iff)
  then show "queryParamPattern t" "queryParamPattern (t @ ''*'')"
    using assms by (simp_all add: queryParamPattern_def)
qed

lemma queryParam_graphic: "queryParamPattern s \<Longrightarrow> list_all graphic s"
proof (erule queryParam_cases)
  fix t assume "list_all queryChar t" "s = t \<or> s = t @ ''*''"
  moreover have "graphic CHR ''*''"
    by (simp add: graphic_def)
  ultimately show "list_all graphic s"
    using queryChar_graphic by (auto simp: list_all_iff)
qed

lemma lower_queryChar: "queryChar c \<Longrightarrow> queryChar (lowerChar c)"
proof (cases "isUpper c")
  case True
  then have "isLower (lowerChar c)"
    by (simp add: between_def lowerChar_code)
  then show ?thesis by (simp add: queryChar_def)
next
  case False
  then show "queryChar c \<Longrightarrow> ?thesis" by (simp add: lowerChar_id)
qed

lemma queryParam_lower: "queryParamPattern s \<Longrightarrow> queryParamPattern (map lowerChar s)"
proof (erule queryParam_cases)
  fix t assume t: "t \<noteq> []" "list_all queryChar t" "s = t \<or> s = t @ ''*''"
  have "list_all queryChar (map lowerChar t)" "map lowerChar t \<noteq> []"
    using t lower_queryChar by (auto simp: list_all_iff)
  moreover have "lowerChar CHR ''*'' = CHR ''*''"
    by (simp add: lowerChar_def between_def)
  ultimately show ?thesis
    using t(3) queryParam_intro [of "map lowerChar t"] by auto
qed

lemma stable_queryParam: "stable (normalizeQueryParam L)"
proof -
  have "normalizeQueryParam L y = Ok y" if "normalizeQueryParam L x = Ok y" for x y
  proof -
    let ?x = "TrimSpace x"
    have q: "queryParamPattern ?x" "y = ToLower L ?x"
      using that by (auto simp: normalizeQueryParam_def Let_def split: if_splits)
    then have y: "y = map lowerChar ?x"
      by (simp add: ToLower_def graphic_ASCII [OF queryParam_graphic])
    have qy: "queryParamPattern y"
      unfolding y by (rule queryParam_lower [OF q(1)])
    have "TrimSpace y = y" "isASCII y"
      by (simp_all add: TrimSpace_graphic graphic_ASCII queryParam_graphic [OF qy])
    moreover have "map lowerChar y = y"
      by (simp add: y)
    moreover have "y \<noteq> []"
      using qy by (auto simp: queryParamPattern_def)
    ultimately show ?thesis
      using qy by (simp add: normalizeQueryParam_def ToLower_def)
  qed
  then show ?thesis by (simp add: stable_def)
qed

lemma sorted_unique_idem:
  assumes "stable f" "bindE (normUnique f (\<lambda>v. v) dup [] xs) (\<lambda>r. Ok (sort r)) = Ok ys"
  shows "bindE (normUnique f (\<lambda>v. v) dup [] ys) (\<lambda>r. Ok (sort r)) = Ok ys"
proof -
  obtain r where r: "normUnique f (\<lambda>v. v) dup [] xs = Ok r" "ys = sort r"
    using assms(2) by (auto simp: bindE_Ok)
  show ?thesis
    unfolding r(2) normUnique_sort_idem [OF r(1) assms(1)] by simp
qed

lemma cookies_idem:
  "normalizeAndValidateCookieNames cs = Ok ds \<Longrightarrow> normalizeAndValidateCookieNames ds = Ok ds"
  unfolding normalizeAndValidateCookieNames_def by (rule sorted_unique_idem [OF stable_cookie])

lemma queryParams_idem: "normalizeQueryParams L vs = Ok ws \<Longrightarrow> normalizeQueryParams L ws = Ok ws"
  unfolding normalizeQueryParams_def by (rule sorted_unique_idem [OF stable_queryParam])

lemma queryParams_length: "normalizeQueryParams L vs = Ok ws \<Longrightarrow> length ws = length vs"
  by (auto simp: normalizeQueryParams_def bindE_Ok normUnique_Ok dest: list_all2_lengthD)

lemma queryKey_idem:
  assumes "normalizeAndValidateQueryKey L q = Ok r"
  shows "normalizeAndValidateQueryKey L r = Ok r" and "qk_include r = [] \<or> qk_exclude r = []"
proof -
  have n: "qk_normalize r \<noteq> None"
    and i: "normalizeQueryParams L (qk_include q) = Ok (qk_include r)"
    and e: "normalizeQueryParams L (qk_exclude q) = Ok (qk_exclude r)"
    and x: "qk_include q = [] \<or> qk_exclude q = []"
    using assms by (auto simp: normalizeAndValidateQueryKey_def Let_def bindE_Ok split: if_splits)
  show x': "qk_include r = [] \<or> qk_exclude r = []"
    using x queryParams_length [OF i] queryParams_length [OF e] by auto
  show "normalizeAndValidateQueryKey L r = Ok r"
    using n x' queryParams_idem [OF i] queryParams_idem [OF e]
    by (auto simp: normalizeAndValidateQueryKey_def Let_def)
qed

definition goodHeader :: "string \<Rightarrow> bool" where
  "goodHeader y \<longleftrightarrow> keyHeader y = y \<and> headerNamePattern y \<and> map lowerChar y \<noteq> ''accept-encoding''"

lemma keyHeader_fixed [simp]: "keyHeader (keyHeader h) = keyHeader h"
  by (simp add: keyHeader_def canonical_trimmed trimmed_id)

lemma keyHeaders_Ok:
  "normalizeKeyHeaders seen hs = Ok ys \<Longrightarrow> list_all goodHeader ys \<and> distinct ys \<and> set ys \<inter> set seen = {}"
proof (induction hs arbitrary: seen ys)
  case (Cons h hs)
  let ?h = "keyHeader h"
  show ?case
  proof (cases "map lowerChar ?h = ''accept-encoding''")
    case True
    then show ?thesis
      using Cons by (auto simp: Let_def split: if_splits)
  next
    case False
    then obtain zs where zs: "normalizeKeyHeaders (?h # seen) hs = Ok zs" "ys = ?h # zs"
        "headerNamePattern ?h" "?h \<notin> set seen"
      using Cons.prems by (auto simp: Let_def bindE_Ok split: if_splits)
    then show ?thesis
      using Cons.IH [OF zs(1)] False by (auto simp: goodHeader_def)
  qed
qed simp

lemma keyHeaders_fixed:
  "\<lbrakk>list_all goodHeader ys; distinct ys; set ys \<inter> set seen = {}\<rbrakk> \<Longrightarrow> normalizeKeyHeaders seen ys = Ok ys"
proof (induction ys arbitrary: seen)
  case (Cons y ys)
  then have "normalizeKeyHeaders (y # seen) ys = Ok ys"
    by (intro Cons.IH) auto
  then show ?case
    using Cons.prems by (simp add: goodHeader_def)
qed simp

lemma keyHeaders_idem:
  "normalizeKeyHeaders [] hs = Ok ys \<Longrightarrow> normalizeKeyHeaders [] (sort ys) = Ok (sort ys)"
  using keyHeaders_Ok [of "[]" hs ys] by (intro keyHeaders_fixed) (auto simp: list_all_iff)

subsection \<open>Normal forms of the rules\<close>

lemma conditionExtension_idem:
  assumes "normalizeConditionExtension L i x = Ok y"
  shows "normalizeConditionExtension L i y = Ok y"
proof -
  have p: "conditionExtensionPattern y"
    using assms by (auto simp: normalizeConditionExtension_def Let_def split: if_splits)
  then have "list_all (\<lambda>c. graphic c \<and> \<not> isUpper c) y"
    by (cases y) (auto simp: list_all_iff graphic_def between_def)
  then have "lowerTrim L y = y"
    by (simp add: lowerTrim_def TrimSpace_graphic ToLower_id graphic_ASCII list_all_iff)
  moreover have "\<not> HasPrefix y ''.''"
    using p by (cases y) (auto simp: HasPrefix_def between_def)
  ultimately show ?thesis
    using p by (simp add: normalizeConditionExtension_def TrimPrefix_def)
qed

lemma conditionRule_type:
  "normalizeCacheConditionRule L index groups rules gi ri r = Ok s \<Longrightarrow> cr_type s = upperTrim L (cr_type r)"
  by (auto simp: normalizeCacheConditionRule_def Let_def bindE_Ok split: if_splits option.splits)

lemma conditionRule_idem:
  assumes "case_ok L" "normalizeCacheConditionRule L index groups rules gi ri r = Ok s"
  shows "normalizeCacheConditionRule L index groups rules gi ri s = Ok s"
proof -
  note t = conditionRule_type [OF assms(2)]
  have u: "s\<lparr>cr_type := upperTrim L (cr_type s)\<rparr> = s"
    by (simp add: t lowerTrim_idem assms(1))
  consider "cr_type s = ''ALL''" | "cr_type s = ''EXTENSION''" | "cr_type s = ''PATH_PREFIX''" | "cr_type s = ''PATH_REGEX''"
    using assms(2) t by (auto simp: normalizeCacheConditionRule_def Let_def split: if_splits)
  then show ?thesis
  proof cases
    case 1
    then show ?thesis
      using assms(2) t u by (auto simp: normalizeCacheConditionRule_def Let_def split: if_splits)
  next
    case 2
    then have m: "mapE (normalizeConditionExtension L) 0 (cr_values r) = Ok (cr_values s)" "cr_values r \<noteq> []"
      using assms(2) t by (auto simp: normalizeCacheConditionRule_def Let_def bindE_Ok split: if_splits)
    have "mapE (normalizeConditionExtension L) 0 (cr_values s) = Ok (cr_values s)" "cr_values s \<noteq> []"
      using mapE_idem [OF m(1) conditionExtension_idem] mapE_length [OF m(1)] m(2) by auto
    then show ?thesis
      using 2 u by (simp add: normalizeCacheConditionRule_def Let_def)
  next
    case 3
    then show ?thesis
      using assms(2) t u by (auto simp: normalizeCacheConditionRule_def Let_def split: if_splits option.splits)
  next
    case 4
    then have "cr_value s = TrimSpace (cr_value r)" "cr_value s \<noteq> []" "gl_regexp L (cr_value s)"
      using assms(2) t by (auto simp: normalizeCacheConditionRule_def Let_def split: if_splits)
    moreover have "s\<lparr>cr_value := TrimSpace (cr_value s)\<rparr> = s"
      by (simp add: calculation(1))
    ultimately show ?thesis
      using 4 u by (simp add: normalizeCacheConditionRule_def Let_def)
  qed
qed

lemma conditionGroup_idem:
  assumes "case_ok L" "normalizeCacheConditionGroup L index groups gi g = Ok h"
  shows "normalizeCacheConditionGroup L index groups gi h = Ok h"
proof -
  have m: "mapE (normalizeCacheConditionRule L index groups (length (cg_rules g)) gi) 0 (cg_rules g) = Ok (cg_rules h)"
    and o: "cg_operator h = upperTrim L (cg_operator g)" "booleanOperator (cg_operator h)"
    and n: "0 < length (cg_rules g)" "length (cg_rules g) \<le> 32"
    using assms(2) by (auto simp: normalizeCacheConditionGroup_def Let_def bindE_Ok split: if_splits)
  have l: "length (cg_rules h) = length (cg_rules g)"
    by (rule mapE_length [OF m])
  have "mapE (normalizeCacheConditionRule L index groups (length (cg_rules h)) gi) 0 (cg_rules h) = Ok (cg_rules h)"
    unfolding l by (rule mapE_idem [OF m conditionRule_idem [OF assms(1)]])
  moreover have "h\<lparr>cg_operator := upperTrim L (cg_operator h)\<rparr> = h"
    by (simp add: o(1) lowerTrim_idem assms(1))
  ultimately show ?thesis
    using o(2) n l by (simp add: normalizeCacheConditionGroup_def Let_def)
qed

lemma conditions_idem:
  assumes "case_ok L" "normalizeCacheConditions L index c = Ok (d, all)"
  shows "normalizeCacheConditions L index d = Ok (d, all)"
proof -
  let ?o = "upperTrim L (cc_groupOperator c)"
  have m: "mapE (normalizeCacheConditionGroup L index (length (cc_groups c))) 0 (cc_groups c) = Ok (cc_groups d)"
    and o: "cc_groupOperator d = (if ?o = [] then ''OR'' else ?o)" "booleanOperator (cc_groupOperator d)"
    and n: "0 < length (cc_groups c)" "length (cc_groups c) \<le> 16" and a: "all = hasAll d"
    using assms(2) by (auto simp: normalizeCacheConditions_def Let_def bindE_Ok split: if_splits)
  have l: "length (cc_groups d) = length (cc_groups c)"
    by (rule mapE_length [OF m])
  have "mapE (normalizeCacheConditionGroup L index (length (cc_groups d))) 0 (cc_groups d) = Ok (cc_groups d)"
    unfolding l by (rule mapE_idem [OF m conditionGroup_idem [OF assms(1)]])
  moreover have "upperTrim L ''OR'' = ''OR''"
    by (simp add: upperTrim_def ToUpper_def TrimSpace_graphic graphic_def isASCII_def upperChar_def between_def)
  then have "upperTrim L (cc_groupOperator d) = cc_groupOperator d"
    by (simp add: o(1) lowerTrim_idem assms(1))
  moreover have "cc_groupOperator d \<noteq> []"
    using o(2) by (auto simp: booleanOperator_def)
  ultimately show ?thesis
    using o(2) n l a by (simp add: normalizeCacheConditions_def Let_def)
qed

text \<open>The shape of validated rules, by position.\<close>

definition rule_ok :: "golib \<Rightarrow> nat \<Rightarrow> nat \<Rightarrow> CacheRule \<Rightarrow> bool" where
  "rule_ok L n i r \<longleftrightarrow>
     TrimSpace (ca_name r) = ca_name r \<and> ca_name r \<noteq> [] \<and> length (ca_name r) \<le> 80
   \<and> normalizeCacheTTL i (ca_ttl r) = Ok ()
   \<and> normalizeCacheConditions L i (ca_conditions r) = Ok (ca_conditions r, hasAll (ca_conditions r))
   \<and> (hasAll (ca_conditions r) \<longrightarrow> i + 1 = n)"

fun rules_ok :: "golib \<Rightarrow> nat \<Rightarrow> nat \<Rightarrow> string list \<Rightarrow> CacheRule list \<Rightarrow> bool" where
  "rules_ok L n i seen [] \<longleftrightarrow> True"
| "rules_ok L n i seen (r # rs) \<longleftrightarrow>
     rule_ok L n i r \<and> ToLower L (ca_name r) \<notin> set seen
   \<and> rules_ok L n (i + 1) (ToLower L (ca_name r) # seen) rs"

lemma conditions_all:
  "normalizeCacheConditions L index c = Ok (d, all) \<Longrightarrow> all = hasAll d"
  by (auto simp: normalizeCacheConditions_def Let_def bindE_Ok split: if_splits)

lemma rules_normal:
  assumes "case_ok L"
  shows "normalizeCacheRules L n i seen rs = Ok ss \<Longrightarrow> rules_ok L n i seen ss \<and> length ss = length rs"
proof (induction rs arbitrary: i seen ss)
  case (Cons r rs)
  let ?name = "TrimSpace (ca_name r)"
  obtain d all ts where ok: "?name \<noteq> []" "length ?name \<le> 80" "ToLower L ?name \<notin> set seen"
      "normalizeCacheTTL i (ca_ttl r) = Ok ()" "normalizeCacheConditions L i (ca_conditions r) = Ok (d, all)"
      "all \<longrightarrow> int i = int n - 1" "normalizeCacheRules L n (i + 1) (ToLower L ?name # seen) rs = Ok ts"
      "ss = r\<lparr>ca_name := ?name, ca_conditions := d\<rparr> # ts"
    using Cons.prems by (auto simp: Let_def bindE_Ok split: if_splits prod.splits)
  have "rule_ok L n i (r\<lparr>ca_name := ?name, ca_conditions := d\<rparr>)"
    using ok conditions_idem [OF assms ok(5)] conditions_all [OF ok(5)]
    by (auto simp: rule_ok_def)
  then show ?case
    using Cons.IH [OF ok(7)] ok(3,8) by simp
qed simp

lemma rules_fixed: "rules_ok L n i seen rs \<Longrightarrow> normalizeCacheRules L n i seen rs = Ok rs"
  by (induction rs arbitrary: i seen) (auto simp: rule_ok_def Let_def)

lemma rules_ok_nth:
  "rules_ok L n i seen rs \<Longrightarrow> k < length rs \<Longrightarrow> rule_ok L n (i + k) (rs ! k)"
proof (induction rs arbitrary: i seen k)
  case (Cons r rs)
  then show ?case
    using Cons.IH [of "i + 1" _ "k - 1"] by (cases k) auto
qed simp

lemma rules_ok_names:
  "rules_ok L n i seen rs \<Longrightarrow>
     distinct (map (\<lambda>r. ToLower L (ca_name r)) rs) \<and> (\<forall>r \<in> set rs. ToLower L (ca_name r) \<notin> set seen)"
proof (induction rs arbitrary: i seen)
  case (Cons r rs)
  then show ?case
    using Cons.IH [of "i + 1" "ToLower L (ca_name r) # seen"] by auto
qed simp

lemma cache_cases:
  assumes "CachePolicy_NormalizeAndValidate L p = Ok q"
  obtains methods directives where
    "normUnique (normalizeMethod L) (\<lambda>v. v) (\<lambda>v. DuplicateMethod (upperTrim L v)) [] (cy_methods p) = Ok methods"
    "cy_methods q = sort methods"
    "normalizeKey L (cy_cacheKey p) = Ok (cy_cacheKey q)"
    "normUnique (normalizeDirective L) (\<lambda>v. v) (\<lambda>v. DuplicateDirective (lowerTrim L v)) []
       (cy_bypassCacheControl p) = Ok directives"
    "cy_bypassCacheControl q = sort directives"
    "cy_surrogateKeyHeader q = ''Surrogate-Key''"
    "normalizeCacheRules L (length (cy_rules p)) 0 [] (cy_rules p) = Ok (cy_rules q)"
    "length (cy_rules p) \<le> 32" "cy_methods p \<noteq> []" "length (cy_methods p) \<le> 8"
    "cy_requestCoalescing q \<longrightarrow> list_all (\<lambda>m. m \<in> set coalescingMethods) (cy_methods q)"
    "1 \<le> cy_maxBodyBytes q" "cy_maxBodyBytes q \<le> 4 * 2 ^ 30"
    "cs_enabled (cy_stale q) \<longrightarrow> 1 \<le> cs_ifErrorSeconds (cy_stale q) \<and> cs_ifErrorSeconds (cy_stale q) \<le> 31536000
       \<and> 0 \<le> cs_whileRevalidateSeconds (cy_stale q) \<and> cs_whileRevalidateSeconds (cy_stale q) \<le> 31536000"
  using assms
  by (auto simp: CachePolicy_NormalizeAndValidate_def Let_def bindE_Ok split: if_splits)

lemma key_cases:
  assumes "normalizeKey L k = Ok l"
  obtains parts headers where
    "normUnique (normalizeKeyPart L) (\<lambda>v. v) (\<lambda>v. DuplicateKeyPart (upperTrim L v)) [] (ck_parts k) = Ok parts"
    "ck_parts l = sort_key (position keyPartOrder) parts" "''PATH'' \<in> set parts"
    "normalizeKeyHeaders [] (ck_headers k) = Ok headers" "ck_headers l = sort headers"
    "normalizeAndValidateQueryKey L (ck_query k) = Ok (ck_query l)"
    "normalizeAndValidateCookieNames (ck_cookies k) = Ok (ck_cookies l)"
  using assms by (auto simp: normalizeKey_def bindE_Ok split: if_splits)

lemma key_idem:
  assumes "case_ok L" "normalizeKey L k = Ok l"
  shows "normalizeKey L l = Ok l"
proof -
  obtain parts headers where l:
    "normUnique (normalizeKeyPart L) (\<lambda>v. v) (\<lambda>v. DuplicateKeyPart (upperTrim L v)) [] (ck_parts k) = Ok parts"
    "ck_parts l = sort_key (position keyPartOrder) parts" "''PATH'' \<in> set parts"
    "normalizeKeyHeaders [] (ck_headers k) = Ok headers" "ck_headers l = sort headers"
    "normalizeAndValidateQueryKey L (ck_query k) = Ok (ck_query l)"
    "normalizeAndValidateCookieNames (ck_cookies k) = Ok (ck_cookies l)"
    using key_cases [OF assms(2)] .
  have "normUnique (normalizeKeyPart L) (\<lambda>v. v) (\<lambda>v. DuplicateKeyPart (upperTrim L v)) [] (ck_parts l) = Ok (ck_parts l)"
    unfolding l(2) by (rule normUnique_sort_idem [OF l(1) stable_keyPart [OF assms(1)]])
  moreover have "normalizeKeyHeaders [] (ck_headers l) = Ok (ck_headers l)"
    unfolding l(5) by (rule keyHeaders_idem [OF l(4)])
  moreover have "sort_key (position keyPartOrder) (ck_parts l) = ck_parts l" "sort (ck_headers l) = ck_headers l"
      "''PATH'' \<in> set (ck_parts l)"
    using l(3) by (simp_all add: l(2,5))
  ultimately show ?thesis
    by (simp add: normalizeKey_def queryKey_idem(1) [OF l(6)] cookies_idem [OF l(7)])
qed

text \<open>Well-formed policies.\<close>

definition cache_methods_wf :: "CachePolicy \<Rightarrow> bool" where
  "cache_methods_wf p \<longleftrightarrow>
     cy_methods p \<noteq> [] \<and> sorted (cy_methods p) \<and> distinct (cy_methods p)
   \<and> list_all (\<lambda>m. m \<in> set allowedMethods) (cy_methods p)
   \<and> (cy_requestCoalescing p \<longrightarrow> list_all (\<lambda>m. m \<in> set coalescingMethods) (cy_methods p))"

definition cache_key_wf :: "CacheKey \<Rightarrow> bool" where
  "cache_key_wf k \<longleftrightarrow>
     ''PATH'' \<in> set (ck_parts k) \<and> sorted (map (position keyPartOrder) (ck_parts k)) \<and> distinct (ck_parts k)
   \<and> list_all (\<lambda>m. m \<in> set keyPartOrder) (ck_parts k)
   \<and> sorted (ck_headers k) \<and> distinct (ck_headers k) \<and> list_all goodHeader (ck_headers k)
   \<and> (qk_include (ck_query k) = [] \<or> qk_exclude (ck_query k) = [])"

definition ttl_wf :: "CacheTTL \<Rightarrow> bool" where
  "ttl_wf t \<longleftrightarrow>
     1 \<le> ct_defaultSeconds t \<and> ct_defaultSeconds t \<le> 31536000
   \<and> (ct_overrideClientTTL t \<longrightarrow> 0 \<le> ct_clientSeconds t \<and> ct_clientSeconds t \<le> 31536000)
   \<and> list_all (\<lambda>(status, seconds). statusPattern status \<and> 1 \<le> seconds \<and> seconds \<le> 31536000) (ct_status t)"

definition cache_rules_wf :: "golib \<Rightarrow> CacheRule list \<Rightarrow> bool" where
  "cache_rules_wf L rs \<longleftrightarrow>
     length rs \<le> 32 \<and> distinct (map (\<lambda>r. ToLower L (ca_name r)) rs)
   \<and> list_all (\<lambda>r. ca_name r \<noteq> [] \<and> length (ca_name r) \<le> 80 \<and> ttl_wf (ca_ttl r)) rs
   \<and> list_all (\<lambda>r. \<not> hasAll (ca_conditions r)) (butlast rs)"

lemma methods_normal:
  assumes "normUnique (normalizeMethod L) (\<lambda>v. v) dup [] xs = Ok ys" "xs \<noteq> []" "cy_methods q = sort ys"
    and "cy_requestCoalescing q \<longrightarrow> list_all (\<lambda>m. m \<in> set coalescingMethods) (cy_methods q)"
  shows "cache_methods_wf q"
proof -
  have "y \<in> set allowedMethods" if "y \<in> set ys" for y
    using normUnique_image [OF assms(1) that] by (auto simp: normalizeMethod_def Let_def split: if_splits)
  moreover have "ys \<noteq> []" "distinct ys"
    using assms(1,2) by (auto simp: normUnique_Ok)
  moreover have "sort ys \<noteq> []"
    using calculation(2) by (metis set_empty set_sort)
  ultimately show ?thesis
    using assms(4) by (simp add: cache_methods_wf_def assms(3) list_all_iff)
qed

lemma key_normal:
  assumes "normalizeKey L k = Ok l"
  shows "cache_key_wf l"
proof -
  obtain parts headers where l:
    "normUnique (normalizeKeyPart L) (\<lambda>v. v) (\<lambda>v. DuplicateKeyPart (upperTrim L v)) [] (ck_parts k) = Ok parts"
    "ck_parts l = sort_key (position keyPartOrder) parts" "''PATH'' \<in> set parts"
    "normalizeKeyHeaders [] (ck_headers k) = Ok headers" "ck_headers l = sort headers"
    "normalizeAndValidateQueryKey L (ck_query k) = Ok (ck_query l)"
    "normalizeAndValidateCookieNames (ck_cookies k) = Ok (ck_cookies l)"
    using key_cases [OF assms] .
  have "y \<in> set keyPartOrder" if "y \<in> set parts" for y
    using normUnique_image [OF l(1) that] by (auto simp: normalizeKeyPart_def Let_def split: if_splits)
  moreover have "distinct parts"
    using l(1) by (simp add: normUnique_Ok)
  ultimately show ?thesis
    using l(3) keyHeaders_Ok [OF l(4)] queryKey_idem(2) [OF l(6)]
    by (simp add: cache_key_wf_def l(2,5) list_all_iff)
qed

lemma ttl_normal: "normalizeCacheTTL i t = Ok () \<Longrightarrow> ttl_wf t"
  by (auto simp: normalizeCacheTTL_def ttl_wf_def find_None_iff list_all_iff not_less split: if_splits option.splits)

lemma rules_wf:
  assumes "case_ok L" "normalizeCacheRules L (length rs) 0 [] rs = Ok ss" "length rs \<le> 32"
  shows "cache_rules_wf L ss"
proof -
  have ok: "rules_ok L (length rs) 0 [] ss" "length ss = length rs"
    using rules_normal [OF assms(1,2)] by simp_all
  then have r: "rule_ok L (length ss) k (ss ! k)" if "k < length ss" for k
    using rules_ok_nth [OF ok(1) that] by simp
  have "ca_name r \<noteq> [] \<and> length (ca_name r) \<le> 80 \<and> ttl_wf (ca_ttl r)" if mem: "r \<in> set ss" for r
  proof -
    obtain k where "k < length ss" "r = ss ! k"
      using mem unfolding in_set_conv_nth by blast
    then have "rule_ok L (length ss) k r"
      using r by blast
    then show ?thesis
      using ttl_normal unfolding rule_ok_def by blast
  qed
  moreover have "\<not> hasAll (ca_conditions r)" if mem: "r \<in> set (butlast ss)" for r
  proof -
    obtain k where k: "k < length (butlast ss)" "r = butlast ss ! k"
      using mem unfolding in_set_conv_nth by blast
    then have "rule_ok L (length ss) k r" "k + 1 \<noteq> length ss"
      using r [of k] by (simp_all add: nth_butlast)
    then show ?thesis
      unfolding rule_ok_def by blast
  qed
  ultimately show ?thesis
    using rules_ok_names [OF ok(1)] ok(2) assms(3) by (simp add: cache_rules_wf_def list_all_iff)
qed

subsection \<open>Properties\<close>

text \<open>
  Property C31: validating a cache policy is idempotent: the policy it returns is
  accepted unchanged, with the same methods, key, directives and rules.
\<close>

theorem cache_idempotent:
  assumes "case_ok L" "CachePolicy_NormalizeAndValidate L p = Ok q"
  shows "CachePolicy_NormalizeAndValidate L q = Ok q"
proof -
  obtain methods directives where q:
    "normUnique (normalizeMethod L) (\<lambda>v. v) (\<lambda>v. DuplicateMethod (upperTrim L v)) [] (cy_methods p) = Ok methods"
    "cy_methods q = sort methods"
    "normalizeKey L (cy_cacheKey p) = Ok (cy_cacheKey q)"
    "normUnique (normalizeDirective L) (\<lambda>v. v) (\<lambda>v. DuplicateDirective (lowerTrim L v)) []
       (cy_bypassCacheControl p) = Ok directives"
    "cy_bypassCacheControl q = sort directives"
    "cy_surrogateKeyHeader q = ''Surrogate-Key''"
    "normalizeCacheRules L (length (cy_rules p)) 0 [] (cy_rules p) = Ok (cy_rules q)"
    "length (cy_rules p) \<le> 32" "cy_methods p \<noteq> []" "length (cy_methods p) \<le> 8"
    "cy_requestCoalescing q \<longrightarrow> list_all (\<lambda>m. m \<in> set coalescingMethods) (cy_methods q)"
    "1 \<le> cy_maxBodyBytes q" "cy_maxBodyBytes q \<le> 4 * 2 ^ 30"
    "cs_enabled (cy_stale q) \<longrightarrow> 1 \<le> cs_ifErrorSeconds (cy_stale q) \<and> cs_ifErrorSeconds (cy_stale q) \<le> 31536000
       \<and> 0 \<le> cs_whileRevalidateSeconds (cy_stale q) \<and> cs_whileRevalidateSeconds (cy_stale q) \<le> 31536000"
    using cache_cases [OF assms(2)] .
  have m: "normUnique (normalizeMethod L) (\<lambda>v. v) (\<lambda>v. DuplicateMethod (upperTrim L v)) [] (cy_methods q) = Ok (cy_methods q)"
    unfolding q(2) by (rule normUnique_sort_idem [OF q(1) stable_method [OF assms(1)]])
  have d: "normUnique (normalizeDirective L) (\<lambda>v. v) (\<lambda>v. DuplicateDirective (lowerTrim L v)) []
      (cy_bypassCacheControl q) = Ok (cy_bypassCacheControl q)"
    unfolding q(5) by (rule normUnique_sort_idem [OF q(4) stable_directive [OF assms(1)]])
  have s: "sort (cy_methods q) = cy_methods q" "sort (cy_bypassCacheControl q) = cy_bypassCacheControl q"
    by (simp_all add: q(2,5))
  have ml: "length (cy_methods q) = length (cy_methods p)"
    using q(1) by (auto simp: q(2) normUnique_Ok dest: list_all2_lengthD)
  have r: "normalizeCacheRules L (length (cy_rules q)) 0 [] (cy_rules q) = Ok (cy_rules q)"
      "length (cy_rules q) \<le> 32"
    using rules_normal [OF assms(1) q(7)] q(8) by (auto intro: rules_fixed)
  have k: "keyHeader ''Surrogate-Key'' = ''Surrogate-Key''"
    by code_simp
  have c: "(cy_requestCoalescing q \<and> list_all (\<lambda>m. m \<in> set coalescingMethods) (cy_methods q)) = cy_requestCoalescing q"
    using q(11) by blast
  show ?thesis
    using q(9,10,12-14) ml r(2)
    by (auto simp: CachePolicy_NormalizeAndValidate_def Let_def m d s r(1) k q(6) c key_idem [OF assms(1) q(3)])
qed

text \<open>
  Property C32: a cache policy that validation accepts is well formed. The cached
  methods are supported and distinct, and requests are coalesced only when every
  method is safe; the key has its parts in order and always the path, never varies
  on \<open>Accept-Encoding\<close>, and does not both include and exclude parameters; the
  lifetimes are in range; rule names differ also when case is ignored, and a rule
  that matches every request is the last one.
\<close>

theorem cache_wellformed:
  assumes "case_ok L" "CachePolicy_NormalizeAndValidate L p = Ok q"
  shows "cache_methods_wf q \<and> cache_key_wf (cy_cacheKey q) \<and> cache_rules_wf L (cy_rules q)
    \<and> 1 \<le> cy_maxBodyBytes q \<and> cy_maxBodyBytes q \<le> 4 * 2 ^ 30"
proof -
  obtain methods directives where q:
    "normUnique (normalizeMethod L) (\<lambda>v. v) (\<lambda>v. DuplicateMethod (upperTrim L v)) [] (cy_methods p) = Ok methods"
    "cy_methods q = sort methods"
    "normalizeKey L (cy_cacheKey p) = Ok (cy_cacheKey q)"
    "normUnique (normalizeDirective L) (\<lambda>v. v) (\<lambda>v. DuplicateDirective (lowerTrim L v)) []
       (cy_bypassCacheControl p) = Ok directives"
    "cy_bypassCacheControl q = sort directives"
    "cy_surrogateKeyHeader q = ''Surrogate-Key''"
    "normalizeCacheRules L (length (cy_rules p)) 0 [] (cy_rules p) = Ok (cy_rules q)"
    "length (cy_rules p) \<le> 32" "cy_methods p \<noteq> []" "length (cy_methods p) \<le> 8"
    "cy_requestCoalescing q \<longrightarrow> list_all (\<lambda>m. m \<in> set coalescingMethods) (cy_methods q)"
    "1 \<le> cy_maxBodyBytes q" "cy_maxBodyBytes q \<le> 4 * 2 ^ 30"
    "cs_enabled (cy_stale q) \<longrightarrow> 1 \<le> cs_ifErrorSeconds (cy_stale q) \<and> cs_ifErrorSeconds (cy_stale q) \<le> 31536000
       \<and> 0 \<le> cs_whileRevalidateSeconds (cy_stale q) \<and> cs_whileRevalidateSeconds (cy_stale q) \<le> 31536000"
    using cache_cases [OF assms(2)] .
  show ?thesis
    using methods_normal [OF q(1,9,2,11)] key_normal [OF q(3)] rules_wf [OF assms(1) q(7,8)] q(12,13) by blast
qed

definition sampleCacheRule :: CacheRule where
  "sampleCacheRule =
     \<lparr>ca_name = '' Static '', ca_ttl = \<lparr>ct_defaultSeconds = 60, ct_status = [(''404'', 5)],
        ct_overrideClientTTL = False, ct_clientSeconds = 0\<rparr>,
      ca_conditions = \<lparr>cc_groupOperator = [], cc_groups = [\<lparr>cg_operator = ''and'',
        cg_rules = [\<lparr>cr_type = ''extension'', cr_value = [], cr_values = [''.JS'']\<rparr>]\<rparr>]\<rparr>\<rparr>"

definition sampleCachePolicy :: CachePolicy where
  "sampleCachePolicy = DefaultCachePolicy\<lparr>cy_methods := ['' post'', ''GET''], cy_rules := [sampleCacheRule]\<rparr>"

definition sampleRuleNormal :: CacheRule where
  "sampleRuleNormal = sampleCacheRule\<lparr>ca_name := ''Static'', ca_conditions := \<lparr>cc_groupOperator = ''OR'',
       cc_groups = [\<lparr>cg_operator = ''AND'',
         cg_rules = [\<lparr>cr_type = ''EXTENSION'', cr_value = [], cr_values = [''js'']\<rparr>]\<rparr>]\<rparr>\<rparr>"

definition sampleKey :: CacheKey where
  "sampleKey = \<lparr>ck_parts = [''METHOD'', ''HOST'', ''PATH'', ''QUERY''], ck_headers = [],
     ck_query = \<lparr>qk_normalize = Some True, qk_include = [], qk_exclude = []\<rparr>, ck_cookies = [],
     ck_hash = False, ck_hide = False\<rparr>"

definition sampleCacheNormal :: CachePolicy where
  "sampleCacheNormal = sampleCachePolicy\<lparr>cy_methods := [''GET'', ''POST''], cy_requestCoalescing := False,
     cy_rules := [sampleRuleNormal]\<rparr>"

lemma sampleCachePolicy_parts:
  "normUnique (normalizeMethod asciiLib) (\<lambda>v. v) (\<lambda>v. DuplicateMethod (upperTrim asciiLib v)) []
     ['' post'', ''GET''] = Ok [''POST'', ''GET'']"
  "normalizeKey asciiLib sampleKey = Ok sampleKey"
  "normUnique (normalizeDirective asciiLib) (\<lambda>v. v) (\<lambda>v. DuplicateDirective (lowerTrim asciiLib v)) []
     [''no-store'', ''private''] = Ok [''no-store'', ''private'']"
  "normalizeCacheRules asciiLib 1 0 [] [sampleCacheRule] = Ok [sampleRuleNormal]"
  "keyHeader ''Surrogate-Key'' = ''Surrogate-Key''"
  "sort [''POST'', ''GET''] = [''GET'', ''POST'']" "sort [''no-store'', ''private''] = [''no-store'', ''private'']"
  by code_simp+

lemma sampleCachePolicy_ok:
  "CachePolicy_NormalizeAndValidate asciiLib sampleCachePolicy = Ok sampleCacheNormal"
  using sampleCachePolicy_parts
  by (simp add: CachePolicy_NormalizeAndValidate_def sampleCachePolicy_def sampleCacheNormal_def DefaultCachePolicy_def
      sampleKey_def coalescingMethods_def)

theorem cache_idempotent_witness:
  "CachePolicy_NormalizeAndValidate asciiLib sampleCacheNormal = Ok sampleCacheNormal"
  by (rule cache_idempotent [OF asciiLib_ok sampleCachePolicy_ok])

theorem cache_wellformed_witness:
  "cache_methods_wf sampleCacheNormal \<and> cache_key_wf (cy_cacheKey sampleCacheNormal)"
  using cache_wellformed [OF asciiLib_ok sampleCachePolicy_ok] by simp

end
