(* ===== verification/Policy_Delivery.thy ===== *)
theory Policy_Delivery
  imports Go_Strings
begin

section \<open>The delivery policy\<close>

text \<open>
  \<open>internal/policy/delivery.go\<close>: headers, rewrites, redirects, cross-origin rules,
  error pages, path origin pools and traffic splits, the default policy and
  \<open>NormalizeAndValidate\<close> in the order of the source. The sets of seen statuses, pool
  names and split names are threaded through the loops.
\<close>

subsection \<open>Records\<close>

record HeaderRule =
  hr_operation :: string
  hr_name :: string
  hr_value :: string

record RewriteRule =
  rw_path :: string
  rw_replacement :: string

record RedirectRule =
  rd_path :: string
  rd_location :: string
  rd_status :: int

record CORSConfig =
  co_enabled :: bool
  co_allowOrigins :: "string list"
  co_allowMethods :: "string list"
  co_allowHeaders :: "string list"
  co_exposeHeaders :: "string list"
  co_allowCredentials :: bool
  co_maxAgeSeconds :: int

record ProtocolConfig =
  pr_webSocket :: bool
  pr_grpc :: bool
  pr_httpUpgrade :: bool

record ErrorPage =
  ep_statuses :: "int list"
  ep_contentType :: string
  ep_body :: string

record DeliveryOrigin =
  do_protocol :: string
  do_address :: string
  do_hostHeader :: string
  do_weight :: int

record PathOriginPool =
  pp_name :: string
  pp_paths :: "string list"
  pp_scheduler :: string
  pp_origins :: "DeliveryOrigin list"

record TrafficSplitRule =
  ts_name :: string
  ts_pool :: string
  ts_headerName :: string
  ts_cookieName :: string
  ts_value :: string
  ts_percentage :: int

record MaintenanceConfig =
  ma_enabled :: bool
  ma_status :: int
  ma_contentType :: string
  ma_body :: string

record DeliveryPolicy =
  dp_requestHeaders :: "HeaderRule list"
  dp_responseHeaders :: "HeaderRule list"
  dp_rewrites :: "RewriteRule list"
  dp_redirects :: "RedirectRule list"
  dp_cors :: CORSConfig
  dp_protocols :: ProtocolConfig
  dp_errorPages :: "ErrorPage list"
  dp_originPrefix :: string
  dp_originPools :: "PathOriginPool list"
  dp_splits :: "TrafficSplitRule list"
  dp_maintenance :: MaintenanceConfig

datatype delivery_error =
    OriginPrefixPath | HeaderOperation string nat | HeaderName string nat | HeaderValue string nat
  | RewriteInvalid nat | RedirectPath nat | RedirectLocation nat | RedirectStatus nat
  | CORSOriginsRequired | CORSWildcardCredentials | CORSOrigin string | CORSMethod string | CORSHeader string
  | CORSMaxAge
  | ErrorPageEmpty nat | ErrorPageStatus nat int
  | PoolName nat | PoolEmpty nat | PoolPath nat | PoolScheduler nat | PoolOrigin nat nat | PoolHostHeader nat nat
  | SplitName nat | SplitHeader nat | SplitCookie nat | SplitCriterion nat | SplitPercentage nat
  | MaintenanceStatus

definition htmlType :: string where
  "htmlType = ''text/html; charset=utf-8''"

definition DefaultDeliveryPolicy :: DeliveryPolicy where
  "DefaultDeliveryPolicy =
     \<lparr>dp_requestHeaders = [], dp_responseHeaders = [], dp_rewrites = [], dp_redirects = [],
      dp_cors = \<lparr>co_enabled = False, co_allowOrigins = [], co_allowMethods = [''GET'', ''HEAD'', ''POST'', ''OPTIONS''],
        co_allowHeaders = [], co_exposeHeaders = [], co_allowCredentials = False, co_maxAgeSeconds = 0\<rparr>,
      dp_protocols = \<lparr>pr_webSocket = True, pr_grpc = False, pr_httpUpgrade = False\<rparr>,
      dp_errorPages = [], dp_originPrefix = [], dp_originPools = [], dp_splits = [],
      dp_maintenance = \<lparr>ma_enabled = False, ma_status = 503, ma_contentType = htmlType,
        ma_body = ''Service temporarily unavailable''\<rparr>\<rparr>"

subsection \<open>Checks\<close>

definition validAbsolutePath :: "string \<Rightarrow> bool" where
  "validAbsolutePath value \<longleftrightarrow> HasPrefix value ''/'' \<and> \<not> ContainsAny value [CHR 0x0D, CHR 0x0A]"

definition validPathMatcher :: "string \<Rightarrow> bool" where
  "validPathMatcher value \<longleftrightarrow> validAbsolutePath value \<and> \<not> Contains value ''..''"

definition validRedirectLocation :: "golib \<Rightarrow> string \<Rightarrow> bool" where
  "validRedirectLocation L value =
     (if validAbsolutePath value then True
      else (case gl_urlParse L value of
              None \<Rightarrow> False
            | Some parsed \<Rightarrow> u_host parsed \<noteq> [] \<and> (u_scheme parsed = ''http'' \<or> u_scheme parsed = ''https'')))"

definition validScheduler :: "string \<Rightarrow> bool" where
  "validScheduler value \<longleftrightarrow>
     value \<in> set [''round_robin'', ''weighted_round_robin'', ''least_conn'', ''random'', ''first'', ''ip_hash'']"

definition validCookieName :: "string \<Rightarrow> bool" where
  "validCookieName value \<longleftrightarrow> value \<noteq> [] \<and> list_all tokenChar value"

definition validOriginAddress :: "string \<Rightarrow> bool" where
  "validOriginAddress value =
     (case SplitHostPort value of
        None \<Rightarrow> False
      | Some (host, port) \<Rightarrow>
          if host = [] \<or> port = [] \<or> ContainsAny host [CHR 0x0D, CHR 0x0A] then False
          else (case Atoi port of None \<Rightarrow> False | Some number \<Rightarrow> number > 0 \<and> number \<le> 65535))"

definition isHopByHopHeader :: "string \<Rightarrow> bool" where
  "isHopByHopHeader name \<longleftrightarrow>
     CanonicalHeaderKey name \<in> set [''Connection'', ''Keep-Alive'', ''Proxy-Authenticate'', ''Proxy-Authorization'',
       ''Te'', ''Trailer'', ''Transfer-Encoding'', ''Upgrade'']"

subsection \<open>Headers, rewrites and redirects\<close>

definition validateHeader :: "golib \<Rightarrow> string \<Rightarrow> nat \<Rightarrow> HeaderRule \<Rightarrow> delivery_error + HeaderRule" where
  "validateHeader L field i rule0 =
     (let operation = upperTrim L (hr_operation rule0);
          rule = rule0\<lparr>hr_operation := (if operation = [] then ''SET'' else operation),
                       hr_name := CanonicalHeaderKey (TrimSpace (hr_name rule0))\<rparr>
      in if hr_operation rule \<noteq> ''SET'' \<and> hr_operation rule \<noteq> ''ADD'' \<and> hr_operation rule \<noteq> ''DELETE''
         then Err (HeaderOperation field i)
         else if \<not> gl_validHeaderFieldName L (hr_name rule) \<or> isHopByHopHeader (hr_name rule) then Err (HeaderName field i)
         else if hr_operation rule \<noteq> ''DELETE'' \<and> \<not> gl_validHeaderFieldValue L (hr_value rule)
         then Err (HeaderValue field i)
         else Ok rule)"

definition validateHeaders :: "golib \<Rightarrow> string \<Rightarrow> HeaderRule list \<Rightarrow> delivery_error + HeaderRule list" where
  "validateHeaders L field rules = mapE (validateHeader L field) 0 rules"

definition normalizeRewrite :: "nat \<Rightarrow> RewriteRule \<Rightarrow> delivery_error + RewriteRule" where
  "normalizeRewrite i rule0 =
     (let rule = rule0\<lparr>rw_path := TrimSpace (rw_path rule0), rw_replacement := TrimSpace (rw_replacement rule0)\<rparr>
      in if \<not> validPathMatcher (rw_path rule) \<or> \<not> validAbsolutePath (rw_replacement rule)
         then Err (RewriteInvalid i) else Ok rule)"

definition normalizeRedirect :: "golib \<Rightarrow> nat \<Rightarrow> RedirectRule \<Rightarrow> delivery_error + RedirectRule" where
  "normalizeRedirect L i rule0 =
     (let rule = rule0\<lparr>rd_path := TrimSpace (rd_path rule0), rd_location := TrimSpace (rd_location rule0)\<rparr>
      in if \<not> validPathMatcher (rd_path rule) then Err (RedirectPath i)
         else if \<not> validRedirectLocation L (rd_location rule) then Err (RedirectLocation i)
         else let rule = (if rd_status rule = 0 then rule\<lparr>rd_status := 302\<rparr> else rule)
              in if rd_status rule \<noteq> 301 \<and> rd_status rule \<noteq> 302 \<and> rd_status rule \<noteq> 307 \<and> rd_status rule \<noteq> 308
                 then Err (RedirectStatus i) else Ok rule)"

subsection \<open>Cross-origin rules\<close>

fun checkOrigins :: "golib \<Rightarrow> bool \<Rightarrow> string list \<Rightarrow> delivery_error + unit" where
  "checkOrigins L credentials [] = Ok ()"
| "checkOrigins L credentials (origin # origins) =
     (if origin = ''*''
      then (if credentials then Err CORSWildcardCredentials else checkOrigins L credentials origins)
      else (case gl_urlParse L origin of
              None \<Rightarrow> Err (CORSOrigin origin)
            | Some parsed \<Rightarrow>
                if u_host parsed = [] \<or> u_user parsed \<or> (u_scheme parsed \<noteq> ''http'' \<and> u_scheme parsed \<noteq> ''https'')
                  \<or> u_path parsed \<noteq> [] \<or> u_rawQuery parsed \<noteq> [] \<or> u_fragment parsed \<noteq> []
                then Err (CORSOrigin origin) else checkOrigins L credentials origins))"

definition normalizeCORSMethod :: "golib \<Rightarrow> nat \<Rightarrow> string \<Rightarrow> delivery_error + string" where
  "normalizeCORSMethod L i method =
     (let m = upperTrim L method in if \<not> gl_validHeaderFieldName L m then Err (CORSMethod method) else Ok m)"

definition checkCORSHeaders :: "golib \<Rightarrow> string list \<Rightarrow> delivery_error + unit" where
  "checkCORSHeaders L headers =
     (case find (\<lambda>header. \<not> gl_validHeaderFieldName L header) headers of
        Some header \<Rightarrow> Err (CORSHeader header)
      | None \<Rightarrow> Ok ())"

definition normalizeCORS :: "golib \<Rightarrow> CORSConfig \<Rightarrow> delivery_error + CORSConfig" where
  "normalizeCORS L c =
     (if \<not> co_enabled c then Ok c
      else if length (co_allowOrigins c) = 0 then Err CORSOriginsRequired
      else
        bindE (checkOrigins L (co_allowCredentials c) (co_allowOrigins c)) (\<lambda>_.
        bindE (mapE (normalizeCORSMethod L) 0 (co_allowMethods c)) (\<lambda>methods.
        bindE (checkCORSHeaders L (co_allowHeaders c @ co_exposeHeaders c)) (\<lambda>_.
        if co_maxAgeSeconds c < 0 \<or> co_maxAgeSeconds c > 86400 then Err CORSMaxAge
        else Ok (c\<lparr>co_allowMethods := methods\<rparr>)))))"

subsection \<open>Error pages, pools and splits\<close>

fun checkStatuses :: "nat \<Rightarrow> int set \<Rightarrow> int list \<Rightarrow> delivery_error + int set" where
  "checkStatuses i seen [] = Ok seen"
| "checkStatuses i seen (status # statuses) =
     (if status < 400 \<or> status > 599 \<or> status \<in> seen then Err (ErrorPageStatus i status)
      else checkStatuses i (insert status seen) statuses)"

definition normalizeErrorPage :: "nat \<Rightarrow> int set \<Rightarrow> ErrorPage \<Rightarrow> delivery_error + (ErrorPage \<times> int set)" where
  "normalizeErrorPage i seen page0 =
     (let page = (if ep_contentType page0 = [] then page0\<lparr>ep_contentType := htmlType\<rparr> else page0)
      in if ep_body page = [] \<or> length (ep_statuses page) = 0 then Err (ErrorPageEmpty i)
         else bindE (checkStatuses i seen (ep_statuses page))
                (\<lambda>seen'. Ok (page\<lparr>ep_statuses := sort (ep_statuses page)\<rparr>, seen')))"

definition normalizeOrigin :: "golib \<Rightarrow> nat \<Rightarrow> nat \<Rightarrow> DeliveryOrigin \<Rightarrow> delivery_error + DeliveryOrigin" where
  "normalizeOrigin L i oi origin0 =
     (let origin = origin0\<lparr>do_protocol := lowerTrim L (do_protocol origin0),
            do_address := TrimSpace (do_address origin0), do_hostHeader := TrimSpace (do_hostHeader origin0)\<rparr>
      in if (do_protocol origin \<noteq> ''http'' \<and> do_protocol origin \<noteq> ''https'') \<or> \<not> validOriginAddress (do_address origin)
         then Err (PoolOrigin i oi)
         else if do_hostHeader origin \<noteq> [] \<and> \<not> gl_validHostHeader L (do_hostHeader origin) then Err (PoolHostHeader i oi)
         else Ok (if do_weight origin \<le> 0 then origin\<lparr>do_weight := 1\<rparr> else origin))"

definition normalizePool :: "golib \<Rightarrow> nat \<Rightarrow> string set \<Rightarrow> PathOriginPool \<Rightarrow> delivery_error + (PathOriginPool \<times> string set)" where
  "normalizePool L i poolNames pool0 =
     (let pool = pool0\<lparr>pp_name := TrimSpace (pp_name pool0)\<rparr>
      in if pp_name pool = [] \<or> pp_name pool \<in> poolNames then Err (PoolName i)
         else if length (pp_paths pool) = 0 \<or> length (pp_origins pool) = 0 then Err (PoolEmpty i)
         else if \<not> list_all validPathMatcher (pp_paths pool) then Err (PoolPath i)
         else let pool = (if pp_scheduler pool = [] then pool\<lparr>pp_scheduler := ''round_robin''\<rparr> else pool)
         in if \<not> validScheduler (pp_scheduler pool) then Err (PoolScheduler i)
         else bindE (mapE (normalizeOrigin L i) 0 (pp_origins pool))
                (\<lambda>origins. Ok (pool\<lparr>pp_origins := origins\<rparr>, insert (pp_name pool) poolNames)))"

definition normalizeSplit :: "golib \<Rightarrow> string set \<Rightarrow> nat \<Rightarrow> string set \<Rightarrow> TrafficSplitRule
    \<Rightarrow> delivery_error + (TrafficSplitRule \<times> string set)" where
  "normalizeSplit L poolNames i splitNames rule0 =
     (let rule = rule0\<lparr>ts_name := TrimSpace (ts_name rule0), ts_pool := TrimSpace (ts_pool rule0)\<rparr>
      in if ts_name rule = [] \<or> ts_name rule \<in> splitNames \<or> ts_pool rule \<notin> poolNames then Err (SplitName i)
         else let rule = rule\<lparr>ts_headerName := CanonicalHeaderKey (TrimSpace (ts_headerName rule)),
                              ts_cookieName := TrimSpace (ts_cookieName rule)\<rparr>
         in if ts_headerName rule \<noteq> [] \<and> \<not> gl_validHeaderFieldName L (ts_headerName rule) then Err (SplitHeader i)
         else if ts_cookieName rule \<noteq> [] \<and> \<not> validCookieName (ts_cookieName rule) then Err (SplitCookie i)
         else if ts_headerName rule = [] \<and> ts_cookieName rule = [] \<and> ts_percentage rule = 0 then Err (SplitCriterion i)
         else if ts_percentage rule < 0 \<or> ts_percentage rule > 100 then Err (SplitPercentage i)
         else Ok (rule, insert (ts_name rule) splitNames))"

subsection \<open>The policy\<close>

definition maintenanceDefaults :: "MaintenanceConfig \<Rightarrow> MaintenanceConfig" where
  "maintenanceDefaults m =
     (let d = dp_maintenance DefaultDeliveryPolicy;
          m = (if ma_status m = 0 then m\<lparr>ma_status := ma_status d\<rparr> else m);
          m = (if ma_contentType m = [] then m\<lparr>ma_contentType := ma_contentType d\<rparr> else m)
      in if ma_body m = [] then m\<lparr>ma_body := ma_body d\<rparr> else m)"

definition corsDefaults :: "CORSConfig \<Rightarrow> CORSConfig" where
  "corsDefaults c =
     (if co_enabled c \<and> length (co_allowMethods c) = 0
      then c\<lparr>co_allowMethods := co_allowMethods (dp_cors DefaultDeliveryPolicy)\<rparr> else c)"

definition normalizePrefix :: "string \<Rightarrow> delivery_error + string" where
  "normalizePrefix origin =
     (if origin = [] then Ok origin
      else let origin = TrimSuffix (TrimSpace origin) ''/''
           in if \<not> validAbsolutePath origin then Err OriginPrefixPath else Ok origin)"

definition DeliveryPolicy_NormalizeAndValidate :: "golib \<Rightarrow> DeliveryPolicy \<Rightarrow> delivery_error + DeliveryPolicy" where
  "DeliveryPolicy_NormalizeAndValidate L p =
     (let maintenance = maintenanceDefaults (dp_maintenance p) in
      bindE (normalizePrefix (dp_originPrefix p)) (\<lambda>origin.
      bindE (validateHeaders L ''request_headers'' (dp_requestHeaders p)) (\<lambda>request.
      bindE (validateHeaders L ''response_headers'' (dp_responseHeaders p)) (\<lambda>response.
      bindE (mapE normalizeRewrite 0 (dp_rewrites p)) (\<lambda>rewrites.
      bindE (mapE (normalizeRedirect L) 0 (dp_redirects p)) (\<lambda>redirects.
      bindE (normalizeCORS L (corsDefaults (dp_cors p))) (\<lambda>cors.
      bindE (mapAccumE normalizeErrorPage 0 {} (dp_errorPages p)) (\<lambda>(pages, statuses).
      bindE (mapAccumE (normalizePool L) 0 {} (dp_originPools p)) (\<lambda>(pools, poolNames).
      bindE (mapAccumE (normalizeSplit L poolNames) 0 {} (dp_splits p)) (\<lambda>(splits, splitNames).
      if ma_enabled maintenance \<and> (ma_status maintenance < 400 \<or> ma_status maintenance > 599)
      then Err MaintenanceStatus
      else Ok (p\<lparr>dp_requestHeaders := request, dp_responseHeaders := response, dp_rewrites := rewrites,
                 dp_redirects := redirects, dp_cors := cors, dp_errorPages := pages, dp_originPrefix := origin,
                 dp_originPools := pools, dp_splits := splits, dp_maintenance := maintenance\<rparr>)))))))))))"

subsection \<open>Normal forms of the parts\<close>

lemma trimCanonical_idem [simp]:
  "CanonicalHeaderKey (TrimSpace (CanonicalHeaderKey (TrimSpace s))) = CanonicalHeaderKey (TrimSpace s)"
  by (simp add: canonical_trimmed trimmed_id)

lemma words_fixed:
  "upperTrim L ''SET'' = ''SET''" "upperTrim L ''ADD'' = ''ADD''" "upperTrim L ''DELETE'' = ''DELETE''"
  "lowerTrim L ''http'' = ''http''" "lowerTrim L ''https'' = ''https''"
  by (simp_all add: upperTrim_upper lowerTrim_lower graphic_def between_def)

lemma header_facts:
  assumes "case_ok L" "validateHeader L field i r = Ok s"
  shows "hr_operation s = ''SET'' \<or> hr_operation s = ''ADD'' \<or> hr_operation s = ''DELETE''"
    "gl_validHeaderFieldName L (hr_name s)" "\<not> isHopByHopHeader (hr_name s)"
    "hr_operation s = ''DELETE'' \<or> gl_validHeaderFieldValue L (hr_value s)"
    "upperTrim L (hr_operation s) = hr_operation s" "CanonicalHeaderKey (TrimSpace (hr_name s)) = hr_name s"
  using assms(2)
  by (auto simp: validateHeader_def Let_def words_fixed split: if_splits)

lemma header_idem:
  assumes "case_ok L" "validateHeader L field i r = Ok s"
  shows "validateHeader L field i s = Ok s"
proof -
  note f = header_facts [OF assms]
  have "hr_operation s \<noteq> []"
    using f(1) by auto
  then show ?thesis
    using f(1-4) by (auto simp: validateHeader_def Let_def f(5,6))
qed

lemma rewrite_idem: "normalizeRewrite i r = Ok s \<Longrightarrow> normalizeRewrite i s = Ok s"
  by (auto simp: normalizeRewrite_def Let_def split: if_splits)

lemma redirect_idem:
  assumes "normalizeRedirect L i r = Ok s"
  shows "normalizeRedirect L i s = Ok s"
proof -
  have "TrimSpace (rd_path s) = rd_path s" "TrimSpace (rd_location s) = rd_location s"
      "validPathMatcher (rd_path s)" "validRedirectLocation L (rd_location s)"
      "rd_status s = 301 \<or> rd_status s = 302 \<or> rd_status s = 307 \<or> rd_status s = 308"
    using assms by (auto simp: normalizeRedirect_def Let_def split: if_splits)
  then show ?thesis
    by (auto simp: normalizeRedirect_def Let_def)
qed

lemma corsMethod_idem: "case_ok L \<Longrightarrow> normalizeCORSMethod L i m = Ok n \<Longrightarrow> normalizeCORSMethod L i n = Ok n"
  by (auto simp: normalizeCORSMethod_def Let_def lowerTrim_idem split: if_splits)

lemma cors_idem:
  assumes "case_ok L" "normalizeCORS L (corsDefaults c) = Ok d"
  shows "normalizeCORS L (corsDefaults d) = Ok d"
proof (cases "co_enabled d")
  case False
  then show ?thesis by (simp add: normalizeCORS_def corsDefaults_def)
next
  case True
  let ?c = "corsDefaults c"
  have d: "mapE (normalizeCORSMethod L) 0 (co_allowMethods ?c) = Ok (co_allowMethods d)"
      "checkOrigins L (co_allowCredentials d) (co_allowOrigins d) = Ok ()" "co_allowOrigins d \<noteq> []"
      "checkCORSHeaders L (co_allowHeaders d @ co_exposeHeaders d) = Ok ()"
      "0 \<le> co_maxAgeSeconds d" "co_maxAgeSeconds d \<le> 86400" "co_enabled ?c"
    using assms(2) True by (auto simp: normalizeCORS_def bindE_Ok split: if_splits)
  have "co_allowMethods ?c \<noteq> []"
    using d(7) by (auto simp: corsDefaults_def DefaultDeliveryPolicy_def)
  then have "co_allowMethods d \<noteq> []"
    using mapE_length [OF d(1)] by auto
  then have "corsDefaults d = d"
    by (simp add: corsDefaults_def)
  moreover have "mapE (normalizeCORSMethod L) 0 (co_allowMethods d) = Ok (co_allowMethods d)"
    by (rule mapE_idem [OF d(1) corsMethod_idem [OF assms(1)]])
  ultimately show ?thesis
    using d(2-6) True by (simp add: normalizeCORS_def)
qed

lemma checkStatuses_Ok:
  "checkStatuses i seen xs = Ok t \<longleftrightarrow>
     list_all (\<lambda>x. 400 \<le> x \<and> x \<le> 599) xs \<and> distinct xs \<and> set xs \<inter> seen = {} \<and> t = seen \<union> set xs"
  by (induction xs arbitrary: seen) auto

lemma errorPage_idem:
  assumes "normalizeErrorPage i seen p = Ok (q, t)"
  shows "normalizeErrorPage i seen q = Ok (q, t)"
proof -
  have q: "q = p\<lparr>ep_contentType := (if ep_contentType p = [] then htmlType else ep_contentType p),
                ep_statuses := sort (ep_statuses p)\<rparr>"
      "checkStatuses i seen (ep_statuses p) = Ok t" "ep_body p \<noteq> []" "ep_statuses p \<noteq> []"
    using assms by (auto simp: normalizeErrorPage_def Let_def bindE_Ok split: if_splits)
  have "checkStatuses i seen (ep_statuses q) = Ok t"
    using q(2) by (simp add: q(1) checkStatuses_Ok list_all_iff)
  moreover have "ep_statuses q \<noteq> []"
    using q(4) by (simp add: q(1)) (metis set_empty set_sort)
  moreover have "ep_contentType q \<noteq> []" "ep_body q \<noteq> []" "q\<lparr>ep_statuses := sort (ep_statuses q)\<rparr> = q"
    using q(3) by (auto simp: q(1) htmlType_def)
  ultimately show ?thesis
    by (simp add: normalizeErrorPage_def)
qed

lemma origin_facts:
  assumes "case_ok L" "normalizeOrigin L i oi x = Ok y"
  shows "do_protocol y = ''http'' \<or> do_protocol y = ''https''" "validOriginAddress (do_address y)"
    "do_hostHeader y = [] \<or> gl_validHostHeader L (do_hostHeader y)" "1 \<le> do_weight y"
    "lowerTrim L (do_protocol y) = do_protocol y" "TrimSpace (do_address y) = do_address y"
    "TrimSpace (do_hostHeader y) = do_hostHeader y"
  using assms(2) by (auto simp: normalizeOrigin_def Let_def words_fixed split: if_splits)

lemma origin_idem:
  assumes "case_ok L" "normalizeOrigin L i oi x = Ok y"
  shows "normalizeOrigin L i oi y = Ok y"
  using origin_facts [OF assms] by (auto simp: normalizeOrigin_def Let_def)

lemma pool_idem:
  assumes "case_ok L" "normalizePool L i names x = Ok (y, t)"
  shows "normalizePool L i names y = Ok (y, t)"
proof -
  have m: "mapE (normalizeOrigin L i) 0 (pp_origins x) = Ok (pp_origins y)"
    and y: "pp_name y = TrimSpace (pp_name x)" "pp_name y \<noteq> []" "pp_name y \<notin> names" "pp_paths y \<noteq> []"
      "pp_origins x \<noteq> []" "list_all validPathMatcher (pp_paths y)" "pp_scheduler y \<noteq> []"
      "validScheduler (pp_scheduler y)" "t = insert (pp_name y) names"
    using assms(2) by (auto simp: normalizePool_def Let_def bindE_Ok split: if_splits)
  have "mapE (normalizeOrigin L i) 0 (pp_origins y) = Ok (pp_origins y)" "pp_origins y \<noteq> []"
    using mapE_idem [OF m origin_idem [OF assms(1)]] mapE_length [OF m] y(5) by auto
  moreover have "TrimSpace (pp_name y) = pp_name y"
    by (simp add: y(1))
  ultimately show ?thesis
    using y(2-4,6-9) by (simp add: normalizePool_def)
qed

lemma split_idem:
  assumes "normalizeSplit L pools i names x = Ok (y, t)"
  shows "normalizeSplit L pools i names y = Ok (y, t)"
proof -
  have y: "y = x\<lparr>ts_name := TrimSpace (ts_name x), ts_pool := TrimSpace (ts_pool x),
      ts_headerName := CanonicalHeaderKey (TrimSpace (ts_headerName x)), ts_cookieName := TrimSpace (ts_cookieName x)\<rparr>"
    using assms by (auto simp: normalizeSplit_def Let_def split: if_splits)
  have "normalizeSplit L pools i names y = normalizeSplit L pools i names x"
    by (simp add: y normalizeSplit_def Let_def)
  then show ?thesis
    using assms by simp
qed

lemma maintenance_facts:
  "ma_status (maintenanceDefaults m) \<noteq> 0" "ma_contentType (maintenanceDefaults m) \<noteq> []"
  "ma_body (maintenanceDefaults m) \<noteq> []"
  by (simp_all add: maintenanceDefaults_def Let_def DefaultDeliveryPolicy_def htmlType_def)

lemma maintenance_idem: "maintenanceDefaults (maintenanceDefaults m) = maintenanceDefaults m"
  by (subst maintenanceDefaults_def) (simp add: maintenance_facts)

text \<open>An origin prefix that validation leaves alone.\<close>

definition prefix_settled :: "string \<Rightarrow> bool" where
  "prefix_settled s \<longleftrightarrow> s = [] \<or> TrimSuffix (TrimSpace s) ''/'' = s"

lemma prefix_idem:
  "normalizePrefix s = Ok t \<Longrightarrow> prefix_settled t \<Longrightarrow> normalizePrefix t = Ok t"
  by (auto simp: normalizePrefix_def prefix_settled_def Let_def split: if_splits)

lemma delivery_cases:
  assumes "DeliveryPolicy_NormalizeAndValidate L p = Ok q"
  obtains statuses poolNames splitNames where
    "normalizePrefix (dp_originPrefix p) = Ok (dp_originPrefix q)"
    "validateHeaders L ''request_headers'' (dp_requestHeaders p) = Ok (dp_requestHeaders q)"
    "validateHeaders L ''response_headers'' (dp_responseHeaders p) = Ok (dp_responseHeaders q)"
    "mapE normalizeRewrite 0 (dp_rewrites p) = Ok (dp_rewrites q)"
    "mapE (normalizeRedirect L) 0 (dp_redirects p) = Ok (dp_redirects q)"
    "normalizeCORS L (corsDefaults (dp_cors p)) = Ok (dp_cors q)"
    "mapAccumE normalizeErrorPage 0 {} (dp_errorPages p) = Ok (dp_errorPages q, statuses)"
    "mapAccumE (normalizePool L) 0 {} (dp_originPools p) = Ok (dp_originPools q, poolNames)"
    "mapAccumE (normalizeSplit L poolNames) 0 {} (dp_splits p) = Ok (dp_splits q, splitNames)"
    "dp_maintenance q = maintenanceDefaults (dp_maintenance p)"
    "ma_enabled (dp_maintenance q) \<longrightarrow> 400 \<le> ma_status (dp_maintenance q) \<and> ma_status (dp_maintenance q) \<le> 599"
  using assms
  by (auto simp: DeliveryPolicy_NormalizeAndValidate_def Let_def bindE_Ok split: if_splits)

text \<open>Well-formed policies.\<close>

definition headers_wf :: "golib \<Rightarrow> HeaderRule list \<Rightarrow> bool" where
  "headers_wf L = list_all (\<lambda>r. hr_operation r \<in> {''SET'', ''ADD'', ''DELETE''}
     \<and> gl_validHeaderFieldName L (hr_name r) \<and> \<not> isHopByHopHeader (hr_name r))"

definition cors_wf :: "CORSConfig \<Rightarrow> bool" where
  "cors_wf c \<longleftrightarrow> co_enabled c \<longrightarrow>
     co_allowOrigins c \<noteq> [] \<and> \<not> (co_allowCredentials c \<and> ''*'' \<in> set (co_allowOrigins c))
   \<and> 0 \<le> co_maxAgeSeconds c \<and> co_maxAgeSeconds c \<le> 86400"

definition pages_wf :: "ErrorPage list \<Rightarrow> bool" where
  "pages_wf ps \<longleftrightarrow> distinct (concat (map ep_statuses ps))
     \<and> list_all (\<lambda>s. 400 \<le> s \<and> s \<le> 599) (concat (map ep_statuses ps))"

definition pools_wf :: "PathOriginPool list \<Rightarrow> bool" where
  "pools_wf ps \<longleftrightarrow> distinct (map pp_name ps)
     \<and> list_all (\<lambda>p. pp_name p \<noteq> [] \<and> pp_origins p \<noteq> [] \<and> validScheduler (pp_scheduler p)
         \<and> list_all (\<lambda>x. 1 \<le> do_weight x \<and> validOriginAddress (do_address x)) (pp_origins p)) ps"

definition splits_wf :: "PathOriginPool list \<Rightarrow> TrafficSplitRule list \<Rightarrow> bool" where
  "splits_wf ps ss \<longleftrightarrow> distinct (map ts_name ss)
     \<and> list_all (\<lambda>s. ts_pool s \<in> set (map pp_name ps) \<and> 0 \<le> ts_percentage s \<and> ts_percentage s \<le> 100) ss"

lemma headers_normal:
  assumes "case_ok L" "validateHeaders L field hs = Ok rs"
  shows "headers_wf L rs"
proof -
  have "hr_operation r \<in> {''SET'', ''ADD'', ''DELETE''} \<and> gl_validHeaderFieldName L (hr_name r) \<and> \<not> isHopByHopHeader (hr_name r)"
    if mem: "r \<in> set rs" for r
  proof -
    obtain j h where "validateHeader L field j h = Ok r"
      using mapE_image [OF assms(2) [unfolded validateHeaders_def] mem] by blast
    then show ?thesis
      using header_facts(1-3) [OF assms(1), of field j h r] by simp
  qed
  then show ?thesis
    by (simp add: headers_wf_def list_all_iff)
qed

lemma checkOrigins_wildcard: "checkOrigins L cr os = Ok () \<Longrightarrow> \<not> (cr \<and> ''*'' \<in> set os)"
  by (induction os) (auto split: if_splits option.splits)

lemma cors_normal: "normalizeCORS L c = Ok d \<Longrightarrow> cors_wf d"
  using checkOrigins_wildcard by (auto simp: normalizeCORS_def cors_wf_def bindE_Ok split: if_splits)

lemma pages_normal:
  assumes "mapAccumE normalizeErrorPage 0 {} ps = Ok (qs, t)"
  shows "pages_wf qs"
proof -
  have "pages_wf qs \<and> t = set (concat (map ep_statuses qs))"
  proof (rule mapAccumE_invariant [OF assms])
    fix j u x y v acc
    assume s: "normalizeErrorPage j u x = Ok (y, v)" and i: "pages_wf acc \<and> u = set (concat (map ep_statuses acc))"
    have "checkStatuses j u (ep_statuses x) = Ok v" "ep_statuses y = sort (ep_statuses x)"
      using s by (auto simp: normalizeErrorPage_def Let_def bindE_Ok split: if_splits)
    then show "pages_wf (acc @ [y]) \<and> v = set (concat (map ep_statuses (acc @ [y])))"
      using i by (auto simp: pages_wf_def checkStatuses_Ok list_all_iff)
  qed (simp add: pages_wf_def)
  then show ?thesis ..
qed

lemma pool_facts:
  assumes "case_ok L" "normalizePool L i names x = Ok (y, t)"
  shows "pp_name y \<noteq> [] \<and> pp_name y \<notin> names \<and> t = insert (pp_name y) names"
    "pp_origins y \<noteq> []" "validScheduler (pp_scheduler y)"
    "list_all (\<lambda>x. 1 \<le> do_weight x \<and> validOriginAddress (do_address x)) (pp_origins y)"
proof -
  have m: "mapE (normalizeOrigin L i) 0 (pp_origins x) = Ok (pp_origins y)" "pp_origins x \<noteq> []"
    using assms(2) by (auto simp: normalizePool_def Let_def bindE_Ok split: if_splits)
  show "pp_name y \<noteq> [] \<and> pp_name y \<notin> names \<and> t = insert (pp_name y) names" "validScheduler (pp_scheduler y)"
    using assms(2) by (auto simp: normalizePool_def Let_def bindE_Ok split: if_splits)
  show "pp_origins y \<noteq> []"
    using mapE_length [OF m(1)] m(2) by auto
  have "1 \<le> do_weight z \<and> validOriginAddress (do_address z)" if "z \<in> set (pp_origins y)" for z
    using mapE_image [OF m(1) that] origin_facts(2,4) [OF assms(1)] by blast
  then show "list_all (\<lambda>x. 1 \<le> do_weight x \<and> validOriginAddress (do_address x)) (pp_origins y)"
    by (simp add: list_all_iff)
qed

lemma pools_normal:
  assumes "case_ok L" "mapAccumE (normalizePool L) 0 {} ps = Ok (qs, t)"
  shows "pools_wf qs" "t = set (map pp_name qs)"
proof -
  have "pools_wf qs \<and> t = set (map pp_name qs)"
  proof (rule mapAccumE_invariant [OF assms(2)])
    fix j u x y v acc
    assume s: "normalizePool L j u x = Ok (y, v)" and i: "pools_wf acc \<and> u = set (map pp_name acc)"
    show "pools_wf (acc @ [y]) \<and> v = set (map pp_name (acc @ [y]))"
      using pool_facts [OF assms(1) s] i by (simp add: pools_wf_def)
  qed (simp add: pools_wf_def)
  then show "pools_wf qs" "t = set (map pp_name qs)" by simp_all
qed

lemma splits_normal:
  assumes "mapAccumE (normalizeSplit L (set (map pp_name ps))) 0 {} ss = Ok (ts, t)"
  shows "splits_wf ps ts"
proof -
  have "splits_wf ps ts \<and> t = set (map ts_name ts)"
  proof (rule mapAccumE_invariant [OF assms])
    fix j u x y v acc
    assume s: "normalizeSplit L (set (map pp_name ps)) j u x = Ok (y, v)"
      and i: "splits_wf ps acc \<and> u = set (map ts_name acc)"
    have "ts_name y \<notin> u" "ts_pool y \<in> set (map pp_name ps)" "0 \<le> ts_percentage y" "ts_percentage y \<le> 100"
        "v = insert (ts_name y) u"
      using s by (auto simp: normalizeSplit_def Let_def split: if_splits)
    then show "splits_wf ps (acc @ [y]) \<and> v = set (map ts_name (acc @ [y]))"
      using i by (simp add: splits_wf_def)
  qed (simp add: splits_wf_def)
  then show ?thesis ..
qed

subsection \<open>Properties\<close>

text \<open>
  Property C33: a delivery policy that validation accepts is well formed. Header
  rules never touch a hop-by-hop header; a wildcard origin never comes with
  credentials; no error status has two pages; pools and splits have unique names,
  every origin a positive weight and a valid address; every split names an existing
  pool and a percentage between 0 and 100.
\<close>

theorem delivery_wellformed:
  assumes "case_ok L" "DeliveryPolicy_NormalizeAndValidate L p = Ok q"
  shows "headers_wf L (dp_requestHeaders q) \<and> headers_wf L (dp_responseHeaders q) \<and> cors_wf (dp_cors q)
    \<and> pages_wf (dp_errorPages q) \<and> pools_wf (dp_originPools q) \<and> splits_wf (dp_originPools q) (dp_splits q)"
proof -
  obtain statuses poolNames splitNames where q:
    "validateHeaders L ''request_headers'' (dp_requestHeaders p) = Ok (dp_requestHeaders q)"
    "validateHeaders L ''response_headers'' (dp_responseHeaders p) = Ok (dp_responseHeaders q)"
    "normalizeCORS L (corsDefaults (dp_cors p)) = Ok (dp_cors q)"
    "mapAccumE normalizeErrorPage 0 {} (dp_errorPages p) = Ok (dp_errorPages q, statuses)"
    "mapAccumE (normalizePool L) 0 {} (dp_originPools p) = Ok (dp_originPools q, poolNames)"
    "mapAccumE (normalizeSplit L poolNames) 0 {} (dp_splits p) = Ok (dp_splits q, splitNames)"
    by (rule delivery_cases [OF assms(2)])
  note pools = pools_normal [OF assms(1) q(5)]
  show ?thesis
    using headers_normal [OF assms(1) q(1)] headers_normal [OF assms(1) q(2)] cors_normal [OF q(3)]
      pages_normal [OF q(4)] pools(1) splits_normal [OF q(6) [unfolded pools(2)]] by simp
qed

text \<open>
  Property C34: validating a delivery policy a second time changes nothing, provided
  its origin prefix is settled: trimming the white space and one final slash of the
  result leaves it as it is.
\<close>

theorem delivery_idempotent:
  assumes "case_ok L" "DeliveryPolicy_NormalizeAndValidate L p = Ok q" "prefix_settled (dp_originPrefix q)"
  shows "DeliveryPolicy_NormalizeAndValidate L q = Ok q"
proof -
  obtain statuses poolNames splitNames where q:
    "normalizePrefix (dp_originPrefix p) = Ok (dp_originPrefix q)"
    "validateHeaders L ''request_headers'' (dp_requestHeaders p) = Ok (dp_requestHeaders q)"
    "validateHeaders L ''response_headers'' (dp_responseHeaders p) = Ok (dp_responseHeaders q)"
    "mapE normalizeRewrite 0 (dp_rewrites p) = Ok (dp_rewrites q)"
    "mapE (normalizeRedirect L) 0 (dp_redirects p) = Ok (dp_redirects q)"
    "normalizeCORS L (corsDefaults (dp_cors p)) = Ok (dp_cors q)"
    "mapAccumE normalizeErrorPage 0 {} (dp_errorPages p) = Ok (dp_errorPages q, statuses)"
    "mapAccumE (normalizePool L) 0 {} (dp_originPools p) = Ok (dp_originPools q, poolNames)"
    "mapAccumE (normalizeSplit L poolNames) 0 {} (dp_splits p) = Ok (dp_splits q, splitNames)"
    "dp_maintenance q = maintenanceDefaults (dp_maintenance p)"
    "ma_enabled (dp_maintenance q) \<longrightarrow> 400 \<le> ma_status (dp_maintenance q) \<and> ma_status (dp_maintenance q) \<le> 599"
    by (rule delivery_cases [OF assms(2)])
  note h = q(2,3) [unfolded validateHeaders_def]
  have "normalizePrefix (dp_originPrefix q) = Ok (dp_originPrefix q)"
    by (rule prefix_idem [OF q(1) assms(3)])
  moreover have "validateHeaders L ''request_headers'' (dp_requestHeaders q) = Ok (dp_requestHeaders q)"
    unfolding validateHeaders_def by (rule mapE_idem [OF h(1) header_idem [OF assms(1)]])
  moreover have "validateHeaders L ''response_headers'' (dp_responseHeaders q) = Ok (dp_responseHeaders q)"
    unfolding validateHeaders_def by (rule mapE_idem [OF h(2) header_idem [OF assms(1)]])
  moreover note mapE_idem [OF q(4) rewrite_idem] mapE_idem [OF q(5) redirect_idem]
    mapAccumE_idem [OF q(7) errorPage_idem] mapAccumE_idem [OF q(8) pool_idem [OF assms(1)]]
    mapAccumE_idem [OF q(9) split_idem]
  moreover have "maintenanceDefaults (dp_maintenance q) = dp_maintenance q"
    by (simp add: q(10) maintenance_idem)
  ultimately show ?thesis
    using q(11) by (auto simp: DeliveryPolicy_NormalizeAndValidate_def cors_idem [OF assms(1) q(6)])
qed


definition sampleDelivery :: DeliveryPolicy where
  "sampleDelivery = DefaultDeliveryPolicy\<lparr>dp_originPrefix := ''/api/'',
     dp_requestHeaders := [\<lparr>hr_operation = [], hr_name = ''x-edge'', hr_value = ''1''\<rparr>],
     dp_originPools := [\<lparr>pp_name = '' blue'', pp_paths = [''/b''], pp_scheduler = [],
       pp_origins = [\<lparr>do_protocol = ''HTTP'', do_address = ''h:80'', do_hostHeader = [], do_weight = 0\<rparr>]\<rparr>],
     dp_splits := [\<lparr>ts_name = ''s'', ts_pool = ''blue'', ts_headerName = [], ts_cookieName = [], ts_value = [],
       ts_percentage = 10\<rparr>]\<rparr>"

definition sampleDeliveryNormal :: DeliveryPolicy where
  "sampleDeliveryNormal = sampleDelivery\<lparr>dp_originPrefix := ''/api'',
     dp_requestHeaders := [\<lparr>hr_operation = ''SET'', hr_name = ''X-Edge'', hr_value = ''1''\<rparr>],
     dp_originPools := [\<lparr>pp_name = ''blue'', pp_paths = [''/b''], pp_scheduler = ''round_robin'',
       pp_origins = [\<lparr>do_protocol = ''http'', do_address = ''h:80'', do_hostHeader = [], do_weight = 1\<rparr>]\<rparr>]\<rparr>"

lemma sampleDelivery_ok:
  "DeliveryPolicy_NormalizeAndValidate asciiLib sampleDelivery = Ok sampleDeliveryNormal"
  by code_simp

theorem delivery_wellformed_witness:
  "pools_wf (dp_originPools sampleDeliveryNormal)
   \<and> splits_wf (dp_originPools sampleDeliveryNormal) (dp_splits sampleDeliveryNormal)"
  using delivery_wellformed [OF asciiLib_ok sampleDelivery_ok] by simp

theorem delivery_idempotent_witness:
  "DeliveryPolicy_NormalizeAndValidate asciiLib sampleDeliveryNormal = Ok sampleDeliveryNormal"
proof -
  have "prefix_settled (dp_originPrefix sampleDeliveryNormal)"
    by code_simp
  then show ?thesis
    by (rule delivery_idempotent [OF asciiLib_ok sampleDelivery_ok])
qed

end
