(* ===== verification/Policy_Security.thy ===== *)
theory Policy_Security
  imports Go_Strings
begin

section \<open>The web application firewall policy\<close>

text \<open>
  \<open>internal/policy/security.go\<close>: the policy records, the default rule sets and
  \<open>NormalizeAndValidate\<close> with its helpers. The set of seen ids is threaded through
  rule sets, rules, groups and conditions as in the source; a location is the list of
  indices the source prints. The parser and printer of \<open>net/netip\<close> are the fields of
  the record \<open>netip\<close>; what the code computes with addresses and prefixes is modelled. A nil
  slice of rule sets is \<open>None\<close>.
\<close>

subsection \<open>Records\<close>

record WAFResponse =
  we_type :: string
  we_body :: string

record WAFAction =
  wa_type :: string
  wa_statusCode :: int
  wa_response :: WAFResponse
  wa_redirectURL :: string
  wa_redirectStatus :: int
  wa_tag :: string

record WAFCondition =
  wn_id :: string
  wn_field :: string
  wn_fieldName :: string
  wn_operator :: string
  wn_value :: string
  wn_values :: "string list"
  wn_negate :: bool
  wn_caseSensitive :: bool

record WAFConditionGroup =
  wg_id :: string
  wg_operator :: string
  wg_conditions :: "WAFCondition list"

record WAFConditions =
  wc_operator :: string
  wc_groups :: "WAFConditionGroup list"

record WAFRule =
  wr_id :: string
  wr_name :: string
  wr_enabled :: bool
  wr_type :: string
  wr_conditions :: WAFConditions
  wr_key :: string
  wr_keyName :: string
  wr_requests :: int
  wr_windowSeconds :: int
  wr_burst :: int
  wr_backend :: string
  wr_failureMode :: string
  wr_action :: WAFAction

record WAFRuleSet =
  ws_id :: string
  ws_name :: string
  ws_enabled :: bool
  ws_rules :: "WAFRule list"

record WAFPolicy =
  wp_enabled :: bool
  wp_trustedProxyChain :: bool
  wp_trustedProxies :: "string list"
  wp_ruleSets :: "WAFRuleSet list option"
  wp_bodyInspectLimitBytes :: int
  wp_bodyOverLimitAction :: string
  wp_geoIPDatabase :: string

type_synonym location = "nat list"

datatype waf_error =
    BodyOverLimitAction | NegativeInspectLimit | InspectLimitTooBig | InvalidPrefix string | TrustedProxiesRequired
  | TooManyRuleSets | IdTooLong location | DuplicateId location string | NameTooLong location | TooManyWAFRules nat
  | RuleTypeUnsupported location | RateKey location | RateKeyName location | RateRequests location | RateWindow location
  | RateBurst location | RateBackend location | RateFailureMode location
  | ConditionsOperator location | GroupsRequired location | TooManyGroups location | GroupOperatorInvalid location
  | ConditionsCount location | FieldNameRequired location | FieldUnsupported location | ValueRequired location
  | InvalidRegex location | ValuesRequired location | CIDRRequires location | InvalidCIDR location string
  | OperatorUnsupported location
  | ActionStatus location | ActionRedirectURL location | ActionRedirectStatus location | ActionTag location
  | ActionUnsupported location | ResponseTooBig location | ResponseBodyRequired location | ResponseJSON location
  | ResponseType location

subsection \<open>The default policy\<close>

text \<open>
  Expressions are written with \<open>@\<close> for the backslash, \<open>~\<close> for the single and \<open>!\<close> for
  the double quote.
\<close>

definition expression :: "string \<Rightarrow> string" where
  "expression s = map (\<lambda>c. if c = CHR ''@'' then CHR 0x5C else if c = CHR ''~'' then CHR 0x27
                         else if c = CHR ''!'' then CHR 0x22 else c) s"

definition defaultXSSPattern :: string where
  "defaultXSSPattern = expression
     ''(?i)(?:<@s*script@b|javascript@s*:|on(?:error|load|click|mouseover)@s*=|<@s*(?:iframe|object|embed|svg)@b)''"

definition defaultPathTraversalPattern :: string where
  "defaultPathTraversalPattern = expression ''((@.+)(/+)){2,}''"

definition defaultSensitiveDirectoryPattern :: string where
  "defaultSensitiveDirectoryPattern = expression ''(?i)(?:^|/)@.(?:git|svn|htaccess|idea|env|vscode)(?:/|$)''"

definition defaultSQLInjectionPattern :: string where
  "defaultSQLInjectionPattern = expression
     (''(?i)(?:@bunion@b.{0,24}@bselect@b|@bselect@b.{0,24}@bfrom@b|@bor@b@s+[~!]?@d+[~!]?@s*=@s*[~!]?@d+'' @
      ''|(?:--|#|/@*)@s*$|@bsleep@s*@(|@bbenchmark@s*@()'')"

definition noResponse :: WAFResponse where
  "noResponse = \<lparr>we_type = [], we_body = []\<rparr>"

definition blockAction :: "int \<Rightarrow> WAFAction" where
  "blockAction status =
     \<lparr>wa_type = ''SHOW_PAGE'', wa_statusCode = status, wa_response = \<lparr>we_type = ''DEFAULT'', we_body = []\<rparr>,
      wa_redirectURL = [], wa_redirectStatus = 0, wa_tag = []\<rparr>"

definition singleWAFCondition :: "WAFCondition \<Rightarrow> WAFConditions" where
  "singleWAFCondition condition =
     \<lparr>wc_operator = ''AND'', wc_groups = [\<lparr>wg_id = [], wg_operator = ''AND'', wg_conditions = [condition]\<rparr>]\<rparr>"

definition matchRule :: "string \<Rightarrow> string \<Rightarrow> string \<Rightarrow> string \<Rightarrow> WAFAction \<Rightarrow> WAFRule" where
  "matchRule i name field pattern action =
     \<lparr>wr_id = i, wr_name = name, wr_enabled = True, wr_type = ''MATCH'',
      wr_conditions = singleWAFCondition \<lparr>wn_id = [], wn_field = field, wn_fieldName = [], wn_operator = ''REGEX'',
        wn_value = pattern, wn_values = [], wn_negate = False, wn_caseSensitive = True\<rparr>,
      wr_key = [], wr_keyName = [], wr_requests = 0, wr_windowSeconds = 0, wr_burst = 0, wr_backend = [],
      wr_failureMode = [], wr_action = action\<rparr>"

definition defaultRuleSets :: "WAFRuleSet list" where
  "defaultRuleSets =
    [\<lparr>ws_id = ''builtin-xss'', ws_name = ''Cross-site scripting'', ws_enabled = True,
      ws_rules = [matchRule ''builtin-xss-query'' ''XSS in query values'' ''QUERY_VALUES'' defaultXSSPattern (blockAction 403),
                  matchRule ''builtin-xss-body'' ''XSS in request body'' ''BODY'' defaultXSSPattern (blockAction 403)]\<rparr>,
     \<lparr>ws_id = ''builtin-path-traversal'', ws_name = ''Path traversal'', ws_enabled = True,
      ws_rules = [matchRule ''builtin-path-traversal-target'' ''Repeated parent traversal'' ''REQUEST_TARGET''
                    defaultPathTraversalPattern (blockAction 403)]\<rparr>,
     \<lparr>ws_id = ''builtin-sensitive-directories'', ws_name = ''Sensitive directories'', ws_enabled = True,
      ws_rules = [matchRule ''builtin-sensitive-directories-path'' ''Repository and environment files'' ''PATH''
                    defaultSensitiveDirectoryPattern (blockAction 403)]\<rparr>,
     \<lparr>ws_id = ''builtin-sql-injection'', ws_name = ''SQL injection'', ws_enabled = True,
      ws_rules = [matchRule ''builtin-sql-query'' ''SQL injection in query values'' ''QUERY_VALUES''
                    defaultSQLInjectionPattern (blockAction 403),
                  matchRule ''builtin-sql-body'' ''SQL injection in request body'' ''BODY''
                    defaultSQLInjectionPattern (blockAction 403)]\<rparr>,
     \<lparr>ws_id = ''builtin-cc'', ws_name = ''CC attack'', ws_enabled = True,
      ws_rules = [\<lparr>wr_id = ''builtin-cc-ip-path'', wr_name = ''Requests per client and path'', wr_enabled = True,
        wr_type = ''RATE_LIMIT'', wr_conditions = \<lparr>wc_operator = ''AND'', wc_groups = []\<rparr>,
        wr_key = ''CLIENT_IP_PATH'', wr_keyName = [], wr_requests = 60, wr_windowSeconds = 60, wr_burst = 20,
        wr_backend = ''REDIS'', wr_failureMode = ''LOCAL'', wr_action = blockAction 429\<rparr>]\<rparr>]"

definition DefaultWAFPolicy :: WAFPolicy where
  "DefaultWAFPolicy =
     \<lparr>wp_enabled = True, wp_trustedProxyChain = False, wp_trustedProxies = [], wp_ruleSets = Some defaultRuleSets,
      wp_bodyInspectLimitBytes = 0, wp_bodyOverLimitAction = [], wp_geoIPDatabase = []\<rparr>"

subsection \<open>Addresses and prefixes\<close>

datatype addr = V4 nat | V6 nat string

record prefix_net =
  pn_addr :: addr
  pn_bits :: nat

record netip =
  np_parseAddr :: "string \<Rightarrow> addr option"
  np_parsePrefix :: "string \<Rightarrow> prefix_net option"
  np_prefixString :: "prefix_net \<Rightarrow> string"

fun Is4In6 :: "addr \<Rightarrow> bool" where
  "Is4In6 (V4 n) = False"
| "Is4In6 (V6 n zone) = (n div 2 ^ 32 = 65535)"

definition Unmap :: "addr \<Rightarrow> addr" where
  "Unmap a = (case a of V4 n \<Rightarrow> a | V6 n zone \<Rightarrow> if Is4In6 a then V4 (n mod 2 ^ 32) else a)"

fun withoutZone :: "addr \<Rightarrow> addr" where
  "withoutZone (V4 n) = V4 n"
| "withoutZone (V6 n zone) = V6 n []"

definition PrefixFrom :: "addr \<Rightarrow> nat \<Rightarrow> prefix_net" where
  "PrefixFrom a bits = \<lparr>pn_addr = withoutZone a, pn_bits = bits\<rparr>"

definition clearLow :: "nat \<Rightarrow> nat \<Rightarrow> nat" where
  "clearLow k n = n - n mod 2 ^ k"

definition Masked :: "prefix_net \<Rightarrow> prefix_net" where
  "Masked p = p\<lparr>pn_addr := (case pn_addr p of
       V4 n \<Rightarrow> V4 (clearLow (32 - pn_bits p) n)
     | V6 n zone \<Rightarrow> V6 (clearLow (128 - pn_bits p) n) [])\<rparr>"

definition normalizeWAFPrefix :: "netip \<Rightarrow> string \<Rightarrow> string option" where
  "normalizeWAFPrefix N value =
     (case np_parseAddr N value of
        Some address \<Rightarrow>
          let address = Unmap address;
              bits = (case address of V4 n \<Rightarrow> 32 | V6 n zone \<Rightarrow> 128)
          in Some (np_prefixString N (PrefixFrom address bits))
      | None \<Rightarrow>
          (case np_parsePrefix N value of
             None \<Rightarrow> None
           | Some p \<Rightarrow>
               let p = Masked p;
                   p = (if Is4In6 (pn_addr p) \<and> pn_bits p \<ge> 96
                        then Masked (PrefixFrom (Unmap (pn_addr p)) (pn_bits p - 96)) else p)
               in Some (np_prefixString N p)))"

fun normalizeWAFPrefixes :: "netip \<Rightarrow> string list \<Rightarrow> string list \<Rightarrow> waf_error + string list" where
  "normalizeWAFPrefixes N seen [] = Ok []"
| "normalizeWAFPrefixes N seen (value # values) =
     (let value = TrimSpace value
      in if value = [] then normalizeWAFPrefixes N seen values
         else (case normalizeWAFPrefix N value of
                 None \<Rightarrow> Err (InvalidPrefix value)
               | Some v \<Rightarrow>
                   if v \<in> set seen then normalizeWAFPrefixes N seen values
                   else bindE (normalizeWAFPrefixes N (v # seen) values) (\<lambda>result. Ok (v # result))))"

subsection \<open>Conditions\<close>

text \<open>The source's \<open>if s == "" { s = d }\<close>.\<close>

definition orElse :: "string \<Rightarrow> string \<Rightarrow> string" where
  "orElse s d = (if s = [] then d else s)"

definition uniqueWAFID :: "location \<Rightarrow> string set \<Rightarrow> string \<Rightarrow> waf_error + string set" where
  "uniqueWAFID loc seen i =
     (if length i > 128 then Err (IdTooLong loc)
      else if i \<in> seen then Err (DuplicateId loc i)
      else Ok (insert i seen))"

definition generatedWAFChildID :: "golib \<Rightarrow> string \<Rightarrow> string \<Rightarrow> nat \<Rightarrow> string" where
  "generatedWAFChildID L kind parent index =
     kind @ ''-'' @ hex (take 8 (gl_sha256 L parent)) @ ''-'' @ decimal (index + 1)"

definition plainFields :: "string list" where
  "plainFields = [''METHOD'', ''HOST'', ''PATH'', ''RAW_QUERY'', ''QUERY_VALUES'', ''REQUEST_TARGET'', ''CLIENT_IP'',
     ''USER_AGENT'', ''COUNTRY'', ''REGION'']"

definition conditionField :: "location \<Rightarrow> WAFCondition \<Rightarrow> waf_error + WAFCondition" where
  "conditionField loc c =
     (if wn_field c \<in> set plainFields then Ok (c\<lparr>wn_fieldName := []\<rparr>)
      else if wn_field c = ''BODY'' then Ok c
      else if wn_field c = ''QUERY'' \<or> wn_field c = ''COOKIE''
      then (if wn_fieldName c = [] then Err (FieldNameRequired loc) else Ok c)
      else if wn_field c = ''HEADER''
      then (let c = c\<lparr>wn_fieldName := CanonicalHeaderKey (wn_fieldName c)\<rparr>
            in if wn_fieldName c = [] then Err (FieldNameRequired loc) else Ok c)
      else Err (FieldUnsupported loc))"

definition valueOperators :: "string list" where
  "valueOperators = [''EQUALS'', ''CONTAINS'', ''PREFIX'', ''SUFFIX'', ''REGEX'']"

definition conditionOperator :: "golib \<Rightarrow> netip \<Rightarrow> location \<Rightarrow> WAFCondition \<Rightarrow> waf_error + WAFCondition" where
  "conditionOperator L N loc c =
     (if wn_operator c = ''EXISTS'' then Ok (c\<lparr>wn_value := [], wn_values := []\<rparr>)
      else if wn_operator c \<in> set valueOperators
      then (if wn_value c = [] then Err (ValueRequired loc)
            else if wn_operator c = ''REGEX''
              \<and> \<not> gl_regexp L (if wn_caseSensitive c then wn_value c else ''(?i)'' @ wn_value c)
            then Err (InvalidRegex loc)
            else Ok c)
      else if wn_operator c = ''IN'' then (if wn_values c = [] then Err (ValuesRequired loc) else Ok c)
      else if wn_operator c = ''CIDR''
      then (if wn_field c \<noteq> ''CLIENT_IP'' \<or> wn_values c = [] then Err (CIDRRequires loc)
            else (case find (\<lambda>value. np_parsePrefix N value = None) (wn_values c) of
                    Some value \<Rightarrow> Err (InvalidCIDR loc value)
                  | None \<Rightarrow> Ok c))
      else Err (OperatorUnsupported loc))"

definition trimCondition :: "golib \<Rightarrow> WAFCondition \<Rightarrow> WAFCondition" where
  "trimCondition L c = c\<lparr>wn_field := upperTrim L (wn_field c), wn_fieldName := TrimSpace (wn_fieldName c),
     wn_operator := upperTrim L (wn_operator c), wn_value := TrimSpace (wn_value c),
     wn_values := map TrimSpace (wn_values c)\<rparr>"

definition normalizeWAFCondition :: "golib \<Rightarrow> netip \<Rightarrow> location \<Rightarrow> WAFCondition \<Rightarrow> waf_error + WAFCondition" where
  "normalizeWAFCondition L N loc c =
     bindE (conditionField loc (trimCondition L c)) (conditionOperator L N loc)"

definition conditionStep :: "golib \<Rightarrow> netip \<Rightarrow> location \<Rightarrow> string \<Rightarrow> nat \<Rightarrow> string set \<Rightarrow> WAFCondition
    \<Rightarrow> waf_error + (WAFCondition \<times> string set)" where
  "conditionStep L N loc groupID conditionIndex seen c0 =
     (let c = c0\<lparr>wn_id := orElse (TrimSpace (wn_id c0)) (generatedWAFChildID L ''condition'' groupID conditionIndex)\<rparr>
      in bindE (uniqueWAFID (loc @ [conditionIndex]) seen (wn_id c)) (\<lambda>seen'.
         bindE (normalizeWAFCondition L N (loc @ [conditionIndex]) c) (\<lambda>c'. Ok (c', seen'))))"

definition groupStep :: "golib \<Rightarrow> netip \<Rightarrow> location \<Rightarrow> string \<Rightarrow> nat \<Rightarrow> string set \<Rightarrow> WAFConditionGroup
    \<Rightarrow> waf_error + (WAFConditionGroup \<times> string set)" where
  "groupStep L N loc idPrefix groupIndex seen g0 =
     (let g = g0\<lparr>wg_id := orElse (TrimSpace (wg_id g0)) (generatedWAFChildID L ''group'' idPrefix groupIndex),
                 wg_operator := orElse (upperTrim L (wg_operator g0)) ''AND''\<rparr>
      in bindE (uniqueWAFID (loc @ [groupIndex]) seen (wg_id g)) (\<lambda>seen1.
         if wg_operator g \<noteq> ''AND'' \<and> wg_operator g \<noteq> ''OR'' then Err (GroupOperatorInvalid (loc @ [groupIndex]))
         else if length (wg_conditions g) = 0 \<or> length (wg_conditions g) > 16
         then Err (ConditionsCount (loc @ [groupIndex]))
         else bindE (mapAccumE (conditionStep L N (loc @ [groupIndex]) (wg_id g)) 0 seen1 (wg_conditions g))
                (\<lambda>(conditions, seen2). Ok (g\<lparr>wg_conditions := conditions\<rparr>, seen2))))"

definition normalizeWAFConditions :: "golib \<Rightarrow> netip \<Rightarrow> location \<Rightarrow> string \<Rightarrow> bool \<Rightarrow> string set \<Rightarrow> WAFConditions
    \<Rightarrow> waf_error + (WAFConditions \<times> string set)" where
  "normalizeWAFConditions L N loc idPrefix required seen c0 =
     (let c = c0\<lparr>wc_operator := orElse (upperTrim L (wc_operator c0)) ''AND''\<rparr>
      in if wc_operator c \<noteq> ''AND'' \<and> wc_operator c \<noteq> ''OR'' then Err (ConditionsOperator loc)
         else if length (wc_groups c) = 0
         then (if required then Err (GroupsRequired loc) else Ok (c\<lparr>wc_groups := []\<rparr>, seen))
         else if length (wc_groups c) > 16 then Err (TooManyGroups loc)
         else bindE (mapAccumE (groupStep L N loc idPrefix) 0 seen (wc_groups c))
                (\<lambda>(groups, seen'). Ok (c\<lparr>wc_groups := groups\<rparr>, seen')))"

subsection \<open>Rate rules and actions\<close>

definition plainKeys :: "string list" where
  "plainKeys = [''CLIENT_IP'', ''CLIENT_IP_PATH'', ''PATH'', ''GLOBAL'']"

definition rateKey :: "golib \<Rightarrow> location \<Rightarrow> WAFRule \<Rightarrow> waf_error + WAFRule" where
  "rateKey L loc rule0 =
     (let rule = rule0\<lparr>wr_key := upperTrim L (wr_key rule0), wr_keyName := TrimSpace (wr_keyName rule0)\<rparr>
      in if wr_key rule \<in> set plainKeys then Ok (rule\<lparr>wr_keyName := []\<rparr>)
         else if wr_key rule = ''HEADER''
         then (let rule = rule\<lparr>wr_keyName := CanonicalHeaderKey (wr_keyName rule)\<rparr>
               in if wr_keyName rule = [] then Err (RateKeyName loc) else Ok rule)
         else if wr_key rule = ''COOKIE'' then (if wr_keyName rule = [] then Err (RateKeyName loc) else Ok rule)
         else Err (RateKey loc))"

definition normalizeRateRule :: "golib \<Rightarrow> location \<Rightarrow> WAFRule \<Rightarrow> waf_error + WAFRule" where
  "normalizeRateRule L loc rule0 =
     bindE (rateKey L loc rule0) (\<lambda>rule.
     if wr_requests rule < 1 \<or> wr_requests rule > 1000000 then Err (RateRequests loc)
     else if wr_windowSeconds rule < 1 \<or> wr_windowSeconds rule > 3600 then Err (RateWindow loc)
     else if wr_burst rule < 0 \<or> wr_burst rule > wr_requests rule * 10 then Err (RateBurst loc)
     else let backend = orElse (upperTrim L (wr_backend rule)) ''LOCAL''
          in if backend \<noteq> ''LOCAL'' \<and> backend \<noteq> ''REDIS'' then Err (RateBackend loc)
             else let mode = orElse (upperTrim L (wr_failureMode rule)) ''LOCAL''
                  in if mode \<noteq> ''OPEN'' \<and> mode \<noteq> ''CLOSED'' \<and> mode \<noteq> ''LOCAL'' then Err (RateFailureMode loc)
                     else Ok (rule\<lparr>wr_backend := backend,
                                   wr_failureMode := (if backend = ''LOCAL'' then ''LOCAL'' else mode)\<rparr>))"

definition normalizeWAFResponse :: "golib \<Rightarrow> location \<Rightarrow> WAFResponse \<Rightarrow> waf_error + WAFResponse" where
  "normalizeWAFResponse L loc r0 =
     (let r = r0\<lparr>we_type := orElse (upperTrim L (we_type r0)) ''DEFAULT''\<rparr>
      in if int (length (we_body r)) > 128 * 1024 then Err (ResponseTooBig loc)
         else if we_type r = ''DEFAULT'' then Ok (r\<lparr>we_body := []\<rparr>)
         else if we_type r = ''HTML'' \<or> we_type r = ''TEXT''
         then (if we_body r = [] then Err (ResponseBodyRequired loc) else Ok r)
         else if we_type r = ''JSON''
         then (if \<not> gl_jsonValid L (we_body r) then Err (ResponseJSON loc) else Ok r)
         else Err (ResponseType loc))"

definition tagPattern :: "string \<Rightarrow> bool" where
  "tagPattern s \<longleftrightarrow> s \<noteq> [] \<and> length s \<le> 64
     \<and> (isUpper (hd s) \<or> isLower (hd s) \<or> isDigit (hd s))
     \<and> list_all (\<lambda>c. isUpper c \<or> isLower c \<or> isDigit c \<or> c \<in> set ''._:-'') (tl s)"

definition redirectAllowed :: "golib \<Rightarrow> string \<Rightarrow> bool" where
  "redirectAllowed L url =
     (case gl_urlParse L url of
        None \<Rightarrow> False
      | Some parsed \<Rightarrow>
          \<not> ((u_scheme parsed \<noteq> [] \<and> u_scheme parsed \<noteq> ''http'' \<and> u_scheme parsed \<noteq> ''https'')
             \<or> (u_scheme parsed = [] \<and> \<not> HasPrefix url ''/'')))"

definition normalizeWAFAction :: "golib \<Rightarrow> string \<Rightarrow> location \<Rightarrow> WAFAction \<Rightarrow> waf_error + WAFAction" where
  "normalizeWAFAction L ruleType loc a0 =
     (let a = a0\<lparr>wa_type := orElse (upperTrim L (wa_type a0)) ''SHOW_PAGE''\<rparr>
      in if wa_type a = ''SHOW_PAGE'' \<or> wa_type a = ''BLOCK''
         then (let a = (if wa_statusCode a = 0
                        then a\<lparr>wa_statusCode := (if ruleType = ''RATE_LIMIT'' then 429 else 403)\<rparr> else a)
               in if wa_statusCode a < 400 \<or> wa_statusCode a > 599 then Err (ActionStatus loc)
                  else if wa_type a = ''SHOW_PAGE''
                  then bindE (normalizeWAFResponse L loc (wa_response a)) (\<lambda>r. Ok (a\<lparr>wa_response := r\<rparr>))
                  else Ok a)
         else if wa_type a = ''CAPTCHA'' \<or> wa_type a = ''ALLOW'' \<or> wa_type a = ''MONITOR'' then Ok a
         else if wa_type a = ''REDIRECT''
         then (let a = a\<lparr>wa_redirectURL := TrimSpace (wa_redirectURL a)\<rparr>
               in if ContainsAny (wa_redirectURL a) [CHR 0x0D, CHR 0x0A] \<or> wa_redirectURL a = [] then Err (ActionRedirectURL loc)
                  else if \<not> redirectAllowed L (wa_redirectURL a) then Err (ActionRedirectURL loc)
                  else let a = (if wa_redirectStatus a = 0 then a\<lparr>wa_redirectStatus := 302\<rparr> else a)
                       in if wa_redirectStatus a \<in> {301, 302, 303, 307, 308} then Ok a
                          else Err (ActionRedirectStatus loc))
         else if wa_type a = ''TAG''
         then (let a = a\<lparr>wa_tag := TrimSpace (wa_tag a)\<rparr>
               in if \<not> tagPattern (wa_tag a) then Err (ActionTag loc) else Ok a)
         else Err (ActionUnsupported loc))"

subsection \<open>The policy\<close>

definition ruleBody :: "golib \<Rightarrow> netip \<Rightarrow> location \<Rightarrow> string set \<Rightarrow> WAFRule \<Rightarrow> waf_error + (WAFRule \<times> string set)" where
  "ruleBody L N loc seen r =
     (if wr_type r = ''MATCH''
      then (let r = r\<lparr>wr_key := [], wr_keyName := [], wr_requests := 0, wr_windowSeconds := 0, wr_burst := 0,
                      wr_backend := [], wr_failureMode := []\<rparr>
            in bindE (normalizeWAFConditions L N loc (wr_id r) True seen (wr_conditions r))
                 (\<lambda>(c, seen'). Ok (r\<lparr>wr_conditions := c\<rparr>, seen')))
      else if wr_type r = ''RATE_LIMIT''
      then bindE (normalizeRateRule L loc r) (\<lambda>r.
             bindE (normalizeWAFConditions L N loc (wr_id r) False seen (wr_conditions r))
               (\<lambda>(c, seen'). Ok (r\<lparr>wr_conditions := c\<rparr>, seen')))
      else Err (RuleTypeUnsupported loc))"

definition ruleStep :: "golib \<Rightarrow> netip \<Rightarrow> nat \<Rightarrow> string \<Rightarrow> nat \<Rightarrow> string set \<Rightarrow> WAFRule
    \<Rightarrow> waf_error + (WAFRule \<times> string set)" where
  "ruleStep L N setIndex setID ruleIndex seen r0 =
     (let loc = [setIndex, ruleIndex];
          r1 = r0\<lparr>wr_id := orElse (TrimSpace (wr_id r0)) (setID @ ''-rule-'' @ decimal (ruleIndex + 1))\<rparr>
      in bindE (uniqueWAFID loc seen (wr_id r1)) (\<lambda>seen1.
         let r2 = r1\<lparr>wr_name := orElse (TrimSpace (wr_name r1)) (''Rule '' @ decimal (ruleIndex + 1))\<rparr>
         in if length (wr_name r2) > 128 then Err (NameTooLong loc)
            else
              let r3 = r2\<lparr>wr_type := orElse (upperTrim L (wr_type r2)) ''MATCH''\<rparr>
              in bindE (ruleBody L N loc seen1 r3) (\<lambda>(r, seen2).
                 bindE (normalizeWAFAction L (wr_type r) loc (wr_action r)) (\<lambda>a.
                   Ok (r\<lparr>wr_action := a\<rparr>, seen2)))))"

definition setStep :: "golib \<Rightarrow> netip \<Rightarrow> nat \<Rightarrow> string set \<Rightarrow> WAFRuleSet \<Rightarrow> waf_error + (WAFRuleSet \<times> string set)" where
  "setStep L N setIndex seen s0 =
     (let s = s0\<lparr>ws_id := orElse (TrimSpace (ws_id s0)) (''rule-set-'' @ decimal (setIndex + 1)),
                 ws_name := orElse (TrimSpace (ws_name s0)) (''Rule set '' @ decimal (setIndex + 1))\<rparr>
      in bindE (uniqueWAFID [setIndex] seen (ws_id s)) (\<lambda>seen1.
         if length (ws_name s) > 128 then Err (NameTooLong [setIndex])
         else if length (ws_rules s) > 64 then Err (TooManyWAFRules setIndex)
         else bindE (mapAccumE (ruleStep L N setIndex (ws_id s)) 0 seen1 (ws_rules s))
                (\<lambda>(rules, seen2). Ok (s\<lparr>ws_rules := rules\<rparr>, seen2))))"

definition WAFPolicy_NormalizeAndValidate :: "golib \<Rightarrow> netip \<Rightarrow> WAFPolicy \<Rightarrow> waf_error + WAFPolicy" where
  "WAFPolicy_NormalizeAndValidate L N p0 =
     (let p1 = p0\<lparr>wp_geoIPDatabase := TrimSpace (wp_geoIPDatabase p0),
                  wp_bodyOverLimitAction := orElse (upperTrim L (wp_bodyOverLimitAction p0)) ''PARTIAL''\<rparr>
      in if wp_bodyOverLimitAction p1 \<noteq> ''BLOCK'' \<and> wp_bodyOverLimitAction p1 \<noteq> ''PARTIAL'' then Err BodyOverLimitAction
         else if wp_bodyInspectLimitBytes p1 < 0 then Err NegativeInspectLimit
         else let p2 = (if wp_bodyInspectLimitBytes p1 = 0 then p1\<lparr>wp_bodyInspectLimitBytes := 65536\<rparr> else p1)
         in if wp_bodyInspectLimitBytes p2 > 67108864 then Err InspectLimitTooBig
         else bindE (normalizeWAFPrefixes N [] (wp_trustedProxies p2)) (\<lambda>proxies.
           if wp_trustedProxyChain p2 \<and> length proxies = 0 then Err TrustedProxiesRequired
           else let sets = (case wp_ruleSets p2 of None \<Rightarrow> defaultRuleSets | Some sets \<Rightarrow> sets)
           in if length sets > 64 then Err TooManyRuleSets
           else bindE (mapAccumE (setStep L N) 0 {} sets) (\<lambda>(sets', seen).
             Ok (p2\<lparr>wp_trustedProxies := proxies, wp_ruleSets := Some sets'\<rparr>))))"

definition NormalizeAndValidatePublic :: "golib \<Rightarrow> netip \<Rightarrow> WAFPolicy \<Rightarrow> waf_error + WAFPolicy" where
  "NormalizeAndValidatePublic L N p = WAFPolicy_NormalizeAndValidate L N (p\<lparr>wp_geoIPDatabase := []\<rparr>)"

definition NeedsGeoIP :: "WAFPolicy \<Rightarrow> bool" where
  "NeedsGeoIP p =
     list_ex (\<lambda>set. list_ex (\<lambda>rule. list_ex (\<lambda>group. list_ex
       (\<lambda>condition. wn_field condition = ''COUNTRY'' \<or> wn_field condition = ''REGION'') (wg_conditions group))
       (wc_groups (wr_conditions rule))) (ws_rules set))
       (case wp_ruleSets p of None \<Rightarrow> [] | Some sets \<Rightarrow> sets)"

subsection \<open>Generated ids\<close>

lemma trimmed_append:
  assumes "trimmed s" "s \<noteq> []" "list_all graphic t" "t \<noteq> []"
  shows "trimmed (s @ t)"
proof -
  have nograph: "list_all (\<lambda>p. list_all (\<lambda>c. \<not> graphic c) p) spaces"
    by code_simp
  have "\<not> HasPrefix (s @ t) p" if p: "p \<in> set spaces" for p
  proof
    assume "HasPrefix (s @ t) p"
    then obtain u where u: "s @ t = p @ u"
      by (auto simp: HasPrefix_iff)
    have "length p > length s"
    proof (rule ccontr)
      assume "\<not> length p > length s"
      then have "HasPrefix s p"
        using u by (auto simp: HasPrefix_iff append_eq_append_conv2)
      then show False
        using assms(1) p by (simp add: trimmed_def noFirst_def firstOf_None)
    qed
    then have "p ! length s = t ! 0"
      using u by (metis nth_append append_Nil2 assms(4) length_greater_0_conv nth_append_length_plus add_0_right)
    moreover have "graphic (t ! 0)" "\<not> graphic (p ! length s)"
      using assms(3,4) nograph p \<open>length p > length s\<close> by (auto simp: list_all_iff list_all_length)
    ultimately show False by simp
  qed
  moreover have "graphic (hd (rev (s @ t)))"
    using assms(3,4) by (simp add: hd_append hd_rev list_all_iff)
  ultimately show ?thesis
    by (simp add: trimmed_def noFirst_def firstOf_None graphic_noFirst(2) [unfolded noFirst_def firstOf_None] del: rev_append)
qed

lemma hex_graphic: "list_all graphic (hex bs)"
proof -
  have "graphic (hexDigit n)" if "n < 16" for n
    using that by (auto simp: hexDigit_def graphic_def)
  moreover have "unat (b :: byte) div 16 < 16" "unat b mod 16 < 16" for b
    using unat_byte_less [of b] by auto
  ultimately show ?thesis
    by (auto simp: hex_def list_all_iff)
qed

lemma childID_facts:
  assumes "list_all graphic kind"
  shows "TrimSpace (generatedWAFChildID L kind p i) = generatedWAFChildID L kind p i"
    "generatedWAFChildID L kind p i \<noteq> []"
proof -
  have "graphic CHR ''-''" by (simp add: graphic_def)
  then have "list_all graphic (generatedWAFChildID L kind p i)"
    using assms hex_graphic decimal_graphic by (simp add: generatedWAFChildID_def)
  then show "TrimSpace (generatedWAFChildID L kind p i) = generatedWAFChildID L kind p i"
    by (rule TrimSpace_graphic)
  show "generatedWAFChildID L kind p i \<noteq> []"
    by (simp add: generatedWAFChildID_def)
qed

lemma kinds_graphic: "list_all graphic ''group''" "list_all graphic ''condition''" "list_all graphic ''rule-set-''"
  "list_all graphic ''-rule-''"
  by (simp_all add: graphic_def)

lemmas childIDs_trim =
  childID_facts(1) [OF kinds_graphic(1)] childID_facts(1) [OF kinds_graphic(2)]

lemma waf_words:
  "upperTrim L ''AND'' = ''AND''" "upperTrim L ''OR'' = ''OR''" "upperTrim L ''MATCH'' = ''MATCH''"
  "upperTrim L ''LOCAL'' = ''LOCAL''" "upperTrim L ''DEFAULT'' = ''DEFAULT''" "upperTrim L ''SHOW_PAGE'' = ''SHOW_PAGE''"
  "upperTrim L ''PARTIAL'' = ''PARTIAL''" "upperTrim L ''BLOCK'' = ''BLOCK''" "upperTrim L ''REDIS'' = ''REDIS''"
  "upperTrim L ''OPEN'' = ''OPEN''" "upperTrim L ''CLOSED'' = ''CLOSED''" "upperTrim L ''RATE_LIMIT'' = ''RATE_LIMIT''"
  by (simp_all add: upperTrim_upper graphic_def between_def)

subsection \<open>Normal forms of conditions\<close>

lemma trimCondition_idem: "case_ok L \<Longrightarrow> trimCondition L (trimCondition L c) = trimCondition L c"
  by (simp add: trimCondition_def lowerTrim_idem)

lemma conditionField_facts:
  assumes "conditionField loc c = Ok d"
  shows "conditionField loc d = Ok d"
    "wn_field d = wn_field c" "wn_operator d = wn_operator c" "wn_value d = wn_value c" "wn_values d = wn_values c"
    "wn_id d = wn_id c" "trimmed (wn_fieldName c) \<Longrightarrow> trimmed (wn_fieldName d)"
  using assms graphic_trimmed [of "[]"]
  by (auto simp: conditionField_def Let_def canonical_trimmed split: if_splits)

lemma conditionOperator_facts:
  assumes "conditionOperator L N loc c = Ok d"
  shows "conditionOperator L N loc d = Ok d" "d = c \<or> d = c\<lparr>wn_value := [], wn_values := []\<rparr>"
proof -
  have "conditionOperator L N loc d = Ok d \<and> (d = c \<or> d = c\<lparr>wn_value := [], wn_values := []\<rparr>)"
  proof (cases "wn_operator c = ''EXISTS''")
    case True
    then have "d = c\<lparr>wn_value := [], wn_values := []\<rparr>"
      using assms by (simp add: conditionOperator_def)
    then show ?thesis
      using True by (simp add: conditionOperator_def)
  next
    case False
    then have "d = c"
      using assms unfolding conditionOperator_def by (simp split: if_splits option.splits)
    then show ?thesis
      using assms by simp
  qed
  then show "conditionOperator L N loc d = Ok d" "d = c \<or> d = c\<lparr>wn_value := [], wn_values := []\<rparr>"
    by simp_all
qed

lemma conditionField_other:
  "conditionField loc c = Ok c \<Longrightarrow>
   conditionField loc (c\<lparr>wn_value := v, wn_values := vs\<rparr>) = Ok (c\<lparr>wn_value := v, wn_values := vs\<rparr>)"
  by (cases c) (auto simp: conditionField_def Let_def split: if_splits)

definition condTrimmed :: "golib \<Rightarrow> WAFCondition \<Rightarrow> bool" where
  "condTrimmed L c \<longleftrightarrow> upperTrim L (wn_field c) = wn_field c \<and> TrimSpace (wn_fieldName c) = wn_fieldName c
     \<and> upperTrim L (wn_operator c) = wn_operator c \<and> TrimSpace (wn_value c) = wn_value c
     \<and> map TrimSpace (wn_values c) = wn_values c"

lemma condTrimmed_id: "condTrimmed L c \<Longrightarrow> trimCondition L c = c"
  by (simp add: condTrimmed_def trimCondition_def)

lemma condTrimmed_trim: "case_ok L \<Longrightarrow> condTrimmed L (trimCondition L c)"
  by (simp add: condTrimmed_def trimCondition_def lowerTrim_idem)

lemma condition_idem:
  assumes "case_ok L" "normalizeWAFCondition L N loc c = Ok d"
  shows "normalizeWAFCondition L N loc d = Ok d" "wn_id d = wn_id c"
proof -
  let ?t = "trimCondition L c"
  obtain u where u: "conditionField loc ?t = Ok u" "conditionOperator L N loc u = Ok d"
    using assms(2) by (auto simp: normalizeWAFCondition_def bindE_Ok)
  note f = conditionField_facts [OF u(1)] and o = conditionOperator_facts [OF u(2)]
  have "TrimSpace (wn_fieldName u) = wn_fieldName u"
    by (rule trimmed_id [OF f(7)]) (simp add: trimCondition_def)
  then have "condTrimmed L u"
    using condTrimmed_trim [OF assms(1), of c] by (simp add: condTrimmed_def f(2-5))
  then have "condTrimmed L d"
    using o(2) by (auto simp: condTrimmed_def)
  note t = condTrimmed_id [OF this]
  have "conditionField loc d = Ok d"
    using o(2) f(1) conditionField_other by auto
  then show "normalizeWAFCondition L N loc d = Ok d"
    by (simp add: normalizeWAFCondition_def t o(1))
  show "wn_id d = wn_id c"
    using o(2) f(6) by (auto simp: trimCondition_def)
qed

lemma orElse_idem:
  "TrimSpace d = d \<Longrightarrow> orElse (TrimSpace (orElse (TrimSpace s) d)) d = orElse (TrimSpace s) d"
  by (simp add: orElse_def)

lemma orElse_upper:
  "case_ok L \<Longrightarrow> upperTrim L d = d \<Longrightarrow> orElse (upperTrim L (orElse (upperTrim L s) d)) d = orElse (upperTrim L s) d"
  by (simp add: orElse_def lowerTrim_idem)

lemma conditionStep_facts:
  assumes "case_ok L" "conditionStep L N loc g i seen c = Ok (d, seen')"
  shows "conditionStep L N loc g i seen d = Ok (d, seen')" "uniqueWAFID (loc @ [i]) seen (wn_id d) = Ok seen'"
proof -
  let ?i = "orElse (TrimSpace (wn_id c)) (generatedWAFChildID L ''condition'' g i)"
  have u: "uniqueWAFID (loc @ [i]) seen ?i = Ok seen'"
    and n: "normalizeWAFCondition L N (loc @ [i]) (c\<lparr>wn_id := ?i\<rparr>) = Ok d"
    using assms(2) by (auto simp: conditionStep_def Let_def bindE_Ok)
  note f = condition_idem [OF assms(1) n]
  show "uniqueWAFID (loc @ [i]) seen (wn_id d) = Ok seen'"
    using u f(2) by simp
  moreover have "orElse (TrimSpace (wn_id d)) (generatedWAFChildID L ''condition'' g i) = wn_id d"
    using f(2) by (simp add: orElse_idem childIDs_trim)
  ultimately show "conditionStep L N loc g i seen d = Ok (d, seen')"
    using f(1) by (simp add: conditionStep_def)
qed

lemma groupStep_facts:
  assumes "case_ok L" "groupStep L N loc p i seen g = Ok (h, seen')"
  obtains seen1 cs where
    "wg_id h = orElse (TrimSpace (wg_id g)) (generatedWAFChildID L ''group'' p i)"
    "wg_operator h = orElse (upperTrim L (wg_operator g)) ''AND''"
    "uniqueWAFID (loc @ [i]) seen (wg_id h) = Ok seen1"
    "wg_operator h = ''AND'' \<or> wg_operator h = ''OR''" "cs \<noteq> []" "length cs \<le> 16"
    "mapAccumE (conditionStep L N (loc @ [i]) (wg_id h)) 0 seen1 cs = Ok (wg_conditions h, seen')"
  using assms(2) by (auto simp: groupStep_def Let_def bindE_Ok split: if_splits)

lemma groupStep_idem:
  assumes "case_ok L" "groupStep L N loc p i seen g = Ok (h, seen')"
  shows "groupStep L N loc p i seen h = Ok (h, seen')"
proof -
  obtain seen1 cs where f:
    "wg_id h = orElse (TrimSpace (wg_id g)) (generatedWAFChildID L ''group'' p i)"
    "wg_operator h = orElse (upperTrim L (wg_operator g)) ''AND''"
    "uniqueWAFID (loc @ [i]) seen (wg_id h) = Ok seen1"
    "wg_operator h = ''AND'' \<or> wg_operator h = ''OR''" "cs \<noteq> []" "length cs \<le> 16"
    "mapAccumE (conditionStep L N (loc @ [i]) (wg_id h)) 0 seen1 cs = Ok (wg_conditions h, seen')"
    using groupStep_facts [OF assms] .
  have i: "orElse (TrimSpace (wg_id h)) (generatedWAFChildID L ''group'' p i) = wg_id h"
      "orElse (upperTrim L (wg_operator h)) ''AND'' = wg_operator h"
    by (simp_all add: f(1,2) orElse_idem orElse_upper [OF assms(1)] waf_words childIDs_trim)
  have "mapAccumE (conditionStep L N (loc @ [i]) (wg_id h)) 0 seen1 (wg_conditions h) = Ok (wg_conditions h, seen')"
    by (rule mapAccumE_idem [OF f(7) conditionStep_facts(1) [OF assms(1)]])
  moreover have "length (wg_conditions h) = length cs"
    by (rule mapAccumE_length [OF f(7)])
  ultimately show ?thesis
    using f(3-6) by (auto simp: groupStep_def i)
qed

lemma wafConditions_facts:
  assumes "normalizeWAFConditions L N loc p required seen c = Ok (d, seen')"
  shows "mapAccumE (groupStep L N loc p) 0 seen (wc_groups c) = Ok (wc_groups d, seen')"
    "wc_operator d = orElse (upperTrim L (wc_operator c)) ''AND''" "wc_operator d = ''AND'' \<or> wc_operator d = ''OR''"
    "length (wc_groups c) \<le> 16" "required \<Longrightarrow> wc_groups c \<noteq> []"
  using assms by (auto simp: normalizeWAFConditions_def Let_def bindE_Ok split: if_splits)

lemma wafConditions_idem:
  assumes "case_ok L" "normalizeWAFConditions L N loc p required seen c = Ok (d, seen')"
  shows "normalizeWAFConditions L N loc p required seen d = Ok (d, seen')"
proof -
  note f = wafConditions_facts [OF assms(2)]
  have o: "orElse (upperTrim L (wc_operator d)) ''AND'' = wc_operator d"
    by (simp add: f(2) orElse_upper [OF assms(1)] waf_words)
  have m: "mapAccumE (groupStep L N loc p) 0 seen (wc_groups d) = Ok (wc_groups d, seen')"
    by (rule mapAccumE_idem [OF f(1) groupStep_idem [OF assms(1)]])
  have l: "length (wc_groups d) = length (wc_groups c)"
    by (rule mapAccumE_length [OF f(1)])
  show ?thesis
  proof (cases "wc_groups d = []")
    case True
    then have "\<not> required" "seen' = seen"
      using f(5) l m by auto
    then show ?thesis
      using True f(3) by (auto simp: normalizeWAFConditions_def o)
  next
    case False
    then show ?thesis
      using m f(3,4) l by (auto simp: normalizeWAFConditions_def o)
  qed
qed

subsection \<open>Normal forms of rules and actions\<close>

lemma rateKey_facts:
  assumes "case_ok L" "rateKey L loc r = Ok s"
  shows "rateKey L loc s = Ok s"
    "s = r\<lparr>wr_key := wr_key s, wr_keyName := wr_keyName s\<rparr>"
proof -
  let ?k = "upperTrim L (wr_key r)" and ?n = "TrimSpace (wr_keyName r)"
  have k: "upperTrim L ?k = ?k"
    by (simp add: lowerTrim_idem assms(1))
  consider (plain) "?k \<in> set plainKeys" | (header) "?k \<notin> set plainKeys" "?k = ''HEADER''"
    | (cookie) "?k \<notin> set plainKeys" "?k \<noteq> ''HEADER''" "?k = ''COOKIE''"
    using assms(2) by (fastforce simp: rateKey_def Let_def)
  then have "rateKey L loc s = Ok s \<and> s = r\<lparr>wr_key := wr_key s, wr_keyName := wr_keyName s\<rparr>"
  proof cases
    case plain
    then have "s = r\<lparr>wr_key := ?k, wr_keyName := []\<rparr>"
      using assms(2) by (simp add: rateKey_def)
    then show ?thesis
      using plain k by (simp add: rateKey_def)
  next
    case header
    then have "s = r\<lparr>wr_key := ?k, wr_keyName := CanonicalHeaderKey ?n\<rparr>" "?n \<noteq> []"
      using assms(2) by (auto simp: rateKey_def Let_def split: if_splits)
    moreover have "TrimSpace (CanonicalHeaderKey ?n) = CanonicalHeaderKey ?n"
      by (simp add: canonical_trimmed trimmed_id)
    ultimately show ?thesis
      using header k by (simp add: rateKey_def)
  next
    case cookie
    then have "s = r\<lparr>wr_key := ?k, wr_keyName := ?n\<rparr>" "?n \<noteq> []"
      using assms(2) by (auto simp: rateKey_def Let_def split: if_splits)
    then show ?thesis
      using cookie k by (simp add: rateKey_def)
  qed
  then show "rateKey L loc s = Ok s" "s = r\<lparr>wr_key := wr_key s, wr_keyName := wr_keyName s\<rparr>"
    by blast+
qed

lemma rateKey_commute:
  "rateKey L loc (r\<lparr>wr_backend := b, wr_failureMode := m\<rparr>) =
     map_sum id (\<lambda>s. s\<lparr>wr_backend := b, wr_failureMode := m\<rparr>) (rateKey L loc r)"
  by (simp add: rateKey_def Let_def)

lemma rateRule_idem:
  assumes "case_ok L" "normalizeRateRule L loc r = Ok s"
  shows "normalizeRateRule L loc s = Ok s" "wr_id s = wr_id r" "wr_type s = wr_type r" "wr_name s = wr_name r"
    "wr_conditions s = wr_conditions r" "wr_action s = wr_action r"
    "1 \<le> wr_requests s \<and> wr_requests s \<le> 1000000 \<and> 1 \<le> wr_windowSeconds s \<and> wr_windowSeconds s \<le> 3600
     \<and> 0 \<le> wr_burst s \<and> wr_burst s \<le> wr_requests s * 10"
proof -
  obtain u where u: "rateKey L loc r = Ok u"
    using assms(2) by (auto simp: normalizeRateRule_def bindE_Ok)
  let ?b = "orElse (upperTrim L (wr_backend u)) ''LOCAL''" and ?m = "orElse (upperTrim L (wr_failureMode u)) ''LOCAL''"
  let ?f = "if ?b = ''LOCAL'' then ''LOCAL'' else ?m"
  have b: "\<not> (wr_requests u < 1 \<or> wr_requests u > 1000000)" "\<not> (wr_windowSeconds u < 1 \<or> wr_windowSeconds u > 3600)"
      "\<not> (wr_burst u < 0 \<or> wr_burst u > wr_requests u * 10)"
      "?b = ''LOCAL'' \<or> ?b = ''REDIS''" "?m = ''OPEN'' \<or> ?m = ''CLOSED'' \<or> ?m = ''LOCAL''"
      and s: "s = u\<lparr>wr_backend := ?b, wr_failureMode := ?f\<rparr>"
    using assms(2) u by (simp_all add: normalizeRateRule_def Let_def split: if_splits)
  note k = rateKey_facts [OF assms(1) u]
  have "rateKey L loc s = Ok s"
    by (simp add: s rateKey_commute k(1))
  moreover have "orElse (upperTrim L ?b) ''LOCAL'' = ?b" "orElse (upperTrim L ?f) ''LOCAL'' = ?f"
    by (simp_all add: orElse_upper [OF assms(1)] waf_words) (simp add: orElse_def waf_words)
  ultimately show "normalizeRateRule L loc s = Ok s"
    using b by (auto simp: normalizeRateRule_def Let_def s)
  show "wr_id s = wr_id r" "wr_type s = wr_type r" "wr_name s = wr_name r" "wr_conditions s = wr_conditions r"
      "wr_action s = wr_action r"
    unfolding s by (simp_all, (subst k(2), simp)+)
  show "1 \<le> wr_requests s \<and> wr_requests s \<le> 1000000 \<and> 1 \<le> wr_windowSeconds s \<and> wr_windowSeconds s \<le> 3600
     \<and> 0 \<le> wr_burst s \<and> wr_burst s \<le> wr_requests s * 10"
    using b(1-3) by (simp add: s)
qed

lemma response_idem:
  assumes "case_ok L" "normalizeWAFResponse L loc r = Ok s"
  shows "normalizeWAFResponse L loc s = Ok s"
proof -
  let ?t = "orElse (upperTrim L (we_type r)) ''DEFAULT''"
  have t: "orElse (upperTrim L ?t) ''DEFAULT'' = ?t"
    by (simp add: orElse_upper [OF assms(1)] waf_words)
  consider "?t = ''DEFAULT''" "s = r\<lparr>we_type := ?t, we_body := []\<rparr>" | "?t \<noteq> ''DEFAULT''" "s = r\<lparr>we_type := ?t\<rparr>"
    using assms(2) by (auto simp: normalizeWAFResponse_def Let_def split: if_splits)
  then show ?thesis
  proof cases
    case 1
    then show ?thesis
      using t by (simp add: normalizeWAFResponse_def)
  next
    case 2
    then have "normalizeWAFResponse L loc s = normalizeWAFResponse L loc r"
      using t by (simp add: normalizeWAFResponse_def)
    then show ?thesis
      using assms(2) by simp
  qed
qed

lemma action_idem:
  assumes "case_ok L" "normalizeWAFAction L t loc a = Ok b"
  shows "normalizeWAFAction L t loc b = Ok b"
proof -
  let ?t = "orElse (upperTrim L (wa_type a)) ''SHOW_PAGE''"
  let ?c = "if wa_statusCode a = 0 then (if t = ''RATE_LIMIT'' then 429 else 403) else wa_statusCode a"
  let ?s = "if wa_redirectStatus a = 0 then 302 else wa_redirectStatus a"
  have t: "orElse (upperTrim L ?t) ''SHOW_PAGE'' = ?t"
    by (simp add: orElse_upper [OF assms(1)] waf_words)
  consider (page) "?t = ''SHOW_PAGE''" | (block) "?t = ''BLOCK''"
    | (pass) "?t = ''CAPTCHA'' \<or> ?t = ''ALLOW'' \<or> ?t = ''MONITOR''" | (redirect) "?t = ''REDIRECT''" | (tag) "?t = ''TAG''"
  proof -
    have "?t = ''SHOW_PAGE'' \<or> ?t = ''BLOCK'' \<or> (?t = ''CAPTCHA'' \<or> ?t = ''ALLOW'' \<or> ?t = ''MONITOR'')
        \<or> ?t = ''REDIRECT'' \<or> ?t = ''TAG''"
      by (rule ccontr) (use assms(2) in \<open>simp add: normalizeWAFAction_def Let_def\<close>)
    then show ?thesis
      using that by blast
  qed
  then show ?thesis
  proof cases
    case page
    then obtain r where r: "normalizeWAFResponse L loc (wa_response a) = Ok r" "400 \<le> ?c" "?c \<le> 599"
        "b = a\<lparr>wa_type := ?t, wa_statusCode := ?c, wa_response := r\<rparr>"
      using assms(2) by (auto simp: normalizeWAFAction_def Let_def bindE_Ok split: if_splits)
    then show ?thesis
      using page t response_idem [OF assms(1) r(1)] by (auto simp: normalizeWAFAction_def)
  next
    case block
    then have r: "400 \<le> ?c" "?c \<le> 599" "b = a\<lparr>wa_type := ?t, wa_statusCode := ?c\<rparr>"
      using assms(2) by (auto simp: normalizeWAFAction_def Let_def split: if_splits)
    then show ?thesis
      using block t by (auto simp: normalizeWAFAction_def)
  next
    case pass
    then have "b = a\<lparr>wa_type := ?t\<rparr>"
      using assms(2) by (auto simp: normalizeWAFAction_def Let_def)
    then show ?thesis
      using pass t by (auto simp: normalizeWAFAction_def Let_def)
  next
    case redirect
    let ?u = "TrimSpace (wa_redirectURL a)"
    have r: "b = a\<lparr>wa_type := ?t, wa_redirectURL := ?u, wa_redirectStatus := ?s\<rparr>"
        "?s \<in> {301, 302, 303, 307, 308}" "\<not> ContainsAny ?u [CHR 0x0D, CHR 0x0A]" "?u \<noteq> []" "redirectAllowed L ?u"
      using assms(2) redirect by (auto simp: normalizeWAFAction_def Let_def split: if_splits)
    define c where "c = ?s"
    have "c \<noteq> 0" "c \<in> {301, 302, 303, 307, 308}"
      using r(2) unfolding c_def by auto
    then show ?thesis
      using redirect t r(3-5) unfolding r(1) c_def [symmetric] by (simp add: normalizeWAFAction_def)
  next
    case tag
    then have "b = a\<lparr>wa_type := ?t, wa_tag := TrimSpace (wa_tag a)\<rparr>" "tagPattern (TrimSpace (wa_tag a))"
      using assms(2) by (auto simp: normalizeWAFAction_def Let_def split: if_splits)
    then show ?thesis
      using tag t by (simp add: normalizeWAFAction_def)
  qed
qed

lemma rateRule_commute:
  "normalizeRateRule L loc (r\<lparr>wr_conditions := c\<rparr>) = map_sum id (\<lambda>s. s\<lparr>wr_conditions := c\<rparr>) (normalizeRateRule L loc r)"
  "normalizeRateRule L loc (r\<lparr>wr_action := a\<rparr>) = map_sum id (\<lambda>s. s\<lparr>wr_action := a\<rparr>) (normalizeRateRule L loc r)"
proof -
  have "rateKey L loc (r\<lparr>wr_conditions := c\<rparr>) = map_sum id (\<lambda>s. s\<lparr>wr_conditions := c\<rparr>) (rateKey L loc r)"
      "rateKey L loc (r\<lparr>wr_action := a\<rparr>) = map_sum id (\<lambda>s. s\<lparr>wr_action := a\<rparr>) (rateKey L loc r)"
    by (simp_all add: rateKey_def Let_def)
  then show "normalizeRateRule L loc (r\<lparr>wr_conditions := c\<rparr>) = map_sum id (\<lambda>s. s\<lparr>wr_conditions := c\<rparr>) (normalizeRateRule L loc r)"
      "normalizeRateRule L loc (r\<lparr>wr_action := a\<rparr>) = map_sum id (\<lambda>s. s\<lparr>wr_action := a\<rparr>) (normalizeRateRule L loc r)"
    by (cases "rateKey L loc r"; simp add: normalizeRateRule_def Let_def)+
qed

lemma ruleBody_commute:
  "ruleBody L N loc seen r = Ok (s, seen') \<Longrightarrow>
   ruleBody L N loc seen (r\<lparr>wr_action := a\<rparr>) = Ok (s\<lparr>wr_action := a\<rparr>, seen')"
  by (auto simp: ruleBody_def Let_def bindE_Ok rateRule_commute split: if_splits)

lemma ruleBody_facts:
  assumes "case_ok L" "ruleBody L N loc seen r = Ok (s, seen')"
  shows "ruleBody L N loc seen s = Ok (s, seen')"
    "wr_id s = wr_id r" "wr_name s = wr_name r" "wr_type s = wr_type r" "wr_action s = wr_action r"
proof -
  have "ruleBody L N loc seen s = Ok (s, seen') \<and> wr_id s = wr_id r \<and> wr_name s = wr_name r \<and> wr_type s = wr_type r
      \<and> wr_action s = wr_action r"
  proof (cases "wr_type r = ''MATCH''")
    case True
    then obtain c where c: "normalizeWAFConditions L N loc (wr_id r) True seen (wr_conditions r) = Ok (c, seen')"
        "s = r\<lparr>wr_key := [], wr_keyName := [], wr_requests := 0, wr_windowSeconds := 0, wr_burst := 0,
               wr_backend := [], wr_failureMode := [], wr_conditions := c\<rparr>"
      using assms(2) by (auto simp: ruleBody_def Let_def bindE_Ok)
    show ?thesis
      using wafConditions_idem [OF assms(1) c(1)] True by (simp add: ruleBody_def c(2))
  next
    case False
    then obtain u c where u: "wr_type r = ''RATE_LIMIT''" "normalizeRateRule L loc r = Ok u"
        "normalizeWAFConditions L N loc (wr_id u) False seen (wr_conditions u) = Ok (c, seen')"
        "s = u\<lparr>wr_conditions := c\<rparr>"
      using assms(2) by (auto simp: ruleBody_def bindE_Ok split: if_splits)
    note k = rateRule_idem [OF assms(1) u(2)]
    show ?thesis
      using wafConditions_idem [OF assms(1) u(3)] u(1) k(1-4,6)
      by (simp add: ruleBody_def u(4) rateRule_commute)
  qed
  then show "ruleBody L N loc seen s = Ok (s, seen')"
      "wr_id s = wr_id r" "wr_name s = wr_name r" "wr_type s = wr_type r" "wr_action s = wr_action r"
    by blast+
qed

lemma ruleID_trim:
  assumes "trimmed i" "i \<noteq> []"
  shows "TrimSpace (i @ ''-rule-'' @ decimal n) = i @ ''-rule-'' @ decimal n"
  by (rule trimmed_id, rule trimmed_append [OF assms])
    (simp_all add: kinds_graphic [simplified] decimal_graphic)

lemma name_trim:
  "TrimSpace (''Rule '' @ decimal n) = ''Rule '' @ decimal n"
  "TrimSpace (''Rule set '' @ decimal n) = ''Rule set '' @ decimal n"
  "TrimSpace (''rule-set-'' @ decimal n) = ''rule-set-'' @ decimal n"
proof -
  have t: "trimmed (x @ decimal n)" if "x \<noteq> []" "graphic (hd x)" for x
  proof -
    have "graphic (last (decimal n))"
      using decimal_graphic [of n] decimal_nonempty [of n] by (simp add: list_all_iff)
    then show ?thesis
      using that decimal_nonempty [of n] graphic_noFirst(1) [of "x @ decimal n"] graphic_noFirst(2) [of "rev (x @ decimal n)"]
      by (simp add: trimmed_def hd_append hd_rev)
  qed
  show "TrimSpace (''Rule '' @ decimal n) = ''Rule '' @ decimal n"
    by (rule trimmed_id, rule t) (simp_all add: graphic_def)
  show "TrimSpace (''Rule set '' @ decimal n) = ''Rule set '' @ decimal n"
    by (rule trimmed_id, rule t) (simp_all add: graphic_def)
  show "TrimSpace (''rule-set-'' @ decimal n) = ''rule-set-'' @ decimal n"
    by (rule trimmed_id, rule t) (simp_all add: graphic_def)
qed

lemma ruleStep_facts:
  assumes "case_ok L" "ruleStep L N si i ri seen r = Ok (s, seen')"
  obtains seen1 u where
    "wr_id s = orElse (TrimSpace (wr_id r)) (i @ ''-rule-'' @ decimal (ri + 1))"
    "wr_name s = orElse (TrimSpace (wr_name r)) (''Rule '' @ decimal (ri + 1))"
    "wr_type s = orElse (upperTrim L (wr_type r)) ''MATCH''"
    "uniqueWAFID [si, ri] seen (wr_id s) = Ok seen1" "length (wr_name s) \<le> 128"
    "ruleBody L N [si, ri] seen1 u = Ok (u, seen')" "s = u\<lparr>wr_action := wr_action s\<rparr>"
    "normalizeWAFAction L (wr_type s) [si, ri] (wr_action s) = Ok (wr_action s)"
proof -
  let ?r = "r\<lparr>wr_id := orElse (TrimSpace (wr_id r)) (i @ ''-rule-'' @ decimal (ri + 1)),
              wr_name := orElse (TrimSpace (wr_name r)) (''Rule '' @ decimal (ri + 1)),
              wr_type := orElse (upperTrim L (wr_type r)) ''MATCH''\<rparr>"
  obtain seen1 u a where f: "uniqueWAFID [si, ri] seen (wr_id ?r) = Ok seen1" "length (wr_name ?r) \<le> 128"
      "ruleBody L N [si, ri] seen1 ?r = Ok (u, seen')" "normalizeWAFAction L (wr_type u) [si, ri] (wr_action u) = Ok a"
      "s = u\<lparr>wr_action := a\<rparr>"
    using assms(2) by (auto simp: ruleStep_def Let_def bindE_Ok split: if_splits)
  note b = ruleBody_facts [OF assms(1) f(3)]
  show ?thesis
    using that [of seen1 u] f(1,2) b action_idem [OF assms(1) f(4)] by (simp add: f(5))
qed

lemma ruleStep_idem:
  assumes "case_ok L" "trimmed i" "i \<noteq> []" "ruleStep L N si i ri seen r = Ok (s, seen')"
  shows "ruleStep L N si i ri seen s = Ok (s, seen')"
proof -
  obtain seen1 u where f:
    "wr_id s = orElse (TrimSpace (wr_id r)) (i @ ''-rule-'' @ decimal (ri + 1))"
    "wr_name s = orElse (TrimSpace (wr_name r)) (''Rule '' @ decimal (ri + 1))"
    "wr_type s = orElse (upperTrim L (wr_type r)) ''MATCH''"
    "uniqueWAFID [si, ri] seen (wr_id s) = Ok seen1" "length (wr_name s) \<le> 128"
    "ruleBody L N [si, ri] seen1 u = Ok (u, seen')" "s = u\<lparr>wr_action := wr_action s\<rparr>"
    "normalizeWAFAction L (wr_type s) [si, ri] (wr_action s) = Ok (wr_action s)"
    using ruleStep_facts [OF assms(1,4)] .
  have i: "orElse (TrimSpace (wr_id s)) (i @ ''-rule-'' @ decimal (ri + 1)) = wr_id s"
      "orElse (TrimSpace (wr_name s)) (''Rule '' @ decimal (ri + 1)) = wr_name s"
      "orElse (upperTrim L (wr_type s)) ''MATCH'' = wr_type s"
    by (simp_all only: f(1-3) orElse_idem orElse_upper [OF assms(1)] waf_words name_trim ruleID_trim [OF assms(2,3)])
  have "ruleBody L N [si, ri] seen1 s = Ok (s, seen')"
    using ruleBody_commute [OF f(6), of "wr_action s"] f(7) by simp
  moreover have "s\<lparr>wr_id := wr_id s, wr_name := wr_name s, wr_type := wr_type s\<rparr> = s"
    by simp
  ultimately show ?thesis
    using f(4,5,8) by (simp add: ruleStep_def i [simplified])
qed

lemma setStep_facts:
  assumes "setStep L N si seen s = Ok (t, seen')"
  obtains seen1 where
    "ws_id t = orElse (TrimSpace (ws_id s)) (''rule-set-'' @ decimal (si + 1))"
    "ws_name t = orElse (TrimSpace (ws_name s)) (''Rule set '' @ decimal (si + 1))"
    "uniqueWAFID [si] seen (ws_id t) = Ok seen1" "length (ws_name t) \<le> 128" "length (ws_rules s) \<le> 64"
    "mapAccumE (ruleStep L N si (ws_id t)) 0 seen1 (ws_rules s) = Ok (ws_rules t, seen')"
  using assms by (auto simp: setStep_def Let_def bindE_Ok split: if_splits)

lemma setStep_idem:
  assumes "case_ok L" "setStep L N si seen s = Ok (t, seen')"
  shows "setStep L N si seen t = Ok (t, seen')"
proof -
  obtain seen1 where f:
    "ws_id t = orElse (TrimSpace (ws_id s)) (''rule-set-'' @ decimal (si + 1))"
    "ws_name t = orElse (TrimSpace (ws_name s)) (''Rule set '' @ decimal (si + 1))"
    "uniqueWAFID [si] seen (ws_id t) = Ok seen1" "length (ws_name t) \<le> 128" "length (ws_rules s) \<le> 64"
    "mapAccumE (ruleStep L N si (ws_id t)) 0 seen1 (ws_rules s) = Ok (ws_rules t, seen')"
    using setStep_facts [OF assms(2)] .
  have i: "orElse (TrimSpace (ws_id t)) (''rule-set-'' @ decimal (si + 1)) = ws_id t"
      "orElse (TrimSpace (ws_name t)) (''Rule set '' @ decimal (si + 1)) = ws_name t"
    by (simp_all only: f(1,2) orElse_idem name_trim)
  have "trimmed (''rule-set-'' @ decimal (si + 1))"
    by (metis TrimSpace_trimmed name_trim(3))
  then have "trimmed (ws_id t)" "ws_id t \<noteq> []"
    by (simp_all add: f(1) orElse_def)
  then have "mapAccumE (ruleStep L N si (ws_id t)) 0 seen1 (ws_rules t) = Ok (ws_rules t, seen')"
    by (intro mapAccumE_idem [OF f(6)] ruleStep_idem [OF assms(1)])
  moreover have "length (ws_rules t) = length (ws_rules s)"
    by (rule mapAccumE_length [OF f(6)])
  ultimately show ?thesis
    using f(3-5) by (simp add: setStep_def i [simplified])
qed

subsection \<open>Normal forms of prefixes\<close>

fun validPrefix :: "prefix_net \<Rightarrow> bool" where
  "validPrefix p = (case pn_addr p of
     V4 n \<Rightarrow> n < 2 ^ 32 \<and> pn_bits p \<le> 32
   | V6 n zone \<Rightarrow> n < 2 ^ 128 \<and> zone = [] \<and> pn_bits p \<le> 128)"

fun validAddr :: "addr \<Rightarrow> bool" where
  "validAddr (V4 n) = (n < 2 ^ 32)"
| "validAddr (V6 n zone) = (n < 2 ^ 128)"

text \<open>
  The documented behaviour of \<open>net/netip\<close>: parsing yields valid values, the text of a
  prefix is a CIDR that parses to that prefix and is no address.
\<close>

definition netip_ok :: "netip \<Rightarrow> bool" where
  "netip_ok N \<longleftrightarrow>
     (\<forall>s a. np_parseAddr N s = Some a \<longrightarrow> validAddr a)
   \<and> (\<forall>s p. np_parsePrefix N s = Some p \<longrightarrow> validPrefix p)
   \<and> (\<forall>p. validPrefix p \<longrightarrow> np_parsePrefix N (np_prefixString N p) = Some p
        \<and> np_parseAddr N (np_prefixString N p) = None
        \<and> np_prefixString N p \<noteq> [] \<and> trimmed (np_prefixString N p))"

definition settledPrefix :: "prefix_net \<Rightarrow> bool" where
  "settledPrefix p \<longleftrightarrow> validPrefix p \<and> Masked p = p \<and> \<not> (Is4In6 (pn_addr p) \<and> pn_bits p \<ge> 96)"

lemma clearLow_facts: "clearLow k (clearLow k n) = clearLow k n" "clearLow k n \<le> n" "clearLow 0 n = n"
proof -
  have "(n - n mod 2 ^ k) mod 2 ^ k = 0"
    by (metis minus_mod_eq_mult_div mod_mult_self1_is_0)
  then show "clearLow k (clearLow k n) = clearLow k n"
    by (simp add: clearLow_def)
qed (simp_all add: clearLow_def)

lemma Masked_facts:
  assumes "validPrefix p"
  shows "validPrefix (Masked p)" "Masked (Masked p) = Masked p" "pn_bits (Masked p) = pn_bits p"
  using assms clearLow_facts(2) le_less_trans
  by (auto simp: Masked_def clearLow_facts(1) split: addr.splits) blast+

lemma addr_settled:
  assumes "validAddr a"
  shows "settledPrefix (PrefixFrom (Unmap a) (case Unmap a of V4 n \<Rightarrow> 32 | V6 n zone \<Rightarrow> 128))"
  using assms
  by (cases a) (auto simp: settledPrefix_def PrefixFrom_def Unmap_def Masked_def clearLow_facts(3))

lemma prefix_settles:
  assumes "validPrefix q"
  shows "settledPrefix (let p = Masked q in
     if Is4In6 (pn_addr p) \<and> pn_bits p \<ge> 96 then Masked (PrefixFrom (Unmap (pn_addr p)) (pn_bits p - 96)) else p)"
proof -
  let ?p = "Masked q"
  note m = Masked_facts [OF assms]
  show ?thesis
  proof (cases "Is4In6 (pn_addr ?p) \<and> pn_bits ?p \<ge> 96")
    case True
    then obtain n z where a: "pn_addr ?p = V6 n z" "n div 2 ^ 32 = 65535"
      by (cases "pn_addr ?p") auto
    have v: "validPrefix (PrefixFrom (Unmap (pn_addr ?p)) (pn_bits ?p - 96))"
      using m(1) a by (auto simp: PrefixFrom_def Unmap_def)
    have "\<not> Is4In6 (pn_addr (Masked (PrefixFrom (Unmap (pn_addr ?p)) (pn_bits ?p - 96))))"
      using a by (simp add: PrefixFrom_def Unmap_def Masked_def)
    then show ?thesis
      using Masked_facts [OF v] True by (simp add: settledPrefix_def Let_def)
  next
    case False
    then show ?thesis
      using m unfolding settledPrefix_def Let_def if_not_P [OF False] by blast
  qed
qed

lemma wafPrefix_settles:
  assumes "netip_ok N" "normalizeWAFPrefix N v = Some w"
  obtains p where "settledPrefix p" "w = np_prefixString N p"
proof (cases "np_parseAddr N v")
  case None
  then obtain q where q: "np_parsePrefix N v = Some q"
    using assms(2) by (auto simp: normalizeWAFPrefix_def split: option.splits)
  then have "validPrefix q"
    using assms(1) unfolding netip_ok_def by blast
  from prefix_settles [OF this] show ?thesis
    using that assms(2) None q by (simp add: normalizeWAFPrefix_def Let_def)
next
  case (Some a)
  then have "validAddr a"
    using assms(1) unfolding netip_ok_def by blast
  from addr_settled [OF this] show ?thesis
    using that assms(2) Some by (simp add: normalizeWAFPrefix_def Let_def)
qed

lemma wafPrefix_fixed:
  assumes "netip_ok N" "settledPrefix p"
  shows "normalizeWAFPrefix N (np_prefixString N p) = Some (np_prefixString N p)"
    "TrimSpace (np_prefixString N p) = np_prefixString N p" "np_prefixString N p \<noteq> []"
proof -
  have "validPrefix p"
    using assms(2) by (simp add: settledPrefix_def)
  then have n: "np_parsePrefix N (np_prefixString N p) = Some p" "np_parseAddr N (np_prefixString N p) = None"
      "np_prefixString N p \<noteq> []" "trimmed (np_prefixString N p)"
    using assms(1) unfolding netip_ok_def by blast+
  show "normalizeWAFPrefix N (np_prefixString N p) = Some (np_prefixString N p)"
    using n(1,2) assms(2) by (auto simp: normalizeWAFPrefix_def settledPrefix_def Let_def)
  show "TrimSpace (np_prefixString N p) = np_prefixString N p" "np_prefixString N p \<noteq> []"
    using n(3,4) by (simp_all add: trimmed_id)
qed

lemma wafPrefixes_normal:
  assumes "netip_ok N"
  shows "normalizeWAFPrefixes N seen vs = Ok ws \<Longrightarrow>
    distinct ws \<and> set ws \<inter> set seen = {} \<and> (\<forall>w \<in> set ws. \<exists>p. settledPrefix p \<and> w = np_prefixString N p)"
proof (induction vs arbitrary: seen ws)
  case (Cons v vs)
  let ?v = "TrimSpace v"
  consider "normalizeWAFPrefixes N seen vs = Ok ws"
    | w xs where "normalizeWAFPrefix N ?v = Some w" "w \<notin> set seen" "normalizeWAFPrefixes N (w # seen) vs = Ok xs" "ws = w # xs"
    using Cons.prems by (auto simp: Let_def bindE_Ok split: if_splits option.splits)
  then show ?case
  proof cases
    case 1
    then show ?thesis by (rule Cons.IH)
  next
    case 2
    obtain p where "settledPrefix p" "w = np_prefixString N p"
      by (rule wafPrefix_settles [OF assms 2(1)])
    then show ?thesis
      using Cons.IH [OF 2(3)] 2(2) unfolding 2(4) by auto
  qed
qed simp

lemma wafPrefixes_fixed:
  assumes "netip_ok N"
  shows "\<lbrakk>distinct ws; set ws \<inter> set seen = {}; \<forall>w \<in> set ws. \<exists>p. settledPrefix p \<and> w = np_prefixString N p\<rbrakk>
    \<Longrightarrow> normalizeWAFPrefixes N seen ws = Ok ws"
proof (induction ws arbitrary: seen)
  case (Cons w ws)
  obtain p where p: "settledPrefix p" "w = np_prefixString N p"
    using Cons.prems(3) by auto
  have "normalizeWAFPrefixes N (w # seen) ws = Ok ws"
    using Cons.prems by (intro Cons.IH) auto
  then show ?case
    using wafPrefix_fixed [OF assms p(1)] Cons.prems(2) by (simp add: p(2))
qed simp

subsection \<open>Unique ids\<close>

definition adds :: "string set \<Rightarrow> string list \<Rightarrow> string set \<Rightarrow> bool" where
  "adds seen ids seen' \<longleftrightarrow> distinct ids \<and> set ids \<inter> seen = {} \<and> seen' = seen \<union> set ids
     \<and> list_all (\<lambda>i. i \<noteq> [] \<and> length i \<le> 128) ids"

lemma adds_append: "adds a xs b \<Longrightarrow> adds b ys c \<Longrightarrow> adds a (xs @ ys) c"
  by (auto simp: adds_def)

lemma adds_loop:
  assumes "\<And>j u x y v. f j u x = Ok (y, v) \<Longrightarrow> adds u (ids y) v" "mapAccumE f i s xs = Ok (ys, t)"
  shows "adds s (concat (map ids ys)) t"
proof (rule mapAccumE_invariant [OF assms(2)])
  fix j u x y v acc
  assume "f j u x = Ok (y, v)" "adds s (concat (map ids acc)) u"
  then show "adds s (concat (map ids (acc @ [y]))) v"
    using adds_append assms(1) by fastforce
qed (simp add: adds_def)

lemma adds_unique: "uniqueWAFID loc seen i = Ok seen' \<Longrightarrow> i \<noteq> [] \<Longrightarrow> adds seen [i] seen'"
  by (auto simp: uniqueWAFID_def adds_def split: if_splits)

definition groupIDs :: "WAFConditionGroup \<Rightarrow> string list" where
  "groupIDs g = [wg_id g] @ map wn_id (wg_conditions g)"

definition ruleIDs :: "WAFRule \<Rightarrow> string list" where
  "ruleIDs r = [wr_id r] @ concat (map groupIDs (wc_groups (wr_conditions r)))"

definition setIDs :: "WAFRuleSet \<Rightarrow> string list" where
  "setIDs s = [ws_id s] @ concat (map ruleIDs (ws_rules s))"

lemma conditionStep_adds:
  assumes "case_ok L" "conditionStep L N loc g i seen c = Ok (d, seen')"
  shows "adds seen [wn_id d] seen'"
proof (rule adds_unique [OF conditionStep_facts(2) [OF assms]])
  have "conditionStep L N loc g i seen d = Ok (d, seen')"
    by (rule conditionStep_facts(1) [OF assms])
  then obtain e where "normalizeWAFCondition L N (loc @ [i])
      (d\<lparr>wn_id := orElse (TrimSpace (wn_id d)) (generatedWAFChildID L ''condition'' g i)\<rparr>) = Ok d"
    by (auto simp: conditionStep_def Let_def bindE_Ok)
  from condition_idem(2) [OF assms(1) this] show "wn_id d \<noteq> []"
    using childID_facts(2) [OF kinds_graphic(2)] by (auto simp: orElse_def split: if_splits)
qed

lemma groupStep_adds:
  assumes "case_ok L" "groupStep L N loc p i seen g = Ok (h, seen')"
  shows "adds seen (groupIDs h) seen'"
proof -
  obtain seen1 cs where f:
    "wg_id h = orElse (TrimSpace (wg_id g)) (generatedWAFChildID L ''group'' p i)"
    "wg_operator h = orElse (upperTrim L (wg_operator g)) ''AND''"
    "uniqueWAFID (loc @ [i]) seen (wg_id h) = Ok seen1"
    "wg_operator h = ''AND'' \<or> wg_operator h = ''OR''" "cs \<noteq> []" "length cs \<le> 16"
    "mapAccumE (conditionStep L N (loc @ [i]) (wg_id h)) 0 seen1 cs = Ok (wg_conditions h, seen')"
    using groupStep_facts [OF assms] .
  have "wg_id h \<noteq> []"
    using childID_facts(2) [OF kinds_graphic(1)] by (auto simp: f(1) orElse_def)
  moreover have "adds seen1 (concat (map (\<lambda>c. [wn_id c]) (wg_conditions h))) seen'"
    by (rule adds_loop [OF conditionStep_adds [OF assms(1)] f(7)])
  moreover have "concat (map (\<lambda>c. [wn_id c]) cs) = map wn_id cs" for cs
    by (induction cs) auto
  ultimately show ?thesis
    unfolding groupIDs_def by (metis adds_append adds_unique f(3))
qed

lemma conditions_adds:
  assumes "case_ok L" "normalizeWAFConditions L N loc p required seen c = Ok (d, seen')"
  shows "adds seen (concat (map groupIDs (wc_groups d))) seen'"
  by (rule adds_loop [OF groupStep_adds [OF assms(1)] wafConditions_facts(1) [OF assms(2)]])

lemma ruleBody_adds:
  assumes "case_ok L" "ruleBody L N loc seen r = Ok (s, seen')"
  shows "adds seen (concat (map groupIDs (wc_groups (wr_conditions s)))) seen'"
proof (cases "wr_type r = ''MATCH''")
  case True
  then have "normalizeWAFConditions L N loc (wr_id r) True seen (wr_conditions r) = Ok (wr_conditions s, seen')"
    using assms(2) by (auto simp: ruleBody_def Let_def bindE_Ok)
  then show ?thesis
    by (rule conditions_adds [OF assms(1)])
next
  case False
  then obtain u :: WAFRule where "normalizeWAFConditions L N loc (wr_id u) False seen (wr_conditions u) = Ok (wr_conditions s, seen')"
    using assms(2) by (auto simp: ruleBody_def bindE_Ok split: if_splits)
  then show ?thesis
    by (rule conditions_adds [OF assms(1)])
qed

lemma ruleStep_adds:
  assumes "case_ok L" "ruleStep L N si i ri seen r = Ok (s, seen')"
  shows "adds seen (ruleIDs s) seen'"
proof -
  obtain seen1 u where f:
    "wr_id s = orElse (TrimSpace (wr_id r)) (i @ ''-rule-'' @ decimal (ri + 1))"
    "uniqueWAFID [si, ri] seen (wr_id s) = Ok seen1"
    "ruleBody L N [si, ri] seen1 u = Ok (u, seen')" "s = u\<lparr>wr_action := wr_action s\<rparr>"
    by (rule ruleStep_facts [OF assms])
  have "wr_id s \<noteq> []"
    by (simp add: f(1) orElse_def)
  moreover have "wr_conditions s = wr_conditions u"
    by (subst f(4)) simp
  ultimately show ?thesis
    using adds_append [OF adds_unique [OF f(2)] ruleBody_adds [OF assms(1) f(3)]] by (simp add: ruleIDs_def)
qed

lemma setStep_adds:
  assumes "case_ok L" "setStep L N si seen s = Ok (t, seen')"
  shows "adds seen (setIDs t) seen'"
proof -
  obtain seen1 where f:
    "ws_id t = orElse (TrimSpace (ws_id s)) (''rule-set-'' @ decimal (si + 1))"
    "uniqueWAFID [si] seen (ws_id t) = Ok seen1"
    "mapAccumE (ruleStep L N si (ws_id t)) 0 seen1 (ws_rules s) = Ok (ws_rules t, seen')"
    by (rule setStep_facts [OF assms(2)])
  have "ws_id t \<noteq> []"
    by (simp add: f(1) orElse_def)
  then show ?thesis
    using adds_append [OF adds_unique [OF f(2)] adds_loop [OF ruleStep_adds [OF assms(1)] f(3)]]
    by (simp add: setIDs_def)
qed

lemma waf_cases:
  assumes "WAFPolicy_NormalizeAndValidate L N p = Ok q"
  obtains sets sets' seen where
    "normalizeWAFPrefixes N [] (wp_trustedProxies p) = Ok (wp_trustedProxies q)"
    "mapAccumE (setStep L N) 0 {} sets = Ok (sets', seen)" "wp_ruleSets q = Some sets'" "length sets \<le> 64"
    "wp_bodyOverLimitAction q = orElse (upperTrim L (wp_bodyOverLimitAction p)) ''PARTIAL''"
    "wp_bodyOverLimitAction q = ''BLOCK'' \<or> wp_bodyOverLimitAction q = ''PARTIAL''"
    "0 < wp_bodyInspectLimitBytes q" "wp_bodyInspectLimitBytes q \<le> 67108864"
    "wp_trustedProxyChain q \<longrightarrow> wp_trustedProxies q \<noteq> []"
    "TrimSpace (wp_geoIPDatabase q) = wp_geoIPDatabase q"
  using assms
  by (auto simp: WAFPolicy_NormalizeAndValidate_def Let_def bindE_Ok split: if_splits)

subsection \<open>Properties\<close>

text \<open>
  Property C16: validating a firewall policy is idempotent, whatever the case tables,
  the regular expression, URL and JSON checkers and the hash, and for every address
  parser whose prefixes print as they parse. Generated ids and names, canonical
  header names and prefixes are stable.
\<close>

theorem waf_idempotent:
  assumes "case_ok L" "netip_ok N" "WAFPolicy_NormalizeAndValidate L N p = Ok q"
  shows "WAFPolicy_NormalizeAndValidate L N q = Ok q"
proof -
  obtain sets sets' seen where q:
    "normalizeWAFPrefixes N [] (wp_trustedProxies p) = Ok (wp_trustedProxies q)"
    "mapAccumE (setStep L N) 0 {} sets = Ok (sets', seen)" "wp_ruleSets q = Some sets'" "length sets \<le> 64"
    "wp_bodyOverLimitAction q = orElse (upperTrim L (wp_bodyOverLimitAction p)) ''PARTIAL''"
    "wp_bodyOverLimitAction q = ''BLOCK'' \<or> wp_bodyOverLimitAction q = ''PARTIAL''"
    "0 < wp_bodyInspectLimitBytes q" "wp_bodyInspectLimitBytes q \<le> 67108864"
    "wp_trustedProxyChain q \<longrightarrow> wp_trustedProxies q \<noteq> []"
    "TrimSpace (wp_geoIPDatabase q) = wp_geoIPDatabase q"
    using waf_cases [OF assms(3)] .
  have p: "normalizeWAFPrefixes N [] (wp_trustedProxies q) = Ok (wp_trustedProxies q)"
    using wafPrefixes_normal [OF assms(2) q(1)] by (intro wafPrefixes_fixed [OF assms(2)]) auto
  have s: "mapAccumE (setStep L N) 0 {} sets' = Ok (sets', seen)"
    by (rule mapAccumE_idem [OF q(2) setStep_idem [OF assms(1)]])
  have l: "length sets' \<le> 64"
    using mapAccumE_length [OF q(2)] q(4) by simp
  have a: "orElse (upperTrim L (wp_bodyOverLimitAction q)) ''PARTIAL'' = wp_bodyOverLimitAction q"
    by (simp add: q(5) orElse_upper [OF assms(1)] waf_words)
  show ?thesis
    using q(6-10) p s l q(3)
    by (auto simp: WAFPolicy_NormalizeAndValidate_def Let_def a)
qed

text \<open>
  Property C6: in a firewall policy that validation accepts every id is unique across
  rule sets, rules, groups and conditions, present and at most 128 bytes long; the
  inspection limit is positive and at most 64 MiB; a trusted proxy chain names a
  proxy.
\<close>

theorem waf_ids_unique:
  assumes "case_ok L" "WAFPolicy_NormalizeAndValidate L N p = Ok q"
  shows "\<exists>sets. wp_ruleSets q = Some sets \<and> distinct (concat (map setIDs sets))
    \<and> list_all (\<lambda>i. i \<noteq> [] \<and> length i \<le> 128) (concat (map setIDs sets))
    \<and> 0 < wp_bodyInspectLimitBytes q \<and> wp_bodyInspectLimitBytes q \<le> 67108864
    \<and> (wp_trustedProxyChain q \<longrightarrow> wp_trustedProxies q \<noteq> [])"
proof -
  obtain sets sets' seen where q:
    "mapAccumE (setStep L N) 0 {} sets = Ok (sets', seen)" "wp_ruleSets q = Some sets'"
    "0 < wp_bodyInspectLimitBytes q" "wp_bodyInspectLimitBytes q \<le> 67108864"
    "wp_trustedProxyChain q \<longrightarrow> wp_trustedProxies q \<noteq> []"
    by (rule waf_cases [OF assms(2)])
  have "adds {} (concat (map setIDs sets')) seen"
    by (rule adds_loop [OF setStep_adds [OF assms(1)] q(1)])
  then show ?thesis
    using q(2-5) by (simp add: adds_def)
qed

text \<open>A parser and printer with the documented behaviour, in unary notation.\<close>

definition unaryString :: "prefix_net \<Rightarrow> string" where
  "unaryString p = (case pn_addr p of
     V4 n \<Rightarrow> ''4'' @ replicate n CHR ''x'' @ ''/'' @ replicate (pn_bits p) CHR ''y''
   | V6 n zone \<Rightarrow> ''6'' @ replicate n CHR ''x'' @ ''/'' @ replicate (pn_bits p) CHR ''y'')"

definition unaryParse :: "string \<Rightarrow> prefix_net option" where
  "unaryParse s = (case s of [] \<Rightarrow> None | c # t \<Rightarrow>
     let n = length (takeWhile (\<lambda>d. d = CHR ''x'') t); rest = dropWhile (\<lambda>d. d = CHR ''x'') t;
         p = \<lparr>pn_addr = (if c = CHR ''4'' then V4 n else V6 n []), pn_bits = length rest - 1\<rparr>
     in if validPrefix p then Some p else None)"

definition unaryNetip :: netip where
  "unaryNetip = \<lparr>np_parseAddr = (\<lambda>s. None), np_parsePrefix = unaryParse, np_prefixString = unaryString\<rparr>"

lemma takeWhile_replicate_slash:
  "takeWhile (\<lambda>d. d = CHR ''x'') (replicate n CHR ''x'' @ CHR ''/'' # t) = replicate n CHR ''x''"
  "dropWhile (\<lambda>d. d = CHR ''x'') (replicate n CHR ''x'' @ CHR ''/'' # t) = CHR ''/'' # t"
  by (induction n) auto

lemma unary_roundtrip: "validPrefix p \<Longrightarrow> unaryParse (unaryString p) = Some p"
  by (cases p) (auto simp: unaryParse_def unaryString_def takeWhile_replicate_slash split: addr.splits)

lemma unaryNetip_ok: "netip_ok unaryNetip"
proof -
  have "list_all graphic (unaryString p)" for p
    by (auto simp: unaryString_def graphic_def list_all_iff split: addr.splits)
  then have "trimmed (unaryString p)" for p
    by (rule graphic_trimmed)
  moreover have "unaryString p \<noteq> []" for p
    by (simp add: unaryString_def split: addr.splits)
  moreover have "validPrefix p" if "unaryParse s = Some p" for s p
    using that by (auto simp: unaryParse_def Let_def simp del: validPrefix.simps split: list.splits if_splits)
  ultimately show ?thesis
    using unary_roundtrip unfolding netip_ok_def unaryNetip_def by (simp del: validPrefix.simps)
qed

definition sampleWAF :: WAFPolicy where
  "sampleWAF = \<lparr>wp_enabled = True, wp_trustedProxyChain = False, wp_trustedProxies = [],
     wp_ruleSets = Some [\<lparr>ws_id = [], ws_name = [], ws_enabled = True,
       ws_rules = [(matchRule [] [] ''path'' ''a'' (blockAction 0))\<lparr>wr_key := ''x''\<rparr>]\<rparr>],
     wp_bodyInspectLimitBytes = 0, wp_bodyOverLimitAction = [], wp_geoIPDatabase = []\<rparr>"

definition sampleWAFNormal :: WAFPolicy where
  "sampleWAFNormal = sampleWAF\<lparr>wp_bodyInspectLimitBytes := 65536, wp_bodyOverLimitAction := ''PARTIAL'',
     wp_ruleSets := Some [\<lparr>ws_id = ''rule-set-1'', ws_name = ''Rule set 1'', ws_enabled = True,
       ws_rules = [(matchRule ''rule-set-1-rule-1'' ''Rule 1'' ''PATH'' ''a'' (blockAction 403))\<lparr>
         wr_conditions := \<lparr>wc_operator = ''AND'', wc_groups = [\<lparr>wg_id = ''group-0000000000000000-1'', wg_operator = ''AND'',
           wg_conditions = [\<lparr>wn_id = ''condition-0000000000000000-1'', wn_field = ''PATH'', wn_fieldName = [],
             wn_operator = ''REGEX'', wn_value = ''a'', wn_values = [], wn_negate = False, wn_caseSensitive = True\<rparr>]\<rparr>]\<rparr>\<rparr>]\<rparr>]\<rparr>"

lemma sampleWAF_ok:
  "WAFPolicy_NormalizeAndValidate asciiLib unaryNetip sampleWAF = Ok sampleWAFNormal"
  by code_simp

theorem waf_idempotent_witness:
  "WAFPolicy_NormalizeAndValidate asciiLib unaryNetip sampleWAFNormal = Ok sampleWAFNormal"
  by (rule waf_idempotent [OF asciiLib_ok unaryNetip_ok sampleWAF_ok])

theorem waf_ids_unique_witness:
  "\<exists>sets. wp_ruleSets sampleWAFNormal = Some sets \<and> distinct (concat (map setIDs sets))"
  using waf_ids_unique [OF asciiLib_ok sampleWAF_ok] by blast

end
