(* ===== verification/Origin_Selection.thy ===== *)
theory Origin_Selection
  imports Go_Strings "HOL-Library.Multiset"
begin

section \<open>Origin selection\<close>

text \<open>
  \<open>caddy/origingovernance/policy.go\<close> and the metric registry of \<open>metrics.go\<close> it
  writes to. A selection policy chooses an upstream of a pool: the available ones of
  the lowest priority value, then by its scheduler. The atomic round-robin index and the
  registry are threaded through; a metric pointer is the key of its registry entry. The
  proxy's upstream object is the record of what the policy reads of it, and the random
  number generator is a parameter.
\<close>

record upstream =
  up_dial :: string
  up_available :: bool
  up_numRequests :: int

record Backend =
  be_dial :: string
  be_hostHeader :: string
  be_weight :: int
  be_priority :: int

definition zeroBackend :: Backend where
  "zeroBackend = \<lparr>be_dial = [], be_hostHeader = [], be_weight = 0, be_priority = 0\<rparr>"

record metricState =
  ms_siteID :: string
  ms_originAddress :: string
  ms_requests :: nat
  ms_errors :: nat
  ms_latencyNanos :: nat
  ms_measuredAt :: int
  ms_upstream :: "upstream option"

type_synonym registry = "string \<rightharpoonup> metricState"

record SelectionPolicy =
  po_siteID :: string
  po_scheduler :: string
  po_backends :: "Backend list"
  po_index :: nat
  po_byDial :: "string \<rightharpoonup> Backend"
  po_metrics :: "string \<rightharpoonup> string"

datatype origin_error = MissingSiteOrBackends | UnsupportedScheduler string | InvalidBackend Backend

subsection \<open>The metric registry\<close>

definition registerMetric :: "registry \<Rightarrow> string \<Rightarrow> string \<Rightarrow> string \<times> registry" where
  "registerMetric reg siteID address =
     (let key = siteID @ [CHR 0x00] @ address
      in case reg key of
           Some _ \<Rightarrow> (key, reg)
         | None \<Rightarrow> (key, reg(key \<mapsto> \<lparr>ms_siteID = siteID, ms_originAddress = address, ms_requests = 0, ms_errors = 0,
                                   ms_latencyNanos = 0, ms_measuredAt = 0, ms_upstream = None\<rparr>)))"

definition observeState :: "registry \<Rightarrow> string option \<Rightarrow> int \<Rightarrow> bool \<Rightarrow> int \<Rightarrow> registry" where
  "observeState reg state latency failed now =
     (case state of
        None \<Rightarrow> reg
      | Some key \<Rightarrow>
          (case reg key of
             None \<Rightarrow> reg
           | Some s \<Rightarrow> reg(key \<mapsto> s\<lparr>ms_requests := u64 (ms_requests s + 1),
                 ms_errors := (if failed then u64 (ms_errors s + 1) else ms_errors s),
                 ms_latencyNanos := u64 (ms_latencyNanos s + nat (max latency 0)), ms_measuredAt := now\<rparr>)))"

definition observe :: "registry \<Rightarrow> string \<Rightarrow> string \<Rightarrow> int \<Rightarrow> bool \<Rightarrow> int \<Rightarrow> registry" where
  "observe reg siteID address latency failed now =
     (let (key, reg) = registerMetric reg siteID address in observeState reg (Some key) latency failed now)"

definition storeUpstream :: "bool \<Rightarrow> registry \<Rightarrow> string option \<Rightarrow> upstream \<Rightarrow> registry" where
  "storeUpstream observability reg state upstream =
     (case state of
        None \<Rightarrow> reg
      | Some key \<Rightarrow> if observability then reg(key := map_option (\<lambda>s. s\<lparr>ms_upstream := Some upstream\<rparr>) (reg key)) else reg)"

subsection \<open>Provisioning\<close>

definition schedulers :: "string list" where
  "schedulers = [[], ''round_robin'', ''weighted_round_robin'', ''least_conn'', ''random'', ''first'', ''ip_hash'',
     ''client_ip_hash'']"

fun provisionBackends :: "SelectionPolicy \<Rightarrow> registry \<Rightarrow> Backend list \<Rightarrow> origin_error + (SelectionPolicy \<times> registry)" where
  "provisionBackends p reg [] = Ok (p, reg)"
| "provisionBackends p reg (b # bs) =
     (if be_dial b = [] \<or> be_priority b < 0 \<or> be_weight b < 0 then Err (InvalidBackend b)
      else let b = (if be_weight b = 0 then b\<lparr>be_weight := 1\<rparr> else b);
               (key, reg) = registerMetric reg (po_siteID p) (be_dial b)
           in provisionBackends (p\<lparr>po_byDial := (po_byDial p)(be_dial b \<mapsto> b),
                                   po_metrics := (po_metrics p)(be_dial b \<mapsto> key)\<rparr>) reg bs)"

definition Provision :: "SelectionPolicy \<Rightarrow> registry \<Rightarrow> origin_error + (SelectionPolicy \<times> registry)" where
  "Provision p reg =
     (if po_siteID p = [] \<or> length (po_backends p) = 0 then Err MissingSiteOrBackends
      else if po_scheduler p \<notin> set schedulers then Err (UnsupportedScheduler (po_scheduler p))
      else provisionBackends (p\<lparr>po_byDial := Map.empty, po_metrics := Map.empty\<rparr>) reg (po_backends p))"

subsection \<open>Selection\<close>

definition dialHostPort :: "string \<Rightarrow> string" where
  "dialHostPort dial = (case IndexByte dial CHR ''/'' of Some slash \<Rightarrow> drop (slash + 1) dial | None \<Rightarrow> dial)"

definition backendOf :: "SelectionPolicy \<Rightarrow> string \<Rightarrow> Backend" where
  "backendOf p dial = (case po_byDial p dial of Some b \<Rightarrow> b | None \<Rightarrow> zeroBackend)"

text \<open>The request's replacer: what the later handlers read.\<close>

record replacer =
  rp_address :: string
  rp_host :: string
  rp_metric :: "string option"

definition selectUpstream :: "bool \<Rightarrow> SelectionPolicy \<Rightarrow> registry \<Rightarrow> upstream \<Rightarrow> replacer \<Rightarrow> upstream \<times> registry \<times> replacer" where
  "selectUpstream observability p reg selected rp =
     (let backend = backendOf p (up_dial selected);
          state = (case po_metrics p (be_dial backend) of Some k \<Rightarrow> Some k | None \<Rightarrow> po_metrics p (up_dial selected));
          reg = storeUpstream observability reg state selected;
          host = (if be_hostHeader backend = [] then dialHostPort (up_dial selected) else be_hostHeader backend)
      in (selected, reg, rp\<lparr>rp_address := be_dial backend, rp_host := host,
                            rp_metric := (if observability then state else rp_metric rp)\<rparr>))"

definition maxInt :: int where
  "maxInt = 2 ^ 63 - 1"

fun candidatesLoop :: "bool \<Rightarrow> SelectionPolicy \<Rightarrow> bool \<Rightarrow> int \<Rightarrow> upstream list \<Rightarrow> registry \<Rightarrow> upstream list
    \<Rightarrow> upstream list \<times> registry" where
  "candidatesLoop observability p requireAvailable lowest acc reg [] = (acc, reg)"
| "candidatesLoop observability p requireAvailable lowest acc reg (u # pool) =
     (let backend = (case po_byDial p (up_dial u) of
            Some b \<Rightarrow> b | None \<Rightarrow> zeroBackend\<lparr>be_dial := up_dial u, be_weight := 1\<rparr>);
          reg = storeUpstream observability reg (po_metrics p (be_dial backend)) u
      in if requireAvailable \<and> \<not> up_available u
         then candidatesLoop observability p requireAvailable lowest acc reg pool
         else if be_priority backend < lowest
         then candidatesLoop observability p requireAvailable (be_priority backend) [u] reg pool
         else if be_priority backend = lowest
         then candidatesLoop observability p requireAvailable lowest (acc @ [u]) reg pool
         else candidatesLoop observability p requireAvailable lowest acc reg pool)"

definition candidates :: "bool \<Rightarrow> SelectionPolicy \<Rightarrow> registry \<Rightarrow> upstream list \<Rightarrow> bool \<Rightarrow> upstream list \<times> registry" where
  "candidates observability p reg pool requireAvailable =
     candidatesLoop observability p requireAvailable maxInt [] reg pool"

definition weightOf :: "SelectionPolicy \<Rightarrow> upstream \<Rightarrow> int" where
  "weightOf p u = be_weight (backendOf p (up_dial u))"

definition totalWeight :: "SelectionPolicy \<Rightarrow> upstream list \<Rightarrow> int" where
  "totalWeight p cs = foldl (\<lambda>total c. wrap64 (total + weightOf p c)) 0 cs"

fun walk :: "SelectionPolicy \<Rightarrow> upstream list \<Rightarrow> int \<Rightarrow> upstream option" where
  "walk p [] position = None"
| "walk p (c # cs) position =
     (let position = position - weightOf p c in if position < 0 then Some c else walk p cs position)"

definition chooseWeighted :: "SelectionPolicy \<Rightarrow> upstream list \<Rightarrow> upstream \<times> SelectionPolicy" where
  "chooseWeighted p cs =
     (let total = totalWeight p cs
      in if total \<le> 0 then (hd cs, p)
         else let position = int (po_index p mod nat total);
                  p' = p\<lparr>po_index := u64 (po_index p + 1)\<rparr>
              in case walk p cs position of Some c \<Rightarrow> (c, p') | None \<Rightarrow> (last cs, p'))"

fun leastConn :: "upstream \<Rightarrow> upstream list \<Rightarrow> upstream" where
  "leastConn selected [] = selected"
| "leastConn selected (c # cs) =
     leastConn (if up_numRequests c < up_numRequests selected then c else selected) cs"

text \<open>FNV-1a with 64 bits, as \<open>hash/fnv\<close> computes it.\<close>

definition fnv1a :: "string \<Rightarrow> 64 word" where
  "fnv1a s = foldl (\<lambda>h c. xor h (of_nat (of_char c)) * 1099511628211) 14695981039346656037 s"

definition chooseUpstream :: "(nat \<Rightarrow> nat) \<Rightarrow> SelectionPolicy \<Rightarrow> upstream list \<Rightarrow> string \<Rightarrow> upstream \<times> SelectionPolicy" where
  "chooseUpstream rand p cs remoteAddr =
     (if po_scheduler p = ''first'' then (hd cs, p)
      else if po_scheduler p = ''least_conn'' then (leastConn (hd cs) (tl cs), p)
      else if po_scheduler p = ''random'' then (cs ! rand (length cs), p)
      else if po_scheduler p = ''ip_hash'' \<or> po_scheduler p = ''client_ip_hash''
      then (let host = (case SplitHostPort remoteAddr of Some (host, _) \<Rightarrow> host | None \<Rightarrow> remoteAddr)
            in (cs ! (unat (fnv1a host) mod length cs), p))
      else chooseWeighted p cs)"

definition SelectOrigin :: "bool \<Rightarrow> (nat \<Rightarrow> nat) \<Rightarrow> SelectionPolicy \<Rightarrow> registry \<Rightarrow> upstream list \<Rightarrow> string \<Rightarrow> replacer
    \<Rightarrow> upstream option \<times> SelectionPolicy \<times> registry \<times> replacer" where
  "SelectOrigin observability rand p reg pool remoteAddr rp =
     (if length pool = 0 then (None, p, reg, rp)
      else if length pool = 1
      then (let (u, reg, rp) = selectUpstream observability p reg (hd pool) rp in (Some u, p, reg, rp))
      else
        let (cs, reg) = candidates observability p reg pool True;
            (cs, reg) = (if length cs = 0 then candidates observability p reg pool False else (cs, reg))
        in if length cs = 0 then (None, p, reg, rp)
           else let (u, p') = chooseUpstream rand p cs remoteAddr;
                    (u, reg, rp) = selectUpstream observability p' reg u rp
                in (Some u, p', reg, rp))"

subsection \<open>The candidates\<close>

definition priorityOf :: "SelectionPolicy \<Rightarrow> upstream \<Rightarrow> int" where
  "priorityOf p u = be_priority (backendOf p (up_dial u))"

definition eligible :: "bool \<Rightarrow> upstream list \<Rightarrow> upstream list" where
  "eligible requireAvailable pool = filter (\<lambda>u. requireAvailable \<longrightarrow> up_available u) pool"

lemma eligible_Cons:
  "eligible req (u # pool) = (if req \<and> \<not> up_available u then eligible req pool else u # eligible req pool)"
  by (auto simp: eligible_def)

lemma foldl_min:
  fixes a :: int
  shows "foldl min a xs \<le> a" "x \<in> set xs \<Longrightarrow> foldl min a xs \<le> x" "foldl min a xs \<in> insert a (set xs)"
proof (induction xs arbitrary: a)
  case (Cons y ys)
  { case 1 show ?case using Cons(1) [of "min a y"] by simp }
  { case 2 then show ?case using Cons(1) [of "min a y"] Cons(2) [of "min a y"] by auto }
  { case 3 show ?case using Cons(3) [of "min a y"] by (auto simp: min_def) }
qed auto

lemma candidatesLoop_filter:
  assumes "\<forall>u \<in> set acc. priorityOf p u = lowest"
  shows "fst (candidatesLoop observability p req lowest acc reg pool) =
    filter (\<lambda>u. priorityOf p u = foldl min lowest (map (priorityOf p) (eligible req pool))) (acc @ eligible req pool)"
  using assms
proof (induction pool arbitrary: lowest acc reg)
  case Nil
  then show ?case by (simp add: eligible_def filter_id_conv)
next
  case (Cons u pool)
  let ?b = "case po_byDial p (up_dial u) of Some b \<Rightarrow> b | None \<Rightarrow> zeroBackend\<lparr>be_dial := up_dial u, be_weight := 1\<rparr>"
  let ?m = "\<lambda>l. foldl min l (map (priorityOf p) (eligible req pool))"
  have b: "be_priority ?b = priorityOf p u"
    by (simp add: priorityOf_def backendOf_def zeroBackend_def split: option.splits)
  consider "req \<and> \<not> up_available u" | "\<not> (req \<and> \<not> up_available u)" "priorityOf p u < lowest"
    | "\<not> (req \<and> \<not> up_available u)" "priorityOf p u = lowest" | "\<not> (req \<and> \<not> up_available u)" "priorityOf p u > lowest"
    by force
  then show ?case
  proof cases
    case 1
    then show ?thesis
      using Cons.IH [OF Cons.prems] by (auto simp: eligible_Cons Let_def)
  next
    case 2
    have "?m (priorityOf p u) < lowest"
      using foldl_min(1) [of "priorityOf p u" "map (priorityOf p) (eligible req pool)"] 2(2) by linarith
    then have "filter (\<lambda>v. priorityOf p v = ?m (priorityOf p u)) acc = []"
      using Cons.prems by (auto simp: filter_empty_conv)
    then show ?thesis
      using 2 Cons.IH [of "[u]" "priorityOf p u"] b by (auto simp: eligible_Cons Let_def)
  next
    case 3
    then show ?thesis
      using Cons.IH [of "acc @ [u]" lowest] Cons.prems b by (auto simp: eligible_Cons Let_def)
  next
    case 4
    have "?m lowest \<noteq> priorityOf p u"
      using foldl_min(1) [of lowest "map (priorityOf p) (eligible req pool)"] 4(2) by linarith
    then show ?thesis
      using 4 Cons.IH [OF Cons.prems] b by (auto simp: eligible_Cons Let_def)
  qed
qed

definition bounded_priorities :: "SelectionPolicy \<Rightarrow> bool" where
  "bounded_priorities p \<longleftrightarrow> (\<forall>b \<in> ran (po_byDial p). be_priority b \<le> maxInt)"

lemma priority_le: "bounded_priorities p \<Longrightarrow> priorityOf p u \<le> maxInt"
  by (auto simp: bounded_priorities_def priorityOf_def backendOf_def zeroBackend_def maxInt_def ran_def split: option.splits)

lemma candidates_best:
  assumes "bounded_priorities p" "u \<in> set (fst (candidates observability p reg pool req))"
  shows "u \<in> set (eligible req pool)" "\<forall>v \<in> set (eligible req pool). priorityOf p u \<le> priorityOf p v"
proof -
  let ?e = "eligible req pool"
  have u: "u \<in> set ?e" "priorityOf p u = foldl min maxInt (map (priorityOf p) ?e)"
    using assms(2) by (auto simp: candidates_def candidatesLoop_filter)
  then show "u \<in> set ?e" "\<forall>v \<in> set ?e. priorityOf p u \<le> priorityOf p v"
    using foldl_min(2) [of _ "map (priorityOf p) ?e" maxInt] by auto
qed

lemma candidates_exist:
  assumes "bounded_priorities p" "eligible req pool \<noteq> []"
  shows "fst (candidates observability p reg pool req) \<noteq> []"
proof -
  let ?e = "eligible req pool" and ?m = "foldl min maxInt (map (priorityOf p) (eligible req pool))"
  have "?m \<in> insert maxInt (set (map (priorityOf p) ?e))"
    by (rule foldl_min(3))
  moreover have "?m \<le> priorityOf p (hd ?e)"
    using assms(2) by (intro foldl_min(2)) simp
  then have "?m = maxInt \<Longrightarrow> priorityOf p (hd ?e) = ?m"
    using priority_le [OF assms(1), of "hd ?e"] by linarith
  ultimately have "\<exists>v \<in> set ?e. priorityOf p v = ?m"
    using assms(2) by (metis hd_in_set image_iff insert_iff list.set_map)
  then show ?thesis
    by (auto simp: candidates_def candidatesLoop_filter filter_empty_conv)
qed

lemma choose_member:
  assumes "cs \<noteq> []" "\<And>n. 0 < n \<Longrightarrow> rand n < n"
  shows "fst (chooseUpstream rand p cs remote) \<in> set cs"
proof -
  have l: "leastConn x ys \<in> insert x (set ys)" for x ys
    by (induction ys arbitrary: x) auto
  have w: "walk p ys i = Some c \<Longrightarrow> c \<in> set ys" for ys i c
    by (induction ys arbitrary: i) (auto simp: Let_def split: if_splits)
  have "leastConn (hd cs) (tl cs) \<in> set cs"
    using l [of "hd cs" "tl cs"] assms(1) by (cases cs) auto
  then show ?thesis
    using assms w by (auto simp: chooseUpstream_def chooseWeighted_def Let_def split: option.splits)
qed

subsection \<open>Weighted round robin\<close>

primrec picks :: "nat \<Rightarrow> SelectionPolicy \<Rightarrow> upstream list \<Rightarrow> upstream list" where
  "picks 0 p cs = []"
| "picks (Suc n) p cs = (let (c, p') = chooseWeighted p cs in c # picks n p' cs)"

definition slots :: "SelectionPolicy \<Rightarrow> upstream list \<Rightarrow> upstream list" where
  "slots p cs = concat (map (\<lambda>c. replicate (nat (weightOf p c)) c) cs)"

definition weights_ok :: "SelectionPolicy \<Rightarrow> upstream list \<Rightarrow> bool" where
  "weights_ok p cs \<longleftrightarrow> (\<forall>c \<in> set cs. 0 \<le> weightOf p c) \<and> length (slots p cs) < 2 ^ 63"

lemma slots_Cons: "slots p (c # cs) = replicate (nat (weightOf p c)) c @ slots p cs"
  by (simp add: slots_def)

lemma totalWeight_slots:
  assumes "weights_ok p cs"
  shows "totalWeight p cs = int (length (slots p cs))"
proof -
  have "foldl (\<lambda>t c. wrap64 (t + weightOf p c)) a cs = a + int (length (slots p cs))"
    if "\<forall>c \<in> set cs. 0 \<le> weightOf p c" "0 \<le> a" "a + int (length (slots p cs)) < 2 ^ 63" for a
    using that
  proof (induction cs arbitrary: a)
    case (Cons c cs)
    then have "wrap64 (a + weightOf p c) = a + weightOf p c"
      by (intro wrap64_id) (auto simp: slots_Cons)
    then show ?case
      using Cons by (simp add: slots_Cons)
  qed (simp add: slots_def)
  from this [of 0] show ?thesis
    using assms by (simp add: totalWeight_def weights_ok_def)
qed

lemma walk_slots:
  "\<lbrakk>\<forall>c \<in> set cs. 0 \<le> weightOf p c; i < length (slots p cs)\<rbrakk> \<Longrightarrow> walk p cs (int i) = Some (slots p cs ! i)"
proof (induction cs arbitrary: i)
  case (Cons c cs)
  let ?w = "nat (weightOf p c)"
  show ?case
  proof (cases "i < ?w")
    case True
    then have "int i - weightOf p c < 0"
      by linarith
    then show ?thesis
      using True by (simp add: slots_Cons nth_append)
  next
    case False
    then have "int i - weightOf p c = int (i - ?w)" "i - ?w < length (slots p cs)"
      using Cons.prems by (auto simp: slots_Cons)
    then show ?thesis
      using Cons.IH [of "i - ?w"] Cons.prems False by (simp add: slots_Cons nth_append)
  qed
qed (simp add: slots_def)

lemma chooseWeighted_slots:
  assumes "weights_ok p cs" "slots p cs \<noteq> []"
  shows "chooseWeighted p cs = (slots p cs ! (po_index p mod length (slots p cs)), p\<lparr>po_index := u64 (po_index p + 1)\<rparr>)"
proof -
  let ?i = "po_index p mod length (slots p cs)"
  have "?i < length (slots p cs)"
    using assms(2) by simp
  then have "walk p cs (int ?i) = Some (slots p cs ! ?i)"
    using assms(1) by (intro walk_slots) (auto simp: weights_ok_def)
  then show ?thesis
    using assms(2) by (simp add: chooseWeighted_def Let_def totalWeight_slots [OF assms(1)])
qed

lemma weights_index: "weightOf (p\<lparr>po_index := i\<rparr>) = weightOf p" "slots (p\<lparr>po_index := i\<rparr>) = slots p"
  "weights_ok (p\<lparr>po_index := i\<rparr>) = weights_ok p"
  by (auto simp: fun_eq_iff weightOf_def slots_def weights_ok_def backendOf_def)

lemma picks_slots:
  assumes "weights_ok p cs" "slots p cs \<noteq> []" "po_index p + n \<le> 2 ^ 64"
  shows "picks n p cs = map (\<lambda>i. slots p cs ! ((po_index p + i) mod length (slots p cs))) [0..<n]"
  using assms
proof (induction n arbitrary: p)
  case (Suc n)
  let ?p = "p\<lparr>po_index := u64 (po_index p + 1)\<rparr>"
  show ?case
  proof (cases "n = 0")
    case True
    then show ?thesis
      using chooseWeighted_slots [OF Suc.prems(1,2)] by simp
  next
    case False
    then have k: "u64 (po_index p + 1) = po_index p + 1"
      using Suc.prems(3) by simp
    have "picks n ?p cs = map (\<lambda>i. slots p cs ! ((po_index p + 1 + i) mod length (slots p cs))) [0..<n]"
      using Suc.IH [of ?p] Suc.prems by (simp add: weights_index k [simplified])
    then show ?thesis
      using chooseWeighted_slots [OF Suc.prems(1,2)]
      by (simp add: map_upt_Suc del: upt_Suc)
  qed
qed simp

lemma picks_rotate:
  assumes "weights_ok p cs" "slots p cs \<noteq> []" "po_index p + length (slots p cs) \<le> 2 ^ 64"
  shows "picks (length (slots p cs)) p cs = rotate (po_index p) (slots p cs)"
  by (rule nth_equalityI) (simp_all add: picks_slots [OF assms] nth_rotate)

lemma slots_count:
  "distinct cs \<Longrightarrow> count_list (slots p cs) c = (if c \<in> set cs then nat (weightOf p c) else 0)"
proof (induction cs)
  case (Cons d cs)
  have "count_list (replicate n d) c = (if c = d then n else 0)" for n
    by (induction n) auto
  then show ?case
    using Cons by (auto simp: slots_Cons)
qed (simp add: slots_def)

lemma count_rotate: "count_list (rotate n xs) c = count_list xs c"
proof -
  have "mset (rotate1 ys) = mset ys" for ys :: "'a list"
    by (cases ys) auto
  then have "mset (rotate n xs) = mset xs"
    by (induction n) auto
  then show ?thesis
    by (metis count_mset)
qed

subsection \<open>Properties\<close>

text \<open>
  Property C14: selection always answers, with the best it has. For a pool of at
  least two upstreams it chooses, with every scheduler, one whose priority value is
  the lowest among the available ones, and among all of them when none is available;
  a pool of one always routes to it.
\<close>

theorem SelectOrigin_best:
  assumes "bounded_priorities p" "pool \<noteq> []" "\<And>n. 0 < n \<Longrightarrow> rand n < n"
  shows "\<exists>u. fst (SelectOrigin observability rand p reg pool remote rp) = Some u \<and> u \<in> set pool
    \<and> (let av = filter up_available pool; among = (if av = [] then pool else av)
        in 2 \<le> length pool \<longrightarrow> u \<in> set among \<and> (\<forall>v \<in> set among. priorityOf p u \<le> priorityOf p v))"
proof (cases "length pool = 1")
  case True
  then show ?thesis
    using assms(2) by (cases pool) (auto simp: SelectOrigin_def selectUpstream_def Let_def)
next
  case False
  let ?av = "filter up_available pool"
  let ?req = "?av \<noteq> []"
  obtain cs reg1 where c1: "candidates observability p reg pool True = (cs, reg1)"
    by fastforce
  obtain ds reg2 where c2: "candidates observability p reg1 pool False = (ds, reg2)"
    by fastforce
  have e: "eligible True pool = ?av" "eligible False pool = pool"
    by (simp_all add: eligible_def)
  have cs: "cs = [] \<longleftrightarrow> ?av = []"
    using candidates_exist [OF assms(1), of True pool observability reg]
      candidates_best(1) [OF assms(1), of _ observability reg pool True] c1 e(1) by fastforce
  have ds: "ds \<noteq> []"
    using candidates_exist [OF assms(1), of False pool observability reg1] c2 e(2) assms(2) by simp
  define xs where "xs = (if cs = [] then ds else cs)"
  define among where "among = (if ?av = [] then pool else ?av)"
  let ?u = "fst (chooseUpstream rand p xs remote)"
  have "fst (SelectOrigin observability rand p reg pool remote rp) = Some ?u"
    using False assms(2) ds c1 c2
    by (auto simp: SelectOrigin_def selectUpstream_def Let_def xs_def split: prod.splits)
  moreover have "?u \<in> set xs"
    using choose_member [of xs rand p remote] assms(3) ds by (auto simp: xs_def)
  then have "?u \<in> set among \<and> (\<forall>v \<in> set among. priorityOf p ?u \<le> priorityOf p v)"
    using candidates_best [OF assms(1), of ?u observability reg pool True]
      candidates_best [OF assms(1), of ?u observability reg1 pool False] c1 c2 e cs
    by (auto simp: xs_def among_def split: if_splits)
  moreover have "set among \<subseteq> set pool"
    by (auto simp: among_def)
  ultimately show ?thesis
    by (auto simp: Let_def among_def)
qed

text \<open>
  Property C36: weighted round robin is exact. Over as many consecutive choices as
  the weights add up to, from any position of the index that does not wrap, every
  candidate is chosen exactly as often as its weight.
\<close>

theorem weighted_round_robin_exact:
  assumes "weights_ok p cs" "slots p cs \<noteq> []" "distinct cs" "c \<in> set cs"
    and "po_index p + length (slots p cs) \<le> 2 ^ 64"
  shows "count_list (picks (nat (totalWeight p cs)) p cs) c = nat (weightOf p c)"
  using picks_rotate [OF assms(1,2,5)] slots_count [OF assms(3), of p c] assms(4)
  by (simp add: totalWeight_slots [OF assms(1)] count_rotate)

definition sampleOrigins :: SelectionPolicy where
  "sampleOrigins =
     \<lparr>po_siteID = ''s'', po_scheduler = [], po_backends = [], po_index = 5,
      po_byDial = [''a'' \<mapsto> \<lparr>be_dial = ''a'', be_hostHeader = [], be_weight = 2, be_priority = 0\<rparr>,
                   ''b'' \<mapsto> \<lparr>be_dial = ''b'', be_hostHeader = [], be_weight = 1, be_priority = 1\<rparr>],
      po_metrics = Map.empty\<rparr>"

definition samplePool :: "upstream list" where
  "samplePool = [\<lparr>up_dial = ''a'', up_available = True, up_numRequests = 0\<rparr>,
                 \<lparr>up_dial = ''b'', up_available = True, up_numRequests = 0\<rparr>]"

lemma sampleOrigins_facts:
  "bounded_priorities sampleOrigins" "weights_ok sampleOrigins samplePool" "length (slots sampleOrigins samplePool) = 3"
  "distinct samplePool" "totalWeight sampleOrigins samplePool = 3" "po_index sampleOrigins = 5"
proof -
  show "bounded_priorities sampleOrigins"
    by (auto simp: bounded_priorities_def sampleOrigins_def maxInt_def ran_def split: if_splits)
  show l: "length (slots sampleOrigins samplePool) = 3"
    by code_simp
  show w: "weights_ok sampleOrigins samplePool"
    using l by (simp add: weights_ok_def samplePool_def sampleOrigins_def weightOf_def backendOf_def)
  show "distinct samplePool" "po_index sampleOrigins = 5"
    by (simp_all add: samplePool_def sampleOrigins_def)
  show "totalWeight sampleOrigins samplePool = 3"
    by (simp add: totalWeight_slots [OF w] l)
qed

theorem SelectOrigin_best_witness:
  "\<exists>u. fst (SelectOrigin True (\<lambda>n. 0) sampleOrigins Map.empty samplePool ''1.2.3.4:5''
        \<lparr>rp_address = [], rp_host = [], rp_metric = None\<rparr>) = Some u \<and> u \<in> set samplePool"
  using SelectOrigin_best [OF sampleOrigins_facts(1), of samplePool "\<lambda>n. 0" True Map.empty "''1.2.3.4:5''"
      "\<lparr>rp_address = [], rp_host = [], rp_metric = None\<rparr>"]
  by (auto simp: samplePool_def)

theorem weighted_round_robin_exact_witness:
  "count_list (picks 3 sampleOrigins samplePool) (hd samplePool) = 2"
proof -
  have "slots sampleOrigins samplePool \<noteq> []" "hd samplePool \<in> set samplePool"
    using sampleOrigins_facts(3) by (auto simp: samplePool_def)
  moreover have "nat (weightOf sampleOrigins (hd samplePool)) = 2"
    by (simp add: samplePool_def sampleOrigins_def weightOf_def backendOf_def)
  ultimately show ?thesis
    using weighted_round_robin_exact [OF sampleOrigins_facts(2), of "hd samplePool"] sampleOrigins_facts(3-6) by simp
qed

end
