(* ===== verification/Job_Queue.thy ===== *)
theory Job_Queue
  imports Prelude "HOL-Library.Product_Lexorder"
begin

section \<open>The job lease protocol\<close>

text \<open>
  \<open>internal/jobqueue/jobqueue.go\<close>: the PostgreSQL lease protocol of the background
  jobs. A table of one job kind and the table of executions are lists of rows; an SQL
  statement is \<open>updateWhere\<close> with its condition and its assignments, and a transaction
  either applies or leaves the database as it was. Times are integers in nanoseconds.
  Faults of the database, rows locked by concurrent transactions and the clocks are
  arguments of the operations, a handler answers with an outcome or with the text of its
  panic, and the steps of the workers are the rules of \<open>job_step\<close>. The zero value of a
  time is 0.
\<close>

datatype kind = Publish | Purge | Install | AgentUpgrade | DNS | Certificate

datatype job_status = PENDING | RUNNING | SUCCEEDED | FAILED | DEAD_LETTER | CANCELLED

datatype job_error = ErrLeaseLost | ErrLeaseUncertain | ErrNotCancellable | ErrNotReplayable
  | ErrInvalidIdempotencyKey | ErrIdempotencyConflict | JobDatabase | ContextDone

record job =
  jb_id :: string
  jb_site :: string
  jb_version :: int
  jb_status :: job_status
  jb_attempts :: int
  jb_maxAttempts :: int
  jb_nextAttemptAt :: int
  jb_leaseOwner :: "string option"
  jb_leaseUntil :: "int option"
  jb_heartbeatAt :: "int option"
  jb_cancelRequestedAt :: "int option"
  jb_timeoutAt :: "int option"
  jb_result :: "string option"
  jb_compensation :: "string option"
  jb_error :: "string option"
  jb_createdAt :: int
  jb_updatedAt :: int

record execution =
  ex_kind :: kind
  ex_job :: string
  ex_attempt :: int
  ex_worker :: string
  ex_status :: job_status
  ex_startedAt :: int
  ex_heartbeatAt :: int
  ex_finishedAt :: "int option"
  ex_result :: "string option"
  ex_error :: "string option"

record job_db =
  jd_jobs :: "job list"
  jd_executions :: "execution list"

record Manager =
  mg_workerID :: string
  mg_lease :: int
  mg_nextSweep :: "kind \<Rightarrow> int"

record Lease =
  le_kind :: kind
  le_id :: string
  le_workerID :: string
  le_attempt :: int
  le_maxAttempts :: int
  le_timeoutAt :: "int option"
  le_leaseUntil :: int

record Outcome =
  ou_result :: "string option"
  ou_compensation :: "string option"
  ou_err :: "string option"
  ou_retryable :: bool
  ou_retryAfter :: int
  ou_requeueAfter :: int

definition second :: int where
  "second = 1000000000"

definition maxBackoff :: int where
  "maxBackoff = 5 * 60 * second"

definition sweepEvery :: int where
  "sweepEvery = 30 * second"

definition heartbeatEvery :: int where
  "heartbeatEvery = 10 * second"

subsection \<open>Statements and transactions\<close>

definition updateWhere :: "('r \<Rightarrow> bool) \<Rightarrow> ('r \<Rightarrow> 'r) \<Rightarrow> 'r list \<Rightarrow> 'r list" where
  "updateWhere cond f rows = map (\<lambda>r. if cond r then f r else r) rows"

definition affected :: "('r \<Rightarrow> bool) \<Rightarrow> 'r list \<Rightarrow> nat" where
  "affected cond rows = length (filter cond rows)"

definition jobTx :: "job_error option \<Rightarrow> (job_db \<Rightarrow> job_error + job_db) \<Rightarrow> job_db \<Rightarrow> job_error option \<times> job_db" where
  "jobTx fault f db =
     (case f db of
        Inl e \<Rightarrow> (Some e, db)
      | Inr db' \<Rightarrow> (case fault of Some e \<Rightarrow> (Some e, db) | None \<Rightarrow> (None, db')))"

definition expired :: "int \<Rightarrow> job \<Rightarrow> bool" where
  "expired now j \<longleftrightarrow> (case jb_leaseUntil j of None \<Rightarrow> True | Some u \<Rightarrow> u \<le> now)"

definition sweepableJobPredicate :: "int \<Rightarrow> job \<Rightarrow> bool" where
  "sweepableJobPredicate now j \<longleftrightarrow> jb_status j = PENDING \<or> (jb_status j = RUNNING \<and> expired now j)"

definition coalesce :: "'a option \<Rightarrow> 'a option \<Rightarrow> 'a option" where
  "coalesce x y = (case x of None \<Rightarrow> y | Some v \<Rightarrow> Some v)"

subsection \<open>Sweeping\<close>

definition close :: "job_status \<Rightarrow> string \<Rightarrow> int \<Rightarrow> job \<Rightarrow> job" where
  "close status message now j =
     j\<lparr>jb_status := status, jb_error := coalesce (jb_error j) (Some message), jb_leaseOwner := None,
       jb_leaseUntil := None, jb_heartbeatAt := None, jb_updatedAt := now\<rparr>"

definition closeExecution :: "job_status \<Rightarrow> string \<Rightarrow> int \<Rightarrow> execution \<Rightarrow> execution" where
  "closeExecution status message now e =
     e\<lparr>ex_status := status, ex_finishedAt := Some now, ex_heartbeatAt := now,
       ex_error := coalesce (ex_error e) (Some message)\<rparr>"

definition sweepPass :: "kind \<Rightarrow> int \<Rightarrow> (job \<Rightarrow> bool) \<Rightarrow> job_status \<Rightarrow> string \<Rightarrow> job_db \<Rightarrow> job_db" where
  "sweepPass kind now cond status message db =
     (let jobs = updateWhere (\<lambda>j. cond j \<and> sweepableJobPredicate now j) (close status message now) (jd_jobs db)
      in \<lparr>jd_jobs = jobs,
          jd_executions = updateWhere
            (\<lambda>e. ex_kind e = kind \<and> ex_status e = RUNNING
               \<and> list_ex (\<lambda>j. jb_id j = ex_job e \<and> jb_status j = status \<and> cond j \<and> jb_attempts j = ex_attempt e) jobs)
            (closeExecution status message now) (jd_executions db)\<rparr>)"

definition timedOut :: "int \<Rightarrow> job \<Rightarrow> bool" where
  "timedOut now j \<longleftrightarrow> (case jb_timeoutAt j of None \<Rightarrow> False | Some t \<Rightarrow> t \<le> now)"

definition sweep :: "bool \<Rightarrow> kind \<Rightarrow> int \<Rightarrow> job_db \<Rightarrow> job_error + job_db" where
  "sweep locked kind now db =
     (if \<not> locked then Ok db
      else let db = sweepPass kind now (\<lambda>j. jb_cancelRequestedAt j \<noteq> None) CANCELLED ''job cancellation requested'' db;
               db = sweepPass kind now (timedOut now) DEAD_LETTER ''job execution deadline expired'' db
           in Ok (sweepPass kind now (\<lambda>j. jb_attempts j \<ge> jb_maxAttempts j) DEAD_LETTER
                    ''maximum delivery attempts exceeded'' db))"

definition sweepIfDue :: "job_error option \<Rightarrow> bool \<Rightarrow> Manager \<Rightarrow> kind \<Rightarrow> int \<Rightarrow> int \<Rightarrow> job_db
    \<Rightarrow> job_error option \<times> Manager \<times> job_db" where
  "sweepIfDue fault locked m kind clock now db =
     (if clock < mg_nextSweep m kind then (None, m, db)
      else (case jobTx fault (sweep locked kind now) db of
              (Some e, db') \<Rightarrow> (Some e, m, db')
            | (None, db') \<Rightarrow> (None, m\<lparr>mg_nextSweep := (mg_nextSweep m)(kind := clock + sweepEvery)\<rparr>, db')))"

subsection \<open>Claiming\<close>

definition siteOrder :: "kind \<Rightarrow> job list \<Rightarrow> job \<Rightarrow> bool" where
  "siteOrder kind jobs c \<longleftrightarrow> kind \<noteq> Publish \<or>
     \<not> list_ex (\<lambda>older. jb_site older = jb_site c \<and> jb_version older < jb_version c
          \<and> jb_cancelRequestedAt older = None \<and> (jb_status older = PENDING \<or> jb_status older = RUNNING)) jobs"

definition claimCandidate :: "kind \<Rightarrow> int \<Rightarrow> job list \<Rightarrow> job \<Rightarrow> bool" where
  "claimCandidate kind now jobs j \<longleftrightarrow>
     jb_cancelRequestedAt j = None \<and> jb_attempts j < jb_maxAttempts j
   \<and> (case jb_timeoutAt j of None \<Rightarrow> True | Some t \<Rightarrow> t > now)
   \<and> ((jb_status j = PENDING \<and> jb_nextAttemptAt j \<le> now) \<or> (jb_status j = RUNNING \<and> expired now j))
   \<and> siteOrder kind jobs j"

definition picked :: "kind \<Rightarrow> int \<Rightarrow> (string \<Rightarrow> bool) \<Rightarrow> job list \<Rightarrow> job option" where
  "picked kind now lockedRow jobs =
     (case sort_key (\<lambda>j. (jb_nextAttemptAt j, jb_createdAt j))
             (filter (\<lambda>j. claimCandidate kind now jobs j \<and> \<not> lockedRow (jb_id j)) jobs) of
        [] \<Rightarrow> None
      | j # _ \<Rightarrow> Some j)"

definition grant :: "Manager \<Rightarrow> int \<Rightarrow> int \<Rightarrow> job \<Rightarrow> job" where
  "grant m defaultTimeout now j =
     j\<lparr>jb_status := RUNNING, jb_attempts := jb_attempts j + 1, jb_leaseOwner := Some (mg_workerID m),
       jb_leaseUntil := Some (now + mg_lease m), jb_heartbeatAt := Some now,
       jb_timeoutAt := coalesce (jb_timeoutAt j) (if defaultTimeout > 0 then Some (now + defaultTimeout) else None),
       jb_updatedAt := now\<rparr>"

definition claimTx :: "Manager \<Rightarrow> kind \<Rightarrow> int \<Rightarrow> int \<Rightarrow> (string \<Rightarrow> bool) \<Rightarrow> job_db \<Rightarrow> job option \<times> job_db" where
  "claimTx m kind defaultTimeout now lockedRow db =
     (case picked kind now lockedRow (jd_jobs db) of
        None \<Rightarrow> (None, db)
      | Some j \<Rightarrow>
          let row = grant m defaultTimeout now j;
              jobs = updateWhere (\<lambda>r. jb_id r = jb_id j) (grant m defaultTimeout now) (jd_jobs db);
              executions = updateWhere
                (\<lambda>e. ex_kind e = kind \<and> ex_job e = jb_id j \<and> ex_status e = RUNNING \<and> ex_attempt e < jb_attempts row)
                (closeExecution FAILED ''worker lease expired'' now) (jd_executions db);
              started = \<lparr>ex_kind = kind, ex_job = jb_id j, ex_attempt = jb_attempts row, ex_worker = mg_workerID m,
                         ex_status = RUNNING, ex_startedAt = now, ex_heartbeatAt = now, ex_finishedAt = None,
                         ex_result = None, ex_error = None\<rparr>
          in (Some row, \<lparr>jd_jobs = jobs, jd_executions = executions @ [started]\<rparr>))"

definition leaseOf :: "Manager \<Rightarrow> kind \<Rightarrow> job \<Rightarrow> Lease" where
  "leaseOf m kind row =
     \<lparr>le_kind = kind, le_id = jb_id row, le_workerID = mg_workerID m, le_attempt = jb_attempts row,
      le_maxAttempts = jb_maxAttempts row, le_timeoutAt = jb_timeoutAt row,
      le_leaseUntil = (case jb_leaseUntil row of Some u \<Rightarrow> u | None \<Rightarrow> 0)\<rparr>"

definition claim :: "job_error option \<Rightarrow> job_error option \<Rightarrow> bool \<Rightarrow> (string \<Rightarrow> bool) \<Rightarrow> Manager \<Rightarrow> kind \<Rightarrow> int
    \<Rightarrow> int \<Rightarrow> int \<Rightarrow> job_db \<Rightarrow> (job_error + Lease option) \<times> Manager \<times> job_db" where
  "claim sweepFault fault locked lockedRow m kind defaultTimeout clock now db =
     (case sweepIfDue sweepFault locked m kind clock now db of
        (Some e, m, db) \<Rightarrow> (Err e, m, db)
      | (None, m, db) \<Rightarrow>
          (case fault of
             Some e \<Rightarrow> (Err e, m, db)
           | None \<Rightarrow>
               (case claimTx m kind defaultTimeout now lockedRow db of
                  (None, db) \<Rightarrow> (Ok None, m, db)
                | (Some row, db) \<Rightarrow> (Ok (Some (leaseOf m kind row)), m, db))))"

subsection \<open>Heartbeats\<close>

definition leased :: "Lease \<Rightarrow> job \<Rightarrow> bool" where
  "leased l j \<longleftrightarrow> jb_id j = le_id l \<and> jb_status j = RUNNING \<and> jb_leaseOwner j = Some (le_workerID l)
     \<and> jb_attempts j = le_attempt l"

definition renewRow :: "Manager \<Rightarrow> int \<Rightarrow> job \<Rightarrow> job" where
  "renewRow m now j = j\<lparr>jb_leaseUntil := Some (now + mg_lease m), jb_heartbeatAt := Some now, jb_updatedAt := now\<rparr>"

definition renew :: "bool \<Rightarrow> Manager \<Rightarrow> int \<Rightarrow> Lease \<Rightarrow> job_db \<Rightarrow> (job_error + (int option \<times> int option)) \<times> job_db" where
  "renew missed m now l db =
     (let jobs = updateWhere (leased l) (renewRow m now) (jd_jobs db);
          rows = map (renewRow m now) (filter (leased l) (jd_jobs db))
      in if length rows \<noteq> 1 then (Err ErrLeaseLost, db\<lparr>jd_jobs := jobs\<rparr>)
         else (Ok (jb_cancelRequestedAt (hd rows), jb_leaseUntil (hd rows)),
               \<lparr>jd_jobs = jobs, jd_executions = updateWhere
                  (\<lambda>e. \<not> missed \<and> ex_kind e = le_kind l \<and> ex_job e = le_id l \<and> ex_attempt e = le_attempt l
                     \<and> ex_worker e = le_workerID l \<and> ex_status e = RUNNING)
                  (\<lambda>e. e\<lparr>ex_heartbeatAt := now\<rparr>) (jd_executions db)\<rparr>))"

definition leaseState :: "Lease \<Rightarrow> job_db \<Rightarrow> job_error + (int option \<times> int option)" where
  "leaseState l db =
     (let rows = filter (leased l) (jd_jobs db)
      in if length rows \<noteq> 1 then Err ErrLeaseLost else Ok (jb_cancelRequestedAt (hd rows), jb_leaseUntil (hd rows)))"

definition leaseProbeFailure :: "job_error \<Rightarrow> int \<Rightarrow> int \<Rightarrow> job_error option" where
  "leaseProbeFailure err now leaseValidUntil =
     (if err = ErrLeaseLost then Some ErrLeaseLost
      else if now < leaseValidUntil then None
      else Some ErrLeaseUncertain)"

record heartbeat =
  hb_validUntil :: int
  hb_renewPending :: bool

definition startHeartbeat :: "Manager \<Rightarrow> int \<Rightarrow> Lease \<Rightarrow> heartbeat" where
  "startHeartbeat m now l =
     \<lparr>hb_validUntil = (if le_leaseUntil l = 0 then now + mg_lease m else le_leaseUntil l), hb_renewPending = False\<rparr>"

datatype probe_result = Continue | Stop | Lost job_error

definition probe :: "job_error option \<Rightarrow> bool \<Rightarrow> bool \<Rightarrow> Manager \<Rightarrow> int \<Rightarrow> Lease \<Rightarrow> bool \<Rightarrow> heartbeat \<Rightarrow> job_db
    \<Rightarrow> probe_result \<times> heartbeat \<times> job_db" where
  "probe fault missed ctxDone m now l renewLease h db =
     (let (res, db') = (case fault of
            Some e \<Rightarrow> (Err e, db)
          | None \<Rightarrow> if renewLease then renew missed m now l db else (leaseState l db, db))
      in case res of
           Inl e \<Rightarrow>
             if ctxDone then (Stop, h, db')
             else let h = (if renewLease then h\<lparr>hb_renewPending := True\<rparr> else h)
                  in (case leaseProbeFailure e now (hb_validUntil h) of
                        Some t \<Rightarrow> (Lost t, h, db')
                      | None \<Rightarrow> (Continue, h, db'))
         | Inr (cancelRequested, until) \<Rightarrow>
             let h = (if renewLease
                      then h\<lparr>hb_validUntil := (case until of Some u \<Rightarrow> u | None \<Rightarrow> 0), hb_renewPending := False\<rparr> else h)
             in if cancelRequested \<noteq> None then (Stop, h, db') else (Continue, h, db'))"

definition pollRenews :: "int \<Rightarrow> heartbeat \<Rightarrow> bool" where
  "pollRenews now h \<longleftrightarrow> hb_renewPending h \<or> hb_validUntil h - now \<le> heartbeatEvery"

subsection \<open>Outcomes\<close>

definition backoffDelay :: "int \<Rightarrow> int" where
  "backoffDelay attempt =
     (if attempt \<ge> 9 then maxBackoff
      else let attempt = (if attempt < 0 then 0 else attempt) in second * 2 ^ nat attempt)"

definition fnv32a :: "nat list \<Rightarrow> 32 word" where
  "fnv32a bs = foldl (\<lambda>h b. xor h (of_nat b) * 16777619) 2166136261 bs"

definition quot :: "int \<Rightarrow> int \<Rightarrow> int" where
  "quot a b = (if a < 0 then - ((- a) div b) else a div b)"

definition retryDelay :: "Lease \<Rightarrow> int \<Rightarrow> int" where
  "retryDelay l override =
     (let delay = (if override \<le> 0 then backoffDelay (le_attempt l) else override)
      in if le_id l = [] then delay
         else let hash = fnv32a (map of_char (le_id l) @ [nat (le_attempt l mod 256)]);
                  factor = int (80 + unat hash mod 41);
                  jittered = quot (wrap64 (delay * factor)) 100
              in if override \<le> 0 \<and> jittered > maxBackoff then maxBackoff else jittered)"

definition outcomeDecision :: "int \<Rightarrow> Lease \<Rightarrow> Outcome \<Rightarrow> job_status \<times> int \<times> string \<times> bool" where
  "outcomeDecision now l oc =
     (let requeue = ou_requeueAfter oc > 0;
          status = (if requeue then PENDING else SUCCEEDED);
          nextAttempt = (if requeue then now + ou_requeueAfter oc else now)
      in case ou_err oc of
           None \<Rightarrow> (status, nextAttempt, [], requeue)
         | Some message \<Rightarrow>
             if (case le_timeoutAt l of None \<Rightarrow> False | Some t \<Rightarrow> \<not> now < t) \<and> (ou_retryable oc \<or> requeue)
             then (DEAD_LETTER, nextAttempt, message, False)
             else if requeue then (status, nextAttempt, message, True)
             else if ou_retryable oc \<and> le_attempt l < le_maxAttempts l
             then (PENDING, nextAttempt + retryDelay l (ou_retryAfter oc), message, False)
             else if ou_retryable oc then (DEAD_LETTER, nextAttempt, message, False)
             else (FAILED, nextAttempt, message, False))"

definition executionOutcomeStatus :: "job_status \<Rightarrow> Outcome \<Rightarrow> job_status" where
  "executionOutcomeStatus status oc = (if status = PENDING \<and> ou_err oc \<noteq> None then FAILED else status)"

definition nullableString :: "string \<Rightarrow> string option" where
  "nullableString s = (if s = [] then None else Some s)"

definition finishRow :: "job_status \<Rightarrow> int \<Rightarrow> string \<Rightarrow> bool \<Rightarrow> Outcome \<Rightarrow> int \<Rightarrow> job \<Rightarrow> job" where
  "finishRow status nextAttempt message requeue oc now j =
     j\<lparr>jb_status := status, jb_nextAttemptAt := nextAttempt, jb_leaseOwner := None, jb_leaseUntil := None,
       jb_heartbeatAt := None, jb_result := ou_result oc,
       jb_compensation := coalesce (ou_compensation oc) (jb_compensation j), jb_error := nullableString message,
       jb_attempts := max (jb_attempts j - (if requeue then 1 else 0)) 0, jb_updatedAt := now\<rparr>"

definition finish :: "int \<Rightarrow> int \<Rightarrow> Lease \<Rightarrow> Outcome \<Rightarrow> job_db \<Rightarrow> job_error + job_db" where
  "finish clock now l oc db =
     (let rows = filter (leased l) (jd_jobs db)
      in if length rows \<noteq> 1 then Err ErrLeaseLost
         else
           let (status, nextAttempt, message, requeue) = outcomeDecision clock l oc;
               cancelled = jb_cancelRequestedAt (hd rows) \<noteq> None;
               status = (if cancelled then CANCELLED else status);
               requeue = (requeue \<and> \<not> cancelled);
               message = (if cancelled \<and> message = [] then ''job cancellation requested'' else message)
           in if affected (leased l) (jd_jobs db) \<noteq> 1 then Err ErrLeaseLost
              else Ok \<lparr>jd_jobs = updateWhere (leased l) (finishRow status nextAttempt message requeue oc now) (jd_jobs db),
                jd_executions = updateWhere
                  (\<lambda>e. ex_kind e = le_kind l \<and> ex_job e = le_id l \<and> ex_attempt e = le_attempt l
                     \<and> ex_worker e = le_workerID l \<and> ex_status e = RUNNING)
                  (\<lambda>e. e\<lparr>ex_status := executionOutcomeStatus status oc, ex_finishedAt := Some now,
                        ex_result := ou_result oc, ex_error := nullableString message, ex_heartbeatAt := now\<rparr>)
                  (jd_executions db)\<rparr>)"

subsection \<open>Cancelling and replaying\<close>

definition cancellable :: "string \<Rightarrow> job \<Rightarrow> bool" where
  "cancellable i j \<longleftrightarrow> jb_id j = i \<and> (jb_status j = PENDING \<or> jb_status j = RUNNING)"

definition cancelRow :: "int \<Rightarrow> job \<Rightarrow> job" where
  "cancelRow now j =
     j\<lparr>jb_cancelRequestedAt := Some now, jb_status := (if jb_status j = PENDING then CANCELLED else jb_status j),
       jb_updatedAt := now\<rparr>"

definition Cancel :: "job_error option \<Rightarrow> int \<Rightarrow> string \<Rightarrow> job_db \<Rightarrow> (job_error option) \<times> job_db" where
  "Cancel fault now i db =
     (case fault of
        Some e \<Rightarrow> (Some e, db)
      | None \<Rightarrow> (if affected (cancellable i) (jd_jobs db) \<noteq> 1 then Some ErrNotCancellable else None,
                 db\<lparr>jd_jobs := updateWhere (cancellable i) (cancelRow now) (jd_jobs db)\<rparr>))"

definition replayable :: "string \<Rightarrow> job \<Rightarrow> bool" where
  "replayable i j \<longleftrightarrow> jb_id j = i \<and> (jb_status j = FAILED \<or> jb_status j = DEAD_LETTER \<or> jb_status j = CANCELLED)"

definition replayRow :: "int \<Rightarrow> job \<Rightarrow> job" where
  "replayRow now j =
     j\<lparr>jb_status := PENDING, jb_attempts := 0, jb_nextAttemptAt := now, jb_leaseOwner := None, jb_leaseUntil := None,
       jb_heartbeatAt := None, jb_cancelRequestedAt := None, jb_timeoutAt := None, jb_result := None,
       jb_compensation := None, jb_error := None, jb_updatedAt := now\<rparr>"

definition Replay :: "job_error option \<Rightarrow> int \<Rightarrow> string \<Rightarrow> job_db \<Rightarrow> (job_error option) \<times> job_db" where
  "Replay fault now i db =
     (case fault of
        Some e \<Rightarrow> (Some e, db)
      | None \<Rightarrow> (if affected (replayable i) (jd_jobs db) \<noteq> 1 then Some ErrNotReplayable else None,
                 db\<lparr>jd_jobs := updateWhere (replayable i) (replayRow now) (jd_jobs db)\<rparr>))"

definition ValidateIdempotencyKey :: "string \<Rightarrow> job_error option" where
  "ValidateIdempotencyKey value =
     (if length value > 128 then Some ErrInvalidIdempotencyKey
      else if list_ex (\<lambda>c. (of_char c :: nat) < 33 \<or> (of_char c :: nat) > 126) value then Some ErrInvalidIdempotencyKey
      else None)"

definition invokeHandler :: "(Lease \<Rightarrow> string + Outcome) \<Rightarrow> Lease \<Rightarrow> Outcome" where
  "invokeHandler handler l =
     (case handler l of
        Inr oc \<Rightarrow> oc
      | Inl recovered \<Rightarrow>
          \<lparr>ou_result = None, ou_compensation = None, ou_err = Some (''job worker panic: '' @ recovered),
           ou_retryable = True, ou_retryAfter = 0, ou_requeueAfter = 0\<rparr>)"

text \<open>
  One run of a worker: claim, handle while other workers change the database
  (\<open>interfere\<close>), then finish unless the process shuts down or the heartbeat lost the
  lease.
\<close>

definition RunOne :: "job_error option \<Rightarrow> job_error option \<Rightarrow> bool \<Rightarrow> (string \<Rightarrow> bool) \<Rightarrow> Manager \<Rightarrow> kind \<Rightarrow> int \<Rightarrow> int \<Rightarrow> int
    \<Rightarrow> (Lease \<Rightarrow> string + Outcome) \<Rightarrow> (job_db \<Rightarrow> job_db) \<Rightarrow> bool \<Rightarrow> job_error option \<Rightarrow> job_error option \<Rightarrow> int \<Rightarrow> int
    \<Rightarrow> job_db \<Rightarrow> (bool \<times> job_error option) \<times> Manager \<times> job_db" where
  "RunOne sweepFault claimFault locked lockedRow m kind defaultTimeout clock now handler interfere ctxDone lost
       finishFault clock' now' db =
     (case claim sweepFault claimFault locked lockedRow m kind defaultTimeout clock now db of
        (Inl e, m, db) \<Rightarrow> ((False, Some e), m, db)
      | (Inr None, m, db) \<Rightarrow> ((False, None), m, db)
      | (Inr (Some l), m, db) \<Rightarrow>
          let oc = invokeHandler handler l; db = interfere db
          in if ctxDone then ((True, Some ContextDone), m, db)
             else (case lost of
                     Some e \<Rightarrow> ((True, Some e), m, db)
                   | None \<Rightarrow> (case jobTx finishFault (finish clock' now' l oc) db of (e, db) \<Rightarrow> ((True, e), m, db))))"

subsection \<open>The invariant\<close>

definition job_ok :: "job \<Rightarrow> bool" where
  "job_ok j \<longleftrightarrow> 0 \<le> jb_attempts j \<and> jb_attempts j \<le> jb_maxAttempts j
     \<and> (if jb_status j = RUNNING then jb_leaseOwner j \<noteq> None \<and> jb_leaseUntil j \<noteq> None \<and> 1 \<le> jb_attempts j
        else jb_leaseOwner j = None \<and> jb_leaseUntil j = None)"

definition backs :: "job \<Rightarrow> execution \<Rightarrow> bool" where
  "backs j e \<longleftrightarrow> jb_id j = ex_job e \<and> jb_status j = RUNNING \<and> jb_attempts j = ex_attempt e
     \<and> jb_leaseOwner j = Some (ex_worker e)"

definition executions_ok :: "kind \<Rightarrow> job list \<Rightarrow> execution list \<Rightarrow> bool" where
  "executions_ok k jobs es \<longleftrightarrow>
     (\<forall>e \<in> set es. ex_kind e = k \<and> ex_status e = RUNNING \<longrightarrow> (\<exists>j \<in> set jobs. backs j e))"

definition jobs_inv :: "kind \<Rightarrow> job_db \<Rightarrow> bool" where
  "jobs_inv k db \<longleftrightarrow> distinct (map jb_id (jd_jobs db)) \<and> list_all job_ok (jd_jobs db)
     \<and> executions_ok k (jd_jobs db) (jd_executions db)"

lemma jobs_invI:
  "distinct (map jb_id jobs) \<Longrightarrow> list_all job_ok jobs \<Longrightarrow> executions_ok k jobs es \<Longrightarrow>
   jobs_inv k \<lparr>jd_jobs = jobs, jd_executions = es\<rparr>"
  by (simp add: jobs_inv_def)

lemma updateWhere_ids: "(\<And>j. jb_id (f j) = jb_id j) \<Longrightarrow> map jb_id (updateWhere c f rows) = map jb_id rows"
  by (simp add: updateWhere_def comp_def if_distrib cong: if_cong)

lemma updateWhere_ok:
  "list_all job_ok rows \<Longrightarrow> (\<And>j. job_ok j \<Longrightarrow> c j \<Longrightarrow> job_ok (f j)) \<Longrightarrow> list_all job_ok (updateWhere c f rows)"
  by (auto simp: updateWhere_def list_all_iff)

lemma updateWhere_mem: "x \<in> set (updateWhere c f rows) \<longleftrightarrow> (\<exists>r \<in> set rows. x = (if c r then f r else r))"
  by (auto simp: updateWhere_def)

lemma updateWhere_keeps: "r \<in> set rows \<Longrightarrow> \<not> c r \<Longrightarrow> r \<in> set (updateWhere c f rows)"
  by (force simp: updateWhere_def)

lemma updateWhere_new: "r \<in> set rows \<Longrightarrow> c r \<Longrightarrow> f r \<in> set (updateWhere c f rows)"
  by (force simp: updateWhere_def)

lemma same_id: "distinct (map jb_id rows) \<Longrightarrow> r \<in> set rows \<Longrightarrow> s \<in> set rows \<Longrightarrow> jb_id r = jb_id s \<Longrightarrow> r = s"
  by (metis distinct_map inj_onD)

text \<open>A statement that leaves every backing row in place keeps the executions backed.\<close>

lemma executions_ok_update:
  assumes "executions_ok k jobs es"
    and "\<And>j e. j \<in> set jobs \<Longrightarrow> backs j e \<Longrightarrow> backs (if c j then f j else j) e"
  shows "executions_ok k (updateWhere c f jobs) es"
  unfolding executions_ok_def
proof (intro ballI impI)
  fix e assume "e \<in> set es" "ex_kind e = k \<and> ex_status e = RUNNING"
  then obtain j where "j \<in> set jobs" "backs j e"
    using assms(1) unfolding executions_ok_def by blast
  then show "\<exists>j \<in> set (updateWhere c f jobs). backs j e"
    using assms(2) [of j e] updateWhere_mem [of "if c j then f j else j" c f jobs] by blast
qed

lemma executions_ok_relabel:
  assumes "executions_ok k jobs es"
    and "\<And>e. c e \<Longrightarrow> ex_status (f e) = RUNNING \<Longrightarrow>
      ex_kind (f e) = ex_kind e \<and> ex_status e = RUNNING \<and> ex_job (f e) = ex_job e
      \<and> ex_attempt (f e) = ex_attempt e \<and> ex_worker (f e) = ex_worker e"
  shows "executions_ok k jobs (updateWhere c f es)"
  unfolding executions_ok_def
proof (intro ballI impI)
  fix x assume x: "x \<in> set (updateWhere c f es)" "ex_kind x = k \<and> ex_status x = RUNNING"
  then obtain e where e: "e \<in> set es" "x = (if c e then f e else e)"
    by (auto simp: updateWhere_mem)
  then have "ex_kind e = k \<and> ex_status e = RUNNING" "\<And>j. backs j e \<Longrightarrow> backs j x"
    using x(2) assms(2) [of e] by (auto simp: backs_def split: if_splits)
  then show "\<exists>j \<in> set jobs. backs j x"
    using assms(1) e(1) unfolding executions_ok_def by blast
qed

lemma close_ok: "job_ok j \<Longrightarrow> s \<noteq> RUNNING \<Longrightarrow> job_ok (close s msg now j)"
  by (simp add: job_ok_def close_def)

lemma sweepPass_inv:
  assumes "jobs_inv k db" "status \<noteq> RUNNING" "\<And>j. cond (close status msg now j) = cond j"
  shows "jobs_inv k (sweepPass k now cond status msg db)"
proof -
  define c where "c = (\<lambda>j. cond j \<and> sweepableJobPredicate now j)"
  define jobs where "jobs = updateWhere c (close status msg now) (jd_jobs db)"
  define closed :: "execution \<Rightarrow> bool" where "closed = (\<lambda>e. \<exists>j \<in> set jobs. jb_id j = ex_job e \<and> jb_status j = status \<and> cond j \<and> jb_attempts j = ex_attempt e)"
  define es where "es = updateWhere (\<lambda>e. ex_kind e = k \<and> ex_status e = RUNNING \<and> closed e)
      (closeExecution status msg now) (jd_executions db)"
  have "executions_ok k jobs es"
    unfolding executions_ok_def
  proof (intro ballI impI)
    fix x assume x: "x \<in> set es" "ex_kind x = k \<and> ex_status x = RUNNING"
    then obtain e where e: "e \<in> set (jd_executions db)"
        "x = (if ex_kind e = k \<and> ex_status e = RUNNING \<and> closed e then closeExecution status msg now e else e)"
      unfolding es_def updateWhere_mem by blast
    have nc: "x = e" "\<not> closed x"
      using e(2) x(2) assms(2) by (auto simp: closeExecution_def split: if_splits)
    then obtain j where j: "j \<in> set (jd_jobs db)" "backs j x"
      using assms(1) x(2) e(1) unfolding jobs_inv_def executions_ok_def by blast
    have "\<not> c j"
    proof
      assume cj: "c j"
      then have "close status msg now j \<in> set jobs"
        unfolding jobs_def by (rule updateWhere_new [OF j(1)])
      moreover have "cond (close status msg now j)"
        using cj assms(3) [of j] by (simp add: c_def)
      ultimately have "closed x"
        using j(2) unfolding closed_def
        by (intro bexI [of _ "close status msg now j"]) (simp_all add: close_def backs_def)
      then show False using nc(2) by blast
    qed
    then show "\<exists>j \<in> set jobs. backs j x"
      using updateWhere_keeps [OF j(1)] j(2) unfolding jobs_def by blast
  qed
  moreover have "list_all job_ok jobs"
    unfolding jobs_def using assms(1,2) by (intro updateWhere_ok close_ok) (auto simp: jobs_inv_def)
  moreover have "map jb_id jobs = map jb_id (jd_jobs db)"
    unfolding jobs_def by (rule updateWhere_ids) (simp add: close_def)
  moreover have "sweepPass k now cond status msg db = \<lparr>jd_jobs = jobs, jd_executions = es\<rparr>"
    by (simp add: sweepPass_def Let_def jobs_def es_def c_def closed_def list_ex_iff)
  ultimately show ?thesis
    using assms(1) by (simp add: jobs_inv_def)
qed

lemma sweep_inv:
  assumes "jobs_inv k db"
  shows "jobs_inv k (snd (jobTx fault (sweep locked k now) db))"
proof -
  have "jobs_inv k db'" if "sweep locked k now db = Ok db'" for db'
  proof (cases locked)
    case True
    let ?a = "sweepPass k now (\<lambda>j. jb_cancelRequestedAt j \<noteq> None) CANCELLED ''job cancellation requested'' db"
    let ?b = "sweepPass k now (timedOut now) DEAD_LETTER ''job execution deadline expired'' ?a"
    have "jobs_inv k ?a"
      by (rule sweepPass_inv [OF assms]) (simp_all add: close_def)
    then have "jobs_inv k ?b"
      by (rule sweepPass_inv) (simp_all add: close_def timedOut_def)
    then have "jobs_inv k (sweepPass k now (\<lambda>j. jb_attempts j \<ge> jb_maxAttempts j) DEAD_LETTER
        ''maximum delivery attempts exceeded'' ?b)"
      by (rule sweepPass_inv) (simp_all add: close_def)
    then show ?thesis
      using that True by (simp add: sweep_def Let_def)
  next
    case False
    then show ?thesis
      using that assms by (simp add: sweep_def)
  qed
  then show ?thesis
    using assms by (auto simp: jobTx_def split: sum.splits option.splits)
qed

lemma picked_facts:
  assumes "picked k now lr jobs = Some j"
  shows "j \<in> set jobs" "claimCandidate k now jobs j"
proof -
  obtain rest where "sort_key (\<lambda>j. (jb_nextAttemptAt j, jb_createdAt j))
      (filter (\<lambda>j. claimCandidate k now jobs j \<and> \<not> lr (jb_id j)) jobs) = j # rest"
    using assms by (auto simp: picked_def split: list.splits)
  then have "j \<in> set (filter (\<lambda>j. claimCandidate k now jobs j \<and> \<not> lr (jb_id j)) jobs)"
    by (metis list.set_intros(1) set_sort)
  then show "j \<in> set jobs" "claimCandidate k now jobs j"
    by auto
qed

lemma grant_ok: "job_ok j \<Longrightarrow> jb_attempts j < jb_maxAttempts j \<Longrightarrow> job_ok (grant m t now j)"
  by (simp add: job_ok_def grant_def)

lemma claimTx_inv:
  assumes "jobs_inv k db"
  shows "jobs_inv k (snd (claimTx m k t now lr db))"
proof (cases "picked k now lr (jd_jobs db)")
  case None
  then show ?thesis using assms by (simp add: claimTx_def)
next
  case (Some j)
  note p = picked_facts [OF Some]
  have d: "distinct (map jb_id (jd_jobs db))" and ok: "list_all job_ok (jd_jobs db)"
    and ex: "executions_ok k (jd_jobs db) (jd_executions db)"
    using assms by (auto simp: jobs_inv_def)
  define jobs where "jobs = updateWhere (\<lambda>r. jb_id r = jb_id j) (grant m t now) (jd_jobs db)"
  define stale :: "execution \<Rightarrow> bool" where "stale = (\<lambda>e. ex_kind e = k \<and> ex_job e = jb_id j \<and> ex_status e = RUNNING
      \<and> ex_attempt e < jb_attempts (grant m t now j))"
  define es where "es = updateWhere stale (closeExecution FAILED ''worker lease expired'' now) (jd_executions db)"
  define started where "started = \<lparr>ex_kind = k, ex_job = jb_id j, ex_attempt = jb_attempts (grant m t now j),
      ex_worker = mg_workerID m, ex_status = RUNNING, ex_startedAt = now, ex_heartbeatAt = now, ex_finishedAt = None,
      ex_result = None, ex_error = None\<rparr>"
  have eq: "claimTx m k t now lr db = (Some (grant m t now j), \<lparr>jd_jobs = jobs, jd_executions = es @ [started]\<rparr>)"
    by (simp add: claimTx_def Some Let_def jobs_def es_def stale_def started_def)
  have jr: "r = j" if "r \<in> set (jd_jobs db)" "jb_id r = jb_id j" for r
    using same_id [OF d that(1) p(1) that(2)] .
  have "job_ok (grant m t now j)"
    using ok p by (intro grant_ok) (auto simp: list_all_iff claimCandidate_def)
  then have "list_all job_ok jobs"
    unfolding jobs_def using ok jr by (fastforce simp: list_all_iff updateWhere_mem)
  moreover have "map jb_id jobs = map jb_id (jd_jobs db)"
    unfolding jobs_def by (rule updateWhere_ids) (simp add: grant_def)
  moreover have "backs (grant m t now j) started"
    by (simp add: backs_def started_def grant_def)
  moreover have "grant m t now j \<in> set jobs"
    unfolding jobs_def by (rule updateWhere_new [OF p(1) refl])
  moreover have "\<exists>r \<in> set jobs. backs r x" if x: "x \<in> set es" "ex_kind x = k \<and> ex_status x = RUNNING" for x
  proof -
    obtain e where e: "e \<in> set (jd_executions db)" "x = (if stale e then closeExecution FAILED ''worker lease expired'' now e else e)"
      using x(1) unfolding es_def updateWhere_mem by blast
    then have ns: "x = e" "\<not> stale x"
      using x(2) by (auto simp: closeExecution_def split: if_splits)
    obtain r where r: "r \<in> set (jd_jobs db)" "backs r x"
      using ex e(1) x(2) ns(1) unfolding executions_ok_def by blast
    have "jb_id r \<noteq> jb_id j"
    proof
      assume "jb_id r = jb_id j"
      then have "stale x"
        using jr [OF r(1)] r(2) x(2) by (simp add: stale_def backs_def grant_def)
      then show False using ns(2) by blast
    qed
    then show ?thesis
      using updateWhere_keeps [OF r(1), of "\<lambda>r. jb_id r = jb_id j"] r(2) unfolding jobs_def by blast
  qed
  ultimately show ?thesis
    using d by (auto simp: eq jobs_inv_def executions_ok_def)
qed

lemma claim_inv:
  assumes "jobs_inv k db"
  shows "jobs_inv k (snd (snd (claim sf f locked lr m k t clock now db)))"
proof -
  obtain e m' db1 where s: "sweepIfDue sf locked m k clock now db = (e, m', db1)"
    by (cases "sweepIfDue sf locked m k clock now db") auto
  then have "db1 = db \<or> db1 = snd (jobTx sf (sweep locked k now) db)"
    by (auto simp: sweepIfDue_def split: if_splits prod.splits option.splits)
  then have "jobs_inv k db1"
    using assms sweep_inv by auto
  then have "jobs_inv k (snd (claimTx m' k t now lr db1))"
    by (rule claimTx_inv)
  then show ?thesis
    using \<open>jobs_inv k db1\<close> by (auto simp: claim_def s split: option.splits prod.splits)
qed

lemma leased_unique:
  assumes "distinct (map jb_id rows)" "length (filter (leased l) rows) = 1" "r \<in> set rows" "jb_id r = le_id l"
  shows "leased l r" "hd (filter (leased l) rows) = r"
proof -
  obtain x where x: "filter (leased l) rows = [x]"
    using assms(2) by (metis One_nat_def length_0_conv length_Suc_conv)
  then have "x \<in> set (filter (leased l) rows)"
    by simp
  then have "x \<in> set rows" "leased l x"
    by simp_all
  then have "x = r"
    using same_id [OF assms(1) _ assms(3)] assms(4) by (auto simp: leased_def)
  then show "leased l r" "hd (filter (leased l) rows) = r"
    using \<open>leased l x\<close> x by simp_all
qed

lemma renew_inv:
  assumes "jobs_inv k db" "le_kind l = k"
  shows "jobs_inv k (snd (renew missed m now l db))"
proof -
  define jobs where "jobs = updateWhere (leased l) (renewRow m now) (jd_jobs db)"
  have "list_all job_ok jobs"
    unfolding jobs_def using assms(1)
    by (intro updateWhere_ok) (auto simp: jobs_inv_def job_ok_def renewRow_def leased_def)
  moreover have "map jb_id jobs = map jb_id (jd_jobs db)"
    unfolding jobs_def by (rule updateWhere_ids) (simp add: renewRow_def)
  moreover have ex: "executions_ok k jobs (jd_executions db)"
    unfolding jobs_def using assms(1)
    by (intro executions_ok_update) (auto simp: jobs_inv_def backs_def renewRow_def)
  moreover have "executions_ok k jobs (updateWhere c (\<lambda>e. e\<lparr>ex_heartbeatAt := now\<rparr>) (jd_executions db))" for c
    by (rule executions_ok_relabel [OF ex]) simp
  ultimately show ?thesis
    using assms(1) by (simp add: renew_def Let_def jobs_def [symmetric] jobs_inv_def)
qed

lemma outcome_status: "outcomeDecision c l oc = (s, n, msg, r) \<Longrightarrow> s \<noteq> RUNNING"
  by (auto simp: outcomeDecision_def Let_def split: option.splits if_splits)

lemma finish_facts:
  assumes "finish c now l oc db = Ok db'"
  obtains s n msg rq where "s \<noteq> RUNNING" "length (filter (leased l) (jd_jobs db)) = 1"
    "db' = \<lparr>jd_jobs = updateWhere (leased l) (finishRow s n msg rq oc now) (jd_jobs db),
      jd_executions = updateWhere
        (\<lambda>e. ex_kind e = le_kind l \<and> ex_job e = le_id l \<and> ex_attempt e = le_attempt l
           \<and> ex_worker e = le_workerID l \<and> ex_status e = RUNNING)
        (\<lambda>e. e\<lparr>ex_status := executionOutcomeStatus s oc, ex_finishedAt := Some now,
              ex_result := ou_result oc, ex_error := nullableString msg, ex_heartbeatAt := now\<rparr>)
        (jd_executions db)\<rparr>"
proof -
  obtain s n msg rq where o: "outcomeDecision c l oc = (s, n, msg, rq)"
    by (metis prod_cases4)
  let ?x = "jb_cancelRequestedAt (hd (filter (leased l) (jd_jobs db))) \<noteq> None"
  show ?thesis
    by (rule that [of "if ?x then CANCELLED else s" n
        "if ?x \<and> msg = [] then ''job cancellation requested'' else msg" "rq \<and> \<not> ?x"])
      (use assms outcome_status [OF o] in \<open>simp_all add: finish_def Let_def o split: if_splits\<close>)
qed

lemma finish_inv:
  assumes inv: "jobs_inv k db" and "le_kind l = k" and fin: "finish c now l oc db = Ok db'"
  shows "jobs_inv k db'"
proof -
  have d: "distinct (map jb_id (jd_jobs db))" and ok: "list_all job_ok (jd_jobs db)"
    and ex: "executions_ok k (jd_jobs db) (jd_executions db)"
    using inv by (auto simp: jobs_inv_def)
  obtain s n msg rq where s: "s \<noteq> RUNNING" and one: "length (filter (leased l) (jd_jobs db)) = 1"
    and db': "db' = \<lparr>jd_jobs = updateWhere (leased l) (finishRow s n msg rq oc now) (jd_jobs db),
      jd_executions = updateWhere
        (\<lambda>e. ex_kind e = le_kind l \<and> ex_job e = le_id l \<and> ex_attempt e = le_attempt l
           \<and> ex_worker e = le_workerID l \<and> ex_status e = RUNNING)
        (\<lambda>e. e\<lparr>ex_status := executionOutcomeStatus s oc, ex_finishedAt := Some now,
              ex_result := ou_result oc, ex_error := nullableString msg, ex_heartbeatAt := now\<rparr>)
        (jd_executions db)\<rparr>"
    using finish_facts [OF fin] by blast
  define closed :: "execution \<Rightarrow> bool" where "closed = (\<lambda>e. ex_kind e = le_kind l \<and> ex_job e = le_id l
      \<and> ex_attempt e = le_attempt l \<and> ex_worker e = le_workerID l \<and> ex_status e = RUNNING)"
  show ?thesis
    unfolding db'
  proof (rule jobs_invI)
    show "distinct (map jb_id (updateWhere (leased l) (finishRow s n msg rq oc now) (jd_jobs db)))"
      using d by (subst updateWhere_ids) (auto simp: finishRow_def)
    show "list_all job_ok (updateWhere (leased l) (finishRow s n msg rq oc now) (jd_jobs db))"
      using s by (intro updateWhere_ok [OF ok]) (auto simp: job_ok_def finishRow_def leased_def)
    show "executions_ok k (updateWhere (leased l) (finishRow s n msg rq oc now) (jd_jobs db))
        (updateWhere (\<lambda>e. ex_kind e = le_kind l \<and> ex_job e = le_id l \<and> ex_attempt e = le_attempt l
           \<and> ex_worker e = le_workerID l \<and> ex_status e = RUNNING)
        (\<lambda>e. e\<lparr>ex_status := executionOutcomeStatus s oc, ex_finishedAt := Some now,
              ex_result := ou_result oc, ex_error := nullableString msg, ex_heartbeatAt := now\<rparr>)
        (jd_executions db))"
      unfolding executions_ok_def closed_def [symmetric]
    proof (intro ballI impI)
      fix x
      assume x: "x \<in> set (updateWhere closed (\<lambda>e. e\<lparr>ex_status := executionOutcomeStatus s oc,
          ex_finishedAt := Some now, ex_result := ou_result oc, ex_error := nullableString msg,
          ex_heartbeatAt := now\<rparr>) (jd_executions db))" "ex_kind x = k \<and> ex_status x = RUNNING"
      then obtain e where "e \<in> set (jd_executions db)" "x = (if closed e then e\<lparr>ex_status := executionOutcomeStatus s oc,
          ex_finishedAt := Some now, ex_result := ou_result oc, ex_error := nullableString msg,
          ex_heartbeatAt := now\<rparr> else e)"
        unfolding updateWhere_mem by blast
      moreover have "executionOutcomeStatus s oc \<noteq> RUNNING"
        using s by (simp add: executionOutcomeStatus_def)
      ultimately have e: "x \<in> set (jd_executions db)" "\<not> closed x"
        using x(2) by (auto split: if_splits)
      obtain j where j: "j \<in> set (jd_jobs db)" "backs j x"
        using ex e(1) x(2) unfolding executions_ok_def by blast
      have "\<not> leased l j"
        using e(2) j(2) x(2) assms(2) by (auto simp: closed_def backs_def leased_def)
      then show "\<exists>j \<in> set (updateWhere (leased l) (finishRow s n msg rq oc now) (jd_jobs db)). backs j x"
        using updateWhere_keeps [OF j(1)] j(2) by blast
    qed
  qed
qed

lemma Cancel_inv:
  assumes "jobs_inv k db"
  shows "jobs_inv k (snd (Cancel fault now i db))"
proof -
  have "list_all job_ok (updateWhere (cancellable i) (cancelRow now) (jd_jobs db))"
    using assms by (intro updateWhere_ok) (auto simp: jobs_inv_def job_ok_def cancelRow_def)
  moreover have "executions_ok k (updateWhere (cancellable i) (cancelRow now) (jd_jobs db)) (jd_executions db)"
    using assms by (intro executions_ok_update) (auto simp: jobs_inv_def backs_def cancelRow_def cancellable_def)
  moreover have "map jb_id (updateWhere (cancellable i) (cancelRow now) (jd_jobs db)) = map jb_id (jd_jobs db)"
    by (rule updateWhere_ids) (simp add: cancelRow_def)
  ultimately show ?thesis
    using assms by (simp add: Cancel_def jobs_inv_def split: option.split)
qed

lemma Replay_inv:
  assumes "jobs_inv k db"
  shows "jobs_inv k (snd (Replay fault now i db))"
proof -
  have "list_all job_ok (updateWhere (replayable i) (replayRow now) (jd_jobs db))"
    using assms by (intro updateWhere_ok) (auto simp: jobs_inv_def job_ok_def replayRow_def)
  moreover have "executions_ok k (updateWhere (replayable i) (replayRow now) (jd_jobs db)) (jd_executions db)"
    using assms by (intro executions_ok_update) (auto simp: jobs_inv_def backs_def replayRow_def replayable_def)
  moreover have "map jb_id (updateWhere (replayable i) (replayRow now) (jd_jobs db)) = map jb_id (jd_jobs db)"
    by (rule updateWhere_ids) (simp add: replayRow_def)
  ultimately show ?thesis
    using assms by (simp add: Replay_def jobs_inv_def split: option.split)
qed

subsection \<open>The protocol as a step relation\<close>

datatype actor = Worker string | Operator

inductive job_step :: "kind \<Rightarrow> actor \<Rightarrow> int \<Rightarrow> job_db \<Rightarrow> job_db \<Rightarrow> bool" for k where
  step_claim: "job_step k (Worker (mg_workerID m)) now db (snd (snd (claim sf f locked lr m k t clock now db)))"
| step_renew: "le_kind l = k \<Longrightarrow> job_step k (Worker (le_workerID l)) now db (snd (renew missed m now l db))"
| step_finish: "le_kind l = k \<Longrightarrow> job_step k (Worker (le_workerID l)) now db (snd (jobTx f (finish clock now l oc) db))"
| step_cancel: "job_step k Operator now db (snd (Cancel fault now i db))"
| step_replay: "job_step k Operator now db (snd (Replay fault now i db))"

inductive_cases job_stepE: "job_step k a now db db'"

definition job_run :: "kind \<Rightarrow> job_db \<Rightarrow> job_db \<Rightarrow> bool" where
  "job_run k = rtranclp (\<lambda>db db'. \<exists>a now. job_step k a now db db')"

lemma job_step_inv:
  assumes "job_step k a now db db'" "jobs_inv k db"
  shows "jobs_inv k db'"
  using assms(1)
proof cases
  case (step_claim m sf f locked lr t clock)
  then show ?thesis using claim_inv [OF assms(2)] by simp
next
  case (step_renew l m)
  then show ?thesis using renew_inv [OF assms(2)] by simp
next
  case (step_finish l f clock oc)
  show ?thesis
  proof (cases "finish clock now l oc db")
    case (Inl e)
    then show ?thesis using assms(2) step_finish by (simp add: jobTx_def)
  next
    case (Inr d)
    then show ?thesis
      using assms(2) finish_inv [OF assms(2) step_finish(3) Inr] step_finish by (simp add: jobTx_def split: option.split)
  qed
next
  case (step_cancel i)
  then show ?thesis using Cancel_inv [OF assms(2)] by simp
next
  case (step_replay i)
  then show ?thesis using Replay_inv [OF assms(2)] by simp
qed

lemma job_run_inv: "job_run k db db' \<Longrightarrow> jobs_inv k db \<Longrightarrow> jobs_inv k db'"
  unfolding job_run_def by (induction rule: rtranclp_induct) (auto dest: job_step_inv)

subsection \<open>Leases held\<close>

definition holds :: "string \<Rightarrow> string \<Rightarrow> int \<Rightarrow> int \<Rightarrow> job \<Rightarrow> bool" where
  "holds i w n u j \<longleftrightarrow> jb_id j = i \<and> jb_status j = RUNNING \<and> jb_leaseOwner j = Some w \<and> jb_attempts j = n
     \<and> jb_leaseUntil j = Some u"

definition held :: "string \<Rightarrow> string \<Rightarrow> int \<Rightarrow> int \<Rightarrow> job_db \<Rightarrow> bool" where
  "held i w n u db \<longleftrightarrow> (\<exists>j \<in> set (jd_jobs db). holds i w n u j)"

lemma held_update:
  assumes "held i w n u db" "jd_jobs db' = updateWhere c f (jd_jobs db)"
    and "\<And>j. j \<in> set (jd_jobs db) \<Longrightarrow> holds i w n u j \<Longrightarrow> c j \<Longrightarrow> holds i w n u (f j)"
  shows "held i w n u db'"
proof -
  obtain j where j: "j \<in> set (jd_jobs db)" "holds i w n u j"
    using assms(1) unfolding held_def by blast
  show ?thesis
  proof (cases "c j")
    case True
    then show ?thesis
      using assms(3) [OF j True] updateWhere_new [OF j(1), of c f] unfolding held_def assms(2) by blast
  next
    case False
    then show ?thesis
      using j updateWhere_keeps [OF j(1), of c f] unfolding held_def assms(2) by blast
  qed
qed

lemma sweepPass_held: "held i w n u db \<Longrightarrow> now < u \<Longrightarrow> held i w n u (sweepPass k now c st msg db)"
  by (rule held_update [where c = "\<lambda>j. c j \<and> sweepableJobPredicate now j" and f = "close st msg now"])
    (auto simp: sweepPass_def Let_def holds_def sweepableJobPredicate_def expired_def)

lemma sweep_held: "held i w n u db \<Longrightarrow> now < u \<Longrightarrow> held i w n u (snd (jobTx sf (sweep locked k now) db))"
  by (simp add: jobTx_def sweep_def Let_def sweepPass_held split: option.split)

lemma sweepIfDue_db:
  "sweepIfDue sf locked m k clock now db = (e, m', db1) \<Longrightarrow>
     mg_workerID m' = mg_workerID m \<and> mg_lease m' = mg_lease m
   \<and> (db1 = db \<or> db1 = snd (jobTx sf (sweep locked k now) db))"
  by (auto simp: sweepIfDue_def split: if_splits prod.splits option.splits)

lemma held_not_candidate: "holds i w n u j \<Longrightarrow> now < u \<Longrightarrow> \<not> claimCandidate k now jobs j"
  by (auto simp: holds_def claimCandidate_def expired_def)

lemma claimTx_held:
  assumes inv: "jobs_inv k db" and "held i w n u db" "now < u"
  shows "held i w n u (snd (claimTx m k t now lr db))"
    "fst (claimTx m k t now lr db) = Some row \<Longrightarrow> jb_id row \<noteq> i"
proof -
  have other: "jb_id j \<noteq> i" if "picked k now lr (jd_jobs db) = Some j" for j
  proof
    assume i: "jb_id j = i"
    obtain r where r: "r \<in> set (jd_jobs db)" "holds i w n u r"
      using assms(2) unfolding held_def by blast
    note p = picked_facts [OF that]
    have "distinct (map jb_id (jd_jobs db))"
      using inv by (simp add: jobs_inv_def)
    then have "r = j"
      using same_id [OF _ r(1) p(1)] r(2) i by (simp add: holds_def)
    then show False
      using held_not_candidate [OF r(2) assms(3)] p(2) by blast
  qed
  show "held i w n u (snd (claimTx m k t now lr db))"
  proof (cases "picked k now lr (jd_jobs db)")
    case None
    then show ?thesis using assms(2) by (simp add: claimTx_def)
  next
    case (Some j)
    show ?thesis
      by (rule held_update [OF assms(2), where c = "\<lambda>r. jb_id r = jb_id j" and f = "grant m t now"])
        (use other [OF Some] in \<open>auto simp: claimTx_def Some Let_def holds_def\<close>)
  qed
  show "jb_id row \<noteq> i" if "fst (claimTx m k t now lr db) = Some row"
    using that other by (auto simp: claimTx_def Let_def grant_def split: option.splits)
qed

lemma claim_split:
  obtains m' db1 where "db1 = db \<or> db1 = snd (jobTx sf (sweep locked k now) db)" "mg_workerID m' = mg_workerID m"
    "snd (snd (claim sf f locked lr m k t clock now db)) = db1
      \<or> snd (snd (claim sf f locked lr m k t clock now db)) = snd (claimTx m' k t now lr db1)"
    "\<forall>l. fst (claim sf f locked lr m k t clock now db) = Ok (Some l) \<longrightarrow>
       (\<exists>row. claimTx m' k t now lr db1 = (Some row, snd (snd (claim sf f locked lr m k t clock now db)))
         \<and> l = leaseOf m' k row)"
proof -
  obtain e m' db1 where s: "sweepIfDue sf locked m k clock now db = (e, m', db1)"
    by (cases "sweepIfDue sf locked m k clock now db") auto
  show ?thesis
    by (rule that [of db1 m'])
      (use sweepIfDue_db [OF s] in \<open>auto simp: claim_def s split: option.splits prod.splits\<close>)
qed

lemma claim_held:
  assumes inv: "jobs_inv k db" and h: "held i w n u db" and now: "now < u"
  shows "held i w n u (snd (snd (claim sf f locked lr m k t clock now db)))"
    "fst (claim sf f locked lr m k t clock now db) = Ok (Some l) \<Longrightarrow> le_id l \<noteq> i"
proof -
  obtain m' db1 where db1: "db1 = db \<or> db1 = snd (jobTx sf (sweep locked k now) db)"
    and "mg_workerID m' = mg_workerID m" and c: "snd (snd (claim sf f locked lr m k t clock now db)) = db1
      \<or> snd (snd (claim sf f locked lr m k t clock now db)) = snd (claimTx m' k t now lr db1)"
    and l: "\<forall>l. fst (claim sf f locked lr m k t clock now db) = Ok (Some l) \<longrightarrow>
       (\<exists>row. claimTx m' k t now lr db1 = (Some row, snd (snd (claim sf f locked lr m k t clock now db)))
         \<and> l = leaseOf m' k row)"
    by (rule claim_split [of db sf locked k now m f lr t clock]) (rule that; assumption)
  have db1: "jobs_inv k db1" "held i w n u db1"
    using db1 inv h now by (auto intro: sweep_inv sweep_held)
  show "held i w n u (snd (snd (claim sf f locked lr m k t clock now db)))"
    using c
  proof
    assume "snd (snd (claim sf f locked lr m k t clock now db)) = db1"
    then show ?thesis using db1(2) by simp
  next
    assume "snd (snd (claim sf f locked lr m k t clock now db)) = snd (claimTx m' k t now lr db1)"
    then show ?thesis using claimTx_held(1) [OF db1 now, of m' t lr] by simp
  qed
  show "le_id l \<noteq> i" if "fst (claim sf f locked lr m k t clock now db) = Ok (Some l)"
    using l that claimTx_held(2) [OF db1 now, of m' t lr] by (auto simp: leaseOf_def)
qed

lemma job_step_held:
  assumes "job_step k a now db db'" and inv: "jobs_inv k db" and h: "held i w n u db"
    and a: "a \<noteq> Worker w" and now: "now < u"
  shows "held i w n u db'"
  using assms(1)
proof cases
  case (step_claim m sf f locked lr t clock)
  then show ?thesis using claim_held(1) [OF inv h now] by simp
next
  case (step_renew l missed m)
  show ?thesis
    by (rule held_update [OF h, where c = "leased l" and f = "renewRow m now"])
      (use a in \<open>auto simp: step_renew(1,2) renew_def Let_def leased_def holds_def\<close>)
next
  case (step_finish l f clock oc)
  show ?thesis
  proof (cases "finish clock now l oc db")
    case (Inl e)
    then show ?thesis using h by (simp add: step_finish(2) jobTx_def)
  next
    case (Inr d)
    obtain s m msg rq where "jd_jobs d = updateWhere (leased l) (finishRow s m msg rq oc now) (jd_jobs db)"
      by (rule finish_facts [OF Inr]) (rule that, simp)
    then have "held i w n u d"
      by (rule held_update [OF h]) (use a in \<open>auto simp: step_finish(1) leased_def holds_def\<close>)
    then show ?thesis using h Inr by (simp add: step_finish(2) jobTx_def split: option.split)
  qed
next
  case (step_cancel fault j)
  have "held i w n u (db\<lparr>jd_jobs := updateWhere (cancellable j) (cancelRow now) (jd_jobs db)\<rparr>)"
    by (rule held_update [OF h, where c = "cancellable j" and f = "cancelRow now"])
      (auto simp: holds_def cancelRow_def)
  then show ?thesis using h by (simp add: step_cancel(2) Cancel_def split: option.split)
next
  case (step_replay fault j)
  have "held i w n u (db\<lparr>jd_jobs := updateWhere (replayable j) (replayRow now) (jd_jobs db)\<rparr>)"
    by (rule held_update [OF h, where c = "replayable j" and f = "replayRow now"])
      (auto simp: holds_def replayable_def)
  then show ?thesis using h by (simp add: step_replay(2) Replay_def split: option.split)
qed

subsection \<open>Fencing\<close>

lemma sweepPass_rows:
  "x \<in> set (jd_jobs (sweepPass k now c st msg db)) \<Longrightarrow> x \<in> set (jd_jobs db) \<or> jb_status x = st"
  by (auto simp: sweepPass_def Let_def updateWhere_mem close_def)

lemma sweep_rows:
  assumes "x \<in> set (jd_jobs (snd (jobTx sf (sweep locked k now) db)))"
  shows "x \<in> set (jd_jobs db) \<or> jb_status x = CANCELLED \<or> jb_status x = DEAD_LETTER"
  using assms by (auto simp: jobTx_def sweep_def Let_def dest!: sweepPass_rows split: option.splits if_splits)

lemma unleased:
  assumes "filter (leased l) (jd_jobs db) = []"
  shows "jobTx f (finish clock now l oc) db = (Some ErrLeaseLost, db)"
    and "renew missed m now l db = (Err ErrLeaseLost, db)" and "leaseState l db = Err ErrLeaseLost"
proof -
  have "updateWhere (leased l) (renewRow m now) (jd_jobs db) = jd_jobs db"
    using assms by (auto simp: updateWhere_def filter_empty_conv intro: map_idI)
  then show "renew missed m now l db = (Err ErrLeaseLost, db)"
    by (simp add: renew_def assms)
qed (simp_all add: jobTx_def finish_def leaseState_def assms)

lemma claimTx_facts:
  assumes "claimTx m k t now lr db = (Some row, db')"
  obtains j where "picked k now lr (jd_jobs db) = Some j" "row = grant m t now j"
    "jd_jobs db' = updateWhere (\<lambda>r. jb_id r = jb_id j) (grant m t now) (jd_jobs db)"
proof (cases "picked k now lr (jd_jobs db)")
  case None
  then show ?thesis using assms by (simp add: claimTx_def)
next
  case (Some j)
  show ?thesis
    by (rule that [OF Some]) (use assms in \<open>auto simp: claimTx_def Some Let_def\<close>)
qed

lemma claimTx_fences:
  assumes inv: "jobs_inv k db" and tx: "claimTx m k t now lr db = (Some row, db')"
    and r: "\<And>j. j \<in> set (jd_jobs db) \<Longrightarrow> jb_id j = le_id l \<Longrightarrow> jb_status j = PENDING \<or> jb_status j = RUNNING \<Longrightarrow>
          jb_attempts j = le_attempt l"
    and i: "jb_id row = le_id l"
  shows "jb_attempts row = le_attempt l + 1" "filter (leased l) (jd_jobs db') = []"
proof -
  obtain j where j: "picked k now lr (jd_jobs db) = Some j" "row = grant m t now j"
    "jd_jobs db' = updateWhere (\<lambda>r. jb_id r = jb_id j) (grant m t now) (jd_jobs db)"
    using claimTx_facts [OF tx] by blast
  note p = picked_facts [OF j(1)]
  have d: "distinct (map jb_id (jd_jobs db))"
    using inv by (simp add: jobs_inv_def)
  have ij: "jb_id j = le_id l"
    using i by (simp add: j(2) grant_def)
  have "jb_status j = PENDING \<or> jb_status j = RUNNING"
    using p(2) by (auto simp: claimCandidate_def)
  then have a: "jb_attempts j = le_attempt l"
    by (rule r [OF p(1) ij])
  then show "jb_attempts row = le_attempt l + 1"
    by (simp add: j(2) grant_def)
  have "\<not> leased l x" if mem: "x \<in> set (jd_jobs db')" for x
  proof
    assume x: "leased l x"
    obtain y where y: "y \<in> set (jd_jobs db)" "x = (if jb_id y = jb_id j then grant m t now y else y)"
      using mem unfolding j(3) updateWhere_mem by blast
    then have "jb_id y = jb_id j"
      using x ij by (auto simp: leased_def split: if_splits)
    then have "y = j"
      using same_id [OF d y(1) p(1)] by blast
    then show False
      using x y(2) a by (simp add: leased_def grant_def)
  qed
  then show "filter (leased l) (jd_jobs db') = []"
    by (simp add: filter_empty_conv)
qed

lemma claim_fences:
  assumes inv: "jobs_inv k db" and r: "r \<in> set (jd_jobs db)" "leased l r"
    and c: "claim sf f locked lr m k t clock now db = (Ok (Some l'), m', db')" and i: "le_id l' = le_id l"
  shows "le_attempt l' = le_attempt l + 1" "filter (leased l) (jd_jobs db') = []"
proof -
  obtain m1 db1 where db1: "db1 = db \<or> db1 = snd (jobTx sf (sweep locked k now) db)"
    and "mg_workerID m1 = mg_workerID m" and "snd (snd (claim sf f locked lr m k t clock now db)) = db1
      \<or> snd (snd (claim sf f locked lr m k t clock now db)) = snd (claimTx m1 k t now lr db1)"
    and l: "\<forall>l. fst (claim sf f locked lr m k t clock now db) = Ok (Some l) \<longrightarrow>
       (\<exists>row. claimTx m1 k t now lr db1 = (Some row, snd (snd (claim sf f locked lr m k t clock now db)))
         \<and> l = leaseOf m1 k row)"
    by (rule claim_split [of db sf locked k now m f lr t clock]) (rule that; assumption)
  obtain row where tx: "claimTx m1 k t now lr db1 = (Some row, db')" and l': "l' = leaseOf m1 k row"
    using l by (auto simp: c)
  have inv1: "jobs_inv k db1"
    using db1 inv by (auto intro: sweep_inv)
  have rows: "jb_attempts j = le_attempt l"
    if "j \<in> set (jd_jobs db1)" "jb_id j = le_id l" "jb_status j = PENDING \<or> jb_status j = RUNNING" for j
  proof -
    have "j \<in> set (jd_jobs db)"
      using db1 that(1,3) sweep_rows by fastforce
    then have "j = r"
      using same_id [OF _ _ r(1)] inv r(2) that(2) by (auto simp: jobs_inv_def leased_def)
    then show ?thesis using r(2) by (simp add: leased_def)
  qed
  have "jb_id row = le_id l"
    using i by (simp add: l' leaseOf_def)
  note f = claimTx_fences [OF inv1 tx rows this]
  show "le_attempt l' = le_attempt l + 1" "filter (leased l) (jd_jobs db') = []"
    using f by (simp_all add: l' leaseOf_def)
qed

subsection \<open>One run of a worker\<close>

lemma claim_kind:
  assumes "claim sf f locked lr m k t clock now db = (Ok (Some l), m', db')"
  shows "le_kind l = k" "le_workerID l = mg_workerID m"
  using assms sweepIfDue_db
  by (auto simp: claim_def leaseOf_def split: prod.splits option.splits)

lemma job_run_step: "job_run k db d \<Longrightarrow> job_step k a now d db' \<Longrightarrow> job_run k db db'"
  unfolding job_run_def by (auto intro: rtranclp.rtrancl_into_rtrancl)

lemma job_run_refl: "job_run k db db"
  by (simp add: job_run_def)

lemma job_run_trans: "job_run k a b \<Longrightarrow> job_run k b c \<Longrightarrow> job_run k a c"
  unfolding job_run_def by (rule rtranclp_trans)

subsection \<open>Retry delays\<close>

lemma backoffDelay_range: "second \<le> backoffDelay n" "backoffDelay n \<le> maxBackoff"
proof -
  have "(2::int) ^ nat (if n < 0 then 0 else n) \<le> 2 ^ 8" if "n < 9"
    by (rule power_increasing) (use that in auto)
  then show "second \<le> backoffDelay n" "backoffDelay n \<le> maxBackoff"
    by (auto simp: backoffDelay_def Let_def second_def maxBackoff_def split: if_splits)
qed

lemma jitter_range:
  assumes "0 < d" "d \<le> 76000000000000000" "80 \<le> f" "f \<le> 120"
  shows "80 * d div 100 \<le> quot (wrap64 (d * f)) 100" "quot (wrap64 (d * f)) 100 \<le> 120 * d div 100"
proof -
  have b: "80 * d \<le> d * f" "d * f \<le> 120 * d"
    using assms by (simp_all add: mult.commute mult_left_mono)
  then have "d * f < 9223372036854775808" "0 \<le> d * f"
    using assms(1,2) by linarith+
  then have "quot (wrap64 (d * f)) 100 = d * f div 100"
    by (simp add: wrap64_id quot_def)
  then show "80 * d div 100 \<le> quot (wrap64 (d * f)) 100" "quot (wrap64 (d * f)) 100 \<le> 120 * d div 100"
    using zdiv_mono1 [OF b(1), of 100] zdiv_mono1 [OF b(2), of 100] by simp_all
qed

subsection \<open>Properties\<close>

definition sample_job :: job where
  "sample_job = \<lparr>jb_id = ''job'', jb_site = ''site'', jb_version = 1, jb_status = PENDING, jb_attempts = 0,
     jb_maxAttempts = 3, jb_nextAttemptAt = 0, jb_leaseOwner = None, jb_leaseUntil = None, jb_heartbeatAt = None,
     jb_cancelRequestedAt = None, jb_timeoutAt = None, jb_result = None, jb_compensation = None, jb_error = None,
     jb_createdAt = 0, jb_updatedAt = 0\<rparr>"

definition sample_manager :: "string \<Rightarrow> Manager" where
  "sample_manager w = \<lparr>mg_workerID = w, mg_lease = 60, mg_nextSweep = (\<lambda>_. 0)\<rparr>"

definition sample_claim :: "string \<Rightarrow> int \<Rightarrow> job_db \<Rightarrow> (job_error + Lease option) \<times> Manager \<times> job_db" where
  "sample_claim w now db = claim None None True (\<lambda>_. False) (sample_manager w) Publish 0 now now db"

definition sample_db :: job_db where
  "sample_db = \<lparr>jd_jobs = [sample_job], jd_executions = []\<rparr>"

lemmas sample_defs = sample_job_def sample_manager_def sample_claim_def sample_db_def claim_def sweepIfDue_def
  sweep_def sweepPass_def jobTx_def updateWhere_def claimTx_def picked_def claimCandidate_def siteOrder_def
  sweepableJobPredicate_def timedOut_def expired_def grant_def leaseOf_def coalesce_def Let_def

definition sample_leased :: job_db where
  "sample_leased = \<lparr>jd_jobs = [sample_job\<lparr>jb_status := RUNNING, jb_attempts := 1, jb_leaseOwner := Some ''w1'',
       jb_leaseUntil := Some 70, jb_heartbeatAt := Some 10, jb_updatedAt := 10\<rparr>],
     jd_executions = [\<lparr>ex_kind = Publish, ex_job = ''job'', ex_attempt = 1, ex_worker = ''w1'', ex_status = RUNNING,
       ex_startedAt = 10, ex_heartbeatAt = 10, ex_finishedAt = None, ex_result = None, ex_error = None\<rparr>]\<rparr>"

definition sample_lease :: Lease where
  "sample_lease = \<lparr>le_kind = Publish, le_id = ''job'', le_workerID = ''w1'', le_attempt = 1, le_maxAttempts = 3,
     le_timeoutAt = None, le_leaseUntil = 70\<rparr>"

lemma sample_db_inv: "jobs_inv Publish sample_db"
  by (simp add: jobs_inv_def sample_db_def sample_job_def job_ok_def executions_ok_def)

lemma sample_leased_inv: "jobs_inv Publish sample_leased"
  by (simp add: jobs_inv_def sample_leased_def sample_job_def job_ok_def executions_ok_def backs_def)

lemma sample_first_claim: "sample_claim ''w1'' 10 sample_db
    = (Ok (Some sample_lease), (sample_manager ''w1'')\<lparr>mg_nextSweep := (\<lambda>_. 0)(Publish := 10 + sweepEvery)\<rparr>, sample_leased)"
  by (simp add: sample_defs sample_leased_def sample_lease_def)

text \<open>
  Property C11: whatever the workers and the operators of a job table do - claims with
  their sweeps, heartbeats, finished, cancelled and replayed jobs, in any order and with
  any faults of the database - the table stays well formed: the attempts of every job stay
  between zero and its maximum, a job has a lease owner and a lease end exactly while it
  is running, and every execution that is recorded as running belongs to a running job
  whose current attempt and owner it carries.
\<close>

theorem job_queue_invariant:
  assumes "jobs_inv k db" and "job_run k db db'"
  shows "jobs_inv k db'"
  using job_run_inv [OF assms(2,1)] .

theorem job_queue_invariant_witness:
  "jobs_inv Publish (snd (Cancel None 20 ''job'' sample_leased))
   \<and> map jb_status (jd_jobs (snd (Cancel None 20 ''job'' sample_leased))) = [RUNNING]"
proof -
  have "job_step Publish (Worker ''w1'') 10 sample_db sample_leased"
    using step_claim [of Publish "sample_manager ''w1''" 10 sample_db None None True "\<lambda>_. False" 0 10]
      sample_first_claim by (simp add: sample_claim_def sample_manager_def)
  then have "job_run Publish sample_db (snd (Cancel None 20 ''job'' sample_leased))"
    by (rule job_run_step [OF job_run_step [OF job_run_refl] step_cancel])
  from job_queue_invariant [OF sample_db_inv this] show ?thesis
    by (simp add: Cancel_def cancelRow_def sample_leased_def sample_job_def updateWhere_def cancellable_def)
qed

text \<open>
  Property C2: a lease is exclusive until it ends. While a worker holds a job at an
  attempt until time \<open>u\<close>, no sequence of steps of other workers and of operators at times
  before \<open>u\<close> takes it away or changes its end, and no claim at such a time returns a lease of
  that job.
\<close>

theorem lease_exclusive:
  assumes "jobs_inv k db" and "held i w n u db"
    and "rtranclp (\<lambda>d d'. \<exists>a now. a \<noteq> Worker w \<and> now < u \<and> job_step k a now d d') db db'"
  shows "held i w n u db'
    \<and> (now < u \<longrightarrow> fst (claim sf f locked lr m k t clock now db') = Ok (Some l) \<longrightarrow> le_id l \<noteq> i)"
proof -
  have "jobs_inv k db' \<and> held i w n u db'"
    using assms(3)
  proof (induction rule: rtranclp_induct)
    case base
    show ?case using assms(1,2) by blast
  next
    case (step d d')
    then obtain a now where "job_step k a now d d'" "a \<noteq> Worker w" "now < u"
      by blast
    then show ?case
      using step.IH job_step_inv [of k a now d d'] job_step_held [of k a now d d'] by blast
  qed
  then show ?thesis
    using claim_held(2) [of k db' i w n u now sf f locked lr m t clock l] by blast
qed

theorem lease_exclusive_witness:
  "held ''job'' ''w1'' 1 70 (snd (Cancel None 20 ''job'' sample_leased))
   \<and> fst (claim None None True (\<lambda>_. False) (sample_manager ''w2'') Publish 0 60 60 (snd (Cancel None 20 ''job'' sample_leased)))
       \<noteq> Ok (Some sample_lease)"
proof -
  have h: "held ''job'' ''w1'' 1 70 sample_leased"
    by (simp add: held_def holds_def sample_leased_def sample_job_def)
  have "Operator \<noteq> Worker ''w1'' \<and> (20::int) < 70 \<and> job_step Publish Operator 20 sample_leased (snd (Cancel None 20 ''job'' sample_leased))"
    by (simp add: step_cancel)
  then have "rtranclp (\<lambda>d d'. \<exists>a now. a \<noteq> Worker ''w1'' \<and> now < 70 \<and> job_step Publish a now d d')
      sample_leased (snd (Cancel None 20 ''job'' sample_leased))"
    by blast
  from lease_exclusive [OF sample_leased_inv h this, of 60 None None True "\<lambda>_. False" "sample_manager ''w2''" 0 60 sample_lease]
  show ?thesis
    by (auto simp: sample_lease_def)
qed


lemma sample_second_claim:
  "\<exists>m' db'. sample_claim ''w2'' 70 sample_leased
     = (Ok (Some (sample_lease\<lparr>le_workerID := ''w2'', le_attempt := 2, le_leaseUntil := 130\<rparr>)), m', db')"
  by (simp add: sample_defs sample_leased_def sample_lease_def)



definition sample_run :: "(bool \<times> job_error option) \<times> Manager \<times> job_db" where
  "sample_run = RunOne None None True (\<lambda>_. False) (sample_manager ''w1'') Publish 0 10 10 (\<lambda>_. Inl ''nil map'')
     (\<lambda>d. snd (Cancel None 20 ''job'' d)) False None None 30 30 sample_db"

lemma sample_run_result: "map jb_status (jd_jobs (snd (snd sample_run))) = [CANCELLED]"
  using sample_first_claim
  by (simp add: sample_run_def sample_claim_def RunOne_def sample_leased_def sample_job_def sample_lease_def Cancel_def
      cancelRow_def updateWhere_def cancellable_def invokeHandler_def jobTx_def finish_def leased_def outcomeDecision_def affected_def
      finishRow_def Let_def)


text \<open>
  Property C37: the delay before a retry stays in its bounds. Without a delay of the handler's
  own it is between 0.8 seconds and five minutes, for every attempt; a handler's own delay
  \<open>d\<close> of up to 880 days is kept within twenty percent, so that the multiplication of the jitter
  never wraps around.
\<close>

theorem retry_delay_bounds:
  "(d \<le> 0 \<longrightarrow> 800000000 \<le> retryDelay l d \<and> retryDelay l d \<le> maxBackoff)
   \<and> (0 < d \<and> d \<le> 76000000000000000 \<longrightarrow> 80 * d div 100 \<le> retryDelay l d \<and> retryDelay l d \<le> max d (120 * d div 100))"
proof -
  have f: "80 \<le> int (80 + unat h mod 41)" "int (80 + unat h mod 41) \<le> 120" for h :: "32 word"
  proof -
    have "unat h mod 41 < 41" by simp
    then show "80 \<le> int (80 + unat h mod 41)" "int (80 + unat h mod 41) \<le> 120" by linarith+
  qed
  show ?thesis
  proof (intro conjI impI)
    define b where "b = backoffDelay (le_attempt l)"
    have b: "0 < b" "b \<le> 76000000000000000" "1000000000 \<le> b" "b \<le> maxBackoff"
      using backoffDelay_range [of "le_attempt l"] by (auto simp: b_def second_def maxBackoff_def)
    assume d: "d \<le> 0"
    have "800000000 \<le> 80 * b div 100"
      using b(3) by linarith
    then show "800000000 \<le> retryDelay l d"
      using order_trans [OF _ jitter_range(1) [OF b(1,2) f], of 800000000] b(3) d
      unfolding retryDelay_def b_def [symmetric] Let_def by (simp add: maxBackoff_def second_def)
    show "retryDelay l d \<le> maxBackoff"
      using b(4) d by (auto simp: retryDelay_def b_def Let_def)
  next
    assume d: "0 < d \<and> d \<le> 76000000000000000"
    show "80 * d div 100 \<le> retryDelay l d" "retryDelay l d \<le> max d (120 * d div 100)"
      using jitter_range [OF _ _ f, of d] d by (auto simp: retryDelay_def Let_def le_max_iff_disj)
  qed
qed

theorem retry_delay_bounds_witness: "800000000 \<le> retryDelay sample_lease 0 \<and> retryDelay sample_lease 0 \<le> maxBackoff"
  using retry_delay_bounds [of 0 sample_lease] by simp

end
