(* ===== verification/Object_Format.thy ===== *)
theory Object_Format
  imports Prelude
begin

section \<open>Cache objects on disk\<close>

text \<open>
  \<open>caddy/simplefs/format.go\<close>: the file format of the cache store. An object is a header,
  a table with one entry per chunk and the chunks, each stored raw or compressed with
  LZ4 and protected by a CRC-32C checksum. The LZ4 block functions are a parameter whose
  documented behaviour is \<open>lz4_ok\<close>; the checksum of \<open>hash/crc32\<close> is written out. A file
  that is read is an \<open>io.ReaderAt\<close>, so a function from a count and an offset to the bytes
  read and the error; \<open>osFile\<close> and \<open>bytesReader\<close> are the two the code uses. A buffer of a
  pool is a list with arbitrary contents, and the slice \<open>r.data\<close> is a prefix of it. A failed
  file-system call of the writer removes the temporary file, so only the error is left.
\<close>

unbundle bit_operations_syntax

datatype object_error = ObjectIO | ObjectTooLarge | ObjectUnexpectedEOF | CompressFailed | ExceedsDeclaredLength
  | UnsupportedFormat | InvalidChunkCount | TableExceedsFile | InvalidChunkTable | InvalidRawChunk
  | InvalidCompressedChunk | LengthsMismatch | ObjectEOF | CorruptCompressedChunk | ChecksumMismatch
  | InvalidSeekOrigin | SeekOutOfBounds | ObjectPanic | ObjectOutOfFuel

definition objectMagic :: bytes where
  "objectMagic = [71, 86, 67, 79, 66, 74, 48, 49]"

definition objectVersion :: nat where
  "objectVersion = 1"

definition objectChunkSize :: nat where
  "objectChunkSize = 65536"

definition legacyChunkSize :: nat where
  "legacyChunkSize = 262144"

definition objectHeaderSize :: nat where
  "objectHeaderSize = 28"

definition objectEntrySize :: nat where
  "objectEntrySize = 24"

definition codecRaw :: byte where
  "codecRaw = 0"

definition codecLZ4 :: byte where
  "codecLZ4 = 1"

lemmas object_sizes = objectVersion_def objectChunkSize_def legacyChunkSize_def objectHeaderSize_def objectEntrySize_def

subsection \<open>The checksum\<close>

definition crcShift :: "32 word \<Rightarrow> 32 word" where
  "crcShift c = (if c AND 1 = 1 then drop_bit 1 c XOR 0x82F63B78 else drop_bit 1 c)"

definition crcTable :: "byte \<Rightarrow> 32 word" where
  "crcTable i = (crcShift ^^ 8) (ucast i)"

definition crc32c :: "bytes \<Rightarrow> 32 word" where
  "crc32c bs = NOT (foldl (\<lambda>crc v. crcTable (ucast crc XOR v) XOR drop_bit 8 crc) (NOT 0) bs)"

subsection \<open>Parameters\<close>

record lz4 =
  lz_compress :: "bytes \<Rightarrow> object_error + bytes"
  lz_bound :: "nat \<Rightarrow> nat"
  lz_uncompress :: "bytes \<Rightarrow> bytes \<Rightarrow> bytes \<times> nat option"

definition lz4_ok :: "lz4 \<Rightarrow> bool" where
  "lz4_ok L \<longleftrightarrow>
     (\<forall>raw c. lz_compress L raw = Ok c \<longrightarrow> c \<noteq> [] \<longrightarrow> length c \<le> lz_bound L (length raw)
        \<and> (\<forall>dst. length dst = length raw \<longrightarrow> lz_uncompress L c dst = (raw, Some (length raw))))
   \<and> (\<forall>m n. m \<le> n \<longrightarrow> lz_bound L m \<le> lz_bound L n)
   \<and> (\<forall>stored dst. length (fst (lz_uncompress L stored dst)) = length dst)"

type_synonym readerAt = "nat \<Rightarrow> nat \<Rightarrow> bytes \<times> object_error option"

definition osFile :: "bytes \<Rightarrow> readerAt" where
  "osFile file n off =
     (let got = take n (drop off file) in (got, if length got < n then Some ObjectEOF else None))"

definition bytesReader :: "bytes \<Rightarrow> readerAt" where
  "bytesReader file n off = (if off \<ge> length file then ([], Some ObjectEOF) else osFile file n off)"

subsection \<open>Writing\<close>

record objectChunk =
  oc_codec :: byte
  oc_offset :: nat
  oc_stored :: nat
  oc_raw :: nat
  oc_crc :: "32 word"

definition storeChunk :: "lz4 \<Rightarrow> bool \<Rightarrow> bytes \<Rightarrow> object_error + (byte \<times> bytes)" where
  "storeChunk L large raw =
     (if \<not> large then Ok (codecRaw, raw)
      else (case lz_compress L raw of
              Inl e \<Rightarrow> Err e
            | Inr compressed \<Rightarrow>
                if length compressed > 0 \<and> length compressed * 8 \<le> length raw * 7
                then Ok (codecLZ4, compressed) else Ok (codecRaw, raw)))"

fun writeChunks :: "lz4 \<Rightarrow> bool \<Rightarrow> nat \<Rightarrow> nat \<Rightarrow> nat \<Rightarrow> bytes \<Rightarrow> object_error + (objectChunk list \<times> bytes \<times> bytes)" where
  "writeChunks L large 0 remaining offset src = Ok ([], [], src)"
| "writeChunks L large (Suc count) remaining offset src =
     (let rawSize = min remaining objectChunkSize
      in if length src < rawSize then Err ObjectUnexpectedEOF
         else let raw = take rawSize src
              in case storeChunk L large raw of
                   Inl e \<Rightarrow> Err e
                 | Inr (codec, stored) \<Rightarrow>
                     (case writeChunks L large count (remaining - rawSize) (u64 (offset + length stored)) (drop rawSize src) of
                        Inl e \<Rightarrow> Err e
                      | Inr (chunks, written, rest) \<Rightarrow>
                          Ok (\<lparr>oc_codec = codec, oc_offset = offset, oc_stored = length stored, oc_raw = length raw,
                               oc_crc = crc32c raw\<rparr> # chunks, stored @ written, rest)))"

definition objectEntry :: "objectChunk \<Rightarrow> bytes" where
  "objectEntry c =
     [oc_codec c, 0, 0, 0] @ be_encode 8 (oc_offset c) @ be_encode 4 (oc_stored c) @ be_encode 4 (oc_raw c)
     @ be_encode 4 (unat (oc_crc c))"

definition objectHeader :: "nat \<Rightarrow> objectChunk list \<Rightarrow> bytes" where
  "objectHeader logicalSize chunks =
     objectMagic @ be_encode 2 objectVersion @ [0, 0] @ be_encode 4 objectChunkSize @ be_encode 8 logicalSize
     @ be_encode 4 (length chunks) @ concat (map objectEntry chunks)"

definition writeObjectReader :: "lz4 \<Rightarrow> object_error option \<Rightarrow> bytes \<Rightarrow> nat \<Rightarrow> object_error + bytes" where
  "writeObjectReader L fault src logicalSize =
     (case fault of
        Some e \<Rightarrow> Err e
      | None \<Rightarrow>
          if logicalSize > 2 ^ 63 - 1 then Err ObjectTooLarge
          else let count = u64 (logicalSize + objectChunkSize - 1) div objectChunkSize
               in case writeChunks L (logicalSize > objectChunkSize) count logicalSize
                         (objectHeaderSize + count * objectEntrySize) src of
                    Inl e \<Rightarrow> Err e
                  | Inr (chunks, written, rest) \<Rightarrow>
                      if rest \<noteq> [] then Err ExceedsDeclaredLength
                      else Ok (objectHeader logicalSize chunks @ written))"

definition writeObject :: "lz4 \<Rightarrow> object_error option \<Rightarrow> bytes \<Rightarrow> object_error + bytes" where
  "writeObject L fault v = writeObjectReader L fault v (length v)"

subsection \<open>Reading the layout\<close>

record objectLayout =
  ol_chunks :: "objectChunk list"
  ol_length :: nat
  ol_chunkSize :: nat

definition readEntry :: "bytes \<Rightarrow> objectChunk" where
  "readEntry entry =
     \<lparr>oc_codec = entry ! 0, oc_offset = be_decode (slice entry 4 12), oc_stored = be_decode (slice entry 12 16),
      oc_raw = be_decode (slice entry 16 20), oc_crc = of_nat (be_decode (slice entry 20 24))\<rparr>"

definition checkEntry :: "lz4 \<Rightarrow> nat \<Rightarrow> nat \<Rightarrow> nat \<Rightarrow> nat \<Rightarrow> objectChunk \<Rightarrow> object_error option" where
  "checkEntry L chunkSize encodedSize expectedRaw expectedOffset chunk =
     (if (oc_codec chunk \<noteq> codecRaw \<and> oc_codec chunk \<noteq> codecLZ4) \<or> oc_offset chunk \<noteq> expectedOffset
         \<or> oc_raw chunk \<noteq> expectedRaw \<or> oc_stored chunk > encodedSize - expectedOffset
      then Some InvalidChunkTable
      else if oc_codec chunk = codecRaw \<and> oc_stored chunk \<noteq> oc_raw chunk then Some InvalidRawChunk
      else if oc_codec chunk = codecLZ4 \<and> (oc_stored chunk = 0 \<or> oc_stored chunk > lz_bound L chunkSize)
      then Some InvalidCompressedChunk
      else None)"

fun readTable :: "lz4 \<Rightarrow> nat \<Rightarrow> nat \<Rightarrow> nat \<Rightarrow> nat \<Rightarrow> bytes \<Rightarrow> nat \<Rightarrow> nat
    \<Rightarrow> object_error + (objectChunk list \<times> nat \<times> nat)" where
  "readTable L chunkSize encodedSize len 0 table expectedOffset rawTotal = Ok ([], expectedOffset, rawTotal)"
| "readTable L chunkSize encodedSize len (Suc count) table expectedOffset rawTotal =
     (let chunk = readEntry table
      in case checkEntry L chunkSize encodedSize (min chunkSize (len - rawTotal)) expectedOffset chunk of
           Some e \<Rightarrow> Err e
         | None \<Rightarrow>
             (case readTable L chunkSize encodedSize len count (drop objectEntrySize table)
                     (u64 (expectedOffset + oc_stored chunk)) (u64 (rawTotal + oc_raw chunk)) of
                Inl e \<Rightarrow> Err e
              | Inr (chunks, off, tot) \<Rightarrow> Ok (chunk # chunks, off, tot)))"

definition expectedChunks :: "nat \<Rightarrow> nat \<Rightarrow> nat" where
  "expectedChunks len chunkSize = (if len > 0 then (len - 1) div chunkSize + 1 else 0)"

definition readObjectLayout :: "lz4 \<Rightarrow> readerAt \<Rightarrow> nat \<Rightarrow> object_error + objectLayout" where
  "readObjectLayout L src encodedSize =
     (case src objectHeaderSize 0 of
        (_, Some e) \<Rightarrow> Err e
      | (header, None) \<Rightarrow>
          let chunkSize = be_decode (slice header 12 16)
          in if slice header 0 8 \<noteq> objectMagic \<or> be_decode (slice header 8 10) \<noteq> objectVersion
                \<or> (chunkSize \<noteq> objectChunkSize \<and> chunkSize \<noteq> legacyChunkSize)
             then Err UnsupportedFormat
             else
               let len = be_decode (slice header 16 24);
                   count = be_decode (slice header 24 28);
                   expectedCount = expectedChunks len chunkSize
               in if expectedCount > 2 ^ 32 - 1 \<or> count \<noteq> expectedCount \<or> len > 2 ^ 63 - 1 then Err InvalidChunkCount
                  else
                    let tableBytes = count * objectEntrySize
                    in if tableBytes > encodedSize \<or> objectHeaderSize + tableBytes > encodedSize
                       then Err TableExceedsFile
                       else (case src tableBytes objectHeaderSize of
                               (_, Some e) \<Rightarrow> Err e
                             | (table, None) \<Rightarrow>
                                 (case readTable L chunkSize encodedSize len count table
                                         (objectHeaderSize + tableBytes) 0 of
                                    Inl e \<Rightarrow> Err e
                                  | Inr (chunks, expectedOffset, rawTotal) \<Rightarrow>
                                      if expectedOffset \<noteq> encodedSize \<or> rawTotal \<noteq> len then Err LengthsMismatch
                                      else Ok \<lparr>ol_chunks = chunks, ol_length = len, ol_chunkSize = chunkSize\<rparr>)))"

subsection \<open>The reader\<close>

record objectReader =
  or_chunks :: "objectChunk list"
  or_length :: nat
  or_chunkSize :: nat
  or_pos :: nat
  or_index :: int
  or_buffer :: "bytes option"
  or_len :: nat

definition newObjectReaderFromLayout :: "objectLayout \<Rightarrow> objectReader" where
  "newObjectReaderFromLayout layout =
     \<lparr>or_chunks = ol_chunks layout, or_length = ol_length layout, or_chunkSize = ol_chunkSize layout, or_pos = 0,
      or_index = -1, or_buffer = None, or_len = 0\<rparr>"

definition newObjectReader :: "lz4 \<Rightarrow> readerAt \<Rightarrow> nat \<Rightarrow> object_error + objectReader" where
  "newObjectReader L src encodedSize =
     (case readObjectLayout L src encodedSize of
        Inl e \<Rightarrow> Err e
      | Inr layout \<Rightarrow> Ok (newObjectReaderFromLayout layout))"

definition acquireChunkBuffer :: "(nat \<Rightarrow> bytes) \<Rightarrow> nat \<Rightarrow> bytes" where
  "acquireChunkBuffer pool sz = (if sz = legacyChunkSize then pool legacyChunkSize else pool objectChunkSize)"

definition encodedCapacity :: "lz4 \<Rightarrow> nat \<Rightarrow> nat" where
  "encodedCapacity L sz = (if sz = legacyChunkSize then lz_bound L legacyChunkSize else lz_bound L objectChunkSize)"

definition readerData :: "objectReader \<Rightarrow> bytes" where
  "readerData r = (case or_buffer r of None \<Rightarrow> [] | Some b \<Rightarrow> take (or_len r) b)"

definition verifyChunk :: "nat \<Rightarrow> objectChunk \<Rightarrow> objectReader \<Rightarrow> object_error option \<times> objectReader" where
  "verifyChunk index chunk r =
     (if crc32c (readerData r) \<noteq> oc_crc chunk then (Some ChecksumMismatch, r)
      else (None, r\<lparr>or_index := int index\<rparr>))"

definition load :: "lz4 \<Rightarrow> (nat \<Rightarrow> bytes) \<Rightarrow> readerAt \<Rightarrow> objectReader \<Rightarrow> nat \<Rightarrow> object_error option \<times> objectReader" where
  "load L pool src r index =
     (if index \<ge> length (or_chunks r) then (Some ObjectPanic, r)
      else
        let chunk = or_chunks r ! index;
            buffer = (case or_buffer r of Some b \<Rightarrow> b | None \<Rightarrow> acquireChunkBuffer pool (or_chunkSize r))
        in if oc_raw chunk > length buffer then (Some ObjectPanic, r\<lparr>or_buffer := Some buffer\<rparr>)
           else if oc_codec chunk = codecRaw then
             (case src (oc_raw chunk) (oc_offset chunk) of
                (got, e) \<Rightarrow>
                  let r = r\<lparr>or_buffer := Some (blit buffer 0 got), or_len := oc_raw chunk\<rparr>
                  in if e \<noteq> None then (e, r) else verifyChunk index chunk r)
           else if oc_stored chunk > encodedCapacity L (or_chunkSize r)
           then (Some ObjectPanic, r\<lparr>or_buffer := Some buffer, or_len := oc_raw chunk\<rparr>)
           else
             (case src (oc_stored chunk) (oc_offset chunk) of
                (_, Some e) \<Rightarrow> (Some e, r\<lparr>or_buffer := Some buffer, or_len := oc_raw chunk\<rparr>)
              | (got, None) \<Rightarrow>
                  (case lz_uncompress L got (take (oc_raw chunk) buffer) of
                     (decoded, n) \<Rightarrow>
                       let r = r\<lparr>or_buffer := Some (blit buffer 0 decoded), or_len := oc_raw chunk\<rparr>
                       in if n \<noteq> Some (oc_raw chunk) then (Some CorruptCompressedChunk, r) else verifyChunk index chunk r)))"

text \<open>
  The loop of \<open>Read\<close> ends only when it copies at least one byte per turn; the fuel given
  is one more than the length of the target.
\<close>

fun readLoop :: "lz4 \<Rightarrow> (nat \<Rightarrow> bytes) \<Rightarrow> readerAt \<Rightarrow> nat \<Rightarrow> objectReader \<Rightarrow> nat \<Rightarrow> bytes
    \<Rightarrow> bytes \<times> object_error option \<times> objectReader" where
  "readLoop L pool src 0 r want out = (out, Some ObjectOutOfFuel, r)"
| "readLoop L pool src (Suc fuel) r want out =
     (if \<not> (want > 0 \<and> or_pos r < or_length r) then (out, None, r)
      else
        let chunkIndex = or_pos r div or_chunkSize r
        in case (if or_index r \<noteq> int chunkIndex then load L pool src r chunkIndex else (None, r)) of
             (Some e, r) \<Rightarrow> (out, Some e, r)
           | (None, r) \<Rightarrow>
               let inside = or_pos r mod or_chunkSize r
               in if inside > length (readerData r) then (out, Some ObjectPanic, r)
                  else let got = take want (drop inside (readerData r))
                       in readLoop L pool src fuel (r\<lparr>or_pos := or_pos r + length got\<rparr>) (want - length got) (out @ got))"

definition Read :: "lz4 \<Rightarrow> (nat \<Rightarrow> bytes) \<Rightarrow> readerAt \<Rightarrow> objectReader \<Rightarrow> nat
    \<Rightarrow> bytes \<times> object_error option \<times> objectReader" where
  "Read L pool src r want =
     (if or_pos r \<ge> or_length r then ([], Some ObjectEOF, r) else readLoop L pool src (Suc want) r want [])"

definition Seek :: "objectReader \<Rightarrow> int \<Rightarrow> int \<Rightarrow> (object_error + int) \<times> objectReader" where
  "Seek r offset whence =
     (let target = (if whence = 0 then Some offset
                    else if whence = 1 then Some (wrap64 (int (or_pos r) + offset))
                    else if whence = 2 then Some (wrap64 (int (or_length r) + offset))
                    else None)
      in case target of
           None \<Rightarrow> (Err InvalidSeekOrigin, r)
         | Some t \<Rightarrow>
             if t < 0 \<or> t > int (or_length r) then (Err SeekOutOfBounds, r)
             else (Ok t, r\<lparr>or_pos := nat t\<rparr>))"

definition release :: "objectReader \<Rightarrow> objectReader" where
  "release r = r\<lparr>or_buffer := None, or_len := 0\<rparr>"

subsection \<open>Accepted layouts\<close>

definition layout_ok :: "lz4 \<Rightarrow> objectLayout \<Rightarrow> bool" where
  "layout_ok L l \<longleftrightarrow> (ol_chunkSize l = objectChunkSize \<or> ol_chunkSize l = legacyChunkSize)
     \<and> length (ol_chunks l) = expectedChunks (ol_length l) (ol_chunkSize l) \<and> ol_length l < 2 ^ 63
     \<and> (\<forall>i < length (ol_chunks l).
          oc_raw (ol_chunks l ! i) = min (ol_chunkSize l) (ol_length l - i * ol_chunkSize l)
        \<and> (oc_codec (ol_chunks l ! i) = codecRaw
           \<or> oc_codec (ol_chunks l ! i) = codecLZ4 \<and> oc_stored (ol_chunks l ! i) \<le> lz_bound L (ol_chunkSize l)))"

lemma checkEntry_None:
  "checkEntry L cs es raw off c = None \<Longrightarrow>
     (oc_codec c = codecRaw \<or> oc_codec c = codecLZ4 \<and> oc_stored c \<le> lz_bound L cs) \<and> oc_raw c = raw"
  by (auto simp: checkEntry_def split: if_splits)

lemma remaining_step: "rt \<le> len \<Longrightarrow> len - (rt + min cs (len - rt) + i * cs) = (len :: nat) - (rt + Suc i * cs)"
  by (cases "cs \<le> len - rt") auto

lemma readTable_facts:
  assumes "readTable L cs es len n table off rt = Ok (chunks, off', rt')" "rt \<le> len" "len < 2 ^ 63"
  shows "length chunks = n \<and> (\<forall>i < n. oc_raw (chunks ! i) = min cs (len - (rt + i * cs))
    \<and> (oc_codec (chunks ! i) = codecRaw
       \<or> oc_codec (chunks ! i) = codecLZ4 \<and> oc_stored (chunks ! i) \<le> lz_bound L cs))"
  using assms
proof (induction n arbitrary: table off rt chunks)
  case 0
  then show ?case by simp
next
  case (Suc n)
  define c where "c = readEntry table"
  obtain cs' where c: "checkEntry L cs es (min cs (len - rt)) off c = None"
    and rest: "readTable L cs es len n (drop objectEntrySize table) (u64 (off + oc_stored c)) (u64 (rt + oc_raw c)) = Ok (cs', off', rt')"
    and chunks: "chunks = c # cs'"
    using Suc.prems(1) by (auto simp: c_def [symmetric] Let_def split: option.splits sum.splits)
  have raw: "oc_raw c = min cs (len - rt)"
    using checkEntry_None [OF c] by blast
  then have u: "u64 (rt + oc_raw c) = rt + min cs (len - rt)" and le: "rt + min cs (len - rt) \<le> len"
    using Suc.prems(2,3) by simp_all
  note IH = Suc.IH [OF rest [unfolded u] le Suc.prems(3), unfolded remaining_step [OF Suc.prems(2)]]
  show ?case
    using IH checkEntry_None [OF c] by (auto simp: chunks nth_Cons raw split: nat.splits)
qed

lemma readObjectLayout_ok:
  assumes "readObjectLayout L src es = Ok l"
  shows "layout_ok L l"
proof -
  obtain header table chunks off where
    cs: "ol_chunkSize l = objectChunkSize \<or> ol_chunkSize l = legacyChunkSize"
    and n: "ol_length l < 2 ^ 63" "l = \<lparr>ol_chunks = chunks, ol_length = ol_length l, ol_chunkSize = ol_chunkSize l\<rparr>"
    and t: "readTable L (ol_chunkSize l) es (ol_length l) (expectedChunks (ol_length l) (ol_chunkSize l)) table
      (objectHeaderSize + expectedChunks (ol_length l) (ol_chunkSize l) * objectEntrySize) 0 = Ok (chunks, off, ol_length l)"
    using assms unfolding readObjectLayout_def Let_def
    by (auto simp del: readTable.simps split: prod.splits option.splits sum.splits if_splits)
  show ?thesis
    using readTable_facts [OF t _ n(1)] cs n(1) by (subst n(2)) (auto simp: layout_ok_def)
qed

subsection \<open>Readers of accepted layouts\<close>

text \<open>
  \<open>reader_ok D l r\<close>: the reader \<open>r\<close> belongs to the layout \<open>l\<close> and holds, if any chunk, the data
  that \<open>D\<close> allows for its index.
\<close>

definition fatal :: "object_error option \<Rightarrow> bool" where
  "fatal e \<longleftrightarrow> e = Some ObjectPanic \<or> e = Some ObjectOutOfFuel"

definition readerAt_ok :: "readerAt \<Rightarrow> bool" where
  "readerAt_ok src \<longleftrightarrow> (\<forall>n off. length (fst (src n off)) \<le> n \<and> \<not> fatal (snd (src n off))
     \<and> (snd (src n off) = None \<longrightarrow> length (fst (src n off)) = n))"

definition pool_ok :: "(nat \<Rightarrow> bytes) \<Rightarrow> bool" where
  "pool_ok pool \<longleftrightarrow> length (pool objectChunkSize) = objectChunkSize \<and> length (pool legacyChunkSize) = legacyChunkSize"

definition reader_ok :: "(nat \<Rightarrow> bytes \<Rightarrow> bool) \<Rightarrow> objectLayout \<Rightarrow> objectReader \<Rightarrow> bool" where
  "reader_ok D l r \<longleftrightarrow> or_chunks r = ol_chunks l \<and> or_length r = ol_length l \<and> or_chunkSize r = ol_chunkSize l
     \<and> or_pos r \<le> ol_length l
     \<and> (case or_buffer r of
          None \<Rightarrow> or_index r = -1
        | Some b \<Rightarrow> length b = ol_chunkSize l
            \<and> (or_index r = -1 \<or> (\<exists>i < length (ol_chunks l). or_index r = int i
                 \<and> length (readerData r) = oc_raw (ol_chunks l ! i) \<and> D i (readerData r))))"

lemma reader_ok_new: "reader_ok D l (newObjectReaderFromLayout l)"
  by (simp add: reader_ok_def newObjectReaderFromLayout_def)

lemma readerData_pos [simp]: "readerData (r\<lparr>or_pos := p\<rparr>) = readerData r"
  by (simp add: readerData_def split: option.split)

lemma readerData_index [simp]: "readerData (r\<lparr>or_index := i\<rparr>) = readerData r"
  by (simp add: readerData_def split: option.split)

lemma reader_ok_pos: "reader_ok D l r \<Longrightarrow> p \<le> ol_length l \<Longrightarrow> reader_ok D l (r\<lparr>or_pos := p\<rparr>)"
  by (simp add: reader_ok_def split: option.splits)

lemma Seek_ok: "reader_ok D l r \<Longrightarrow> reader_ok D l (snd (Seek r offset whence))"
  by (auto simp: Seek_def Let_def reader_ok_def split: option.splits)

lemma blit_front: "length xs \<le> length b \<Longrightarrow> n = length xs \<Longrightarrow> take n (blit b 0 xs) = xs"
  by (simp add: blit_def)

text \<open>
  The buffer after a load, whatever the load did, and the data and the index after one
  that succeeded.
\<close>

definition loaded :: "objectChunk \<Rightarrow> bytes \<Rightarrow> objectReader \<Rightarrow> objectReader" where
  "loaded chunk b r = r\<lparr>or_buffer := Some b, or_len := oc_raw chunk\<rparr>"

lemma load_cases:
  assumes "layout_ok L l" "reader_ok D l r" "readerAt_ok src" "pool_ok pool" "i < length (ol_chunks l)"
  obtains (failed) e r' where "load L pool src r i = (Some e, r')" "\<not> fatal (Some e)"
  | (success) b where "load L pool src r i = (None, (loaded (ol_chunks l ! i) b r)\<lparr>or_index := int i\<rparr>)"
      "length b = ol_chunkSize l" "oc_raw (ol_chunks l ! i) \<le> length b"
proof -
  define c where "c = ol_chunks l ! i"
  define buffer where "buffer = (case or_buffer r of Some b \<Rightarrow> b | None \<Rightarrow> acquireChunkBuffer pool (or_chunkSize r))"
  have r: "or_chunks r = ol_chunks l" "or_chunkSize r = ol_chunkSize l"
    using assms(2) by (simp_all add: reader_ok_def)
  have cs: "ol_chunkSize l = objectChunkSize \<or> ol_chunkSize l = legacyChunkSize"
    using assms(1) by (simp add: layout_ok_def)
  have len: "length buffer = ol_chunkSize l"
    using assms(2,4) cs
    by (auto simp: buffer_def reader_ok_def pool_ok_def acquireChunkBuffer_def split: option.splits)
  have c: "oc_raw c \<le> ol_chunkSize l"
    "oc_codec c = codecRaw \<or> oc_codec c = codecLZ4 \<and> oc_stored c \<le> encodedCapacity L (ol_chunkSize l)"
    using assms(1,5) cs by (auto simp: layout_ok_def c_def encodedCapacity_def)
  have v: "verifyChunk i c (loaded c b r) = (Some ChecksumMismatch, loaded c b r)
      \<or> verifyChunk i c (loaded c b r) = (None, (loaded c b r)\<lparr>or_index := int i\<rparr>)" for b
    by (simp add: verifyChunk_def)
  have s: "\<not> fatal (snd (src n off))" for n off
    using assms(3) by (simp add: readerAt_ok_def)
  have "(\<exists>e r'. load L pool src r i = (Some e, r') \<and> \<not> fatal (Some e))
    \<or> (\<exists>b. load L pool src r i = (None, (loaded c b r)\<lparr>or_index := int i\<rparr>) \<and> length b = ol_chunkSize l)"
  proof (cases "oc_codec c = codecRaw")
    case True
    obtain got e where g: "src (oc_raw c) (oc_offset c) = (got, e)" by fastforce
    have "length (blit buffer 0 got) = ol_chunkSize l" by (simp add: len)
    moreover have "load L pool src r i = (if e \<noteq> None then (e, loaded c (blit buffer 0 got) r)
        else verifyChunk i c (loaded c (blit buffer 0 got) r))"
      using True c(1) assms(5) by (simp add: load_def r Let_def flip: c_def buffer_def) (simp add: g len loaded_def)
    ultimately show ?thesis
      using v [of "blit buffer 0 got"] s [of "oc_raw c" "oc_offset c"] by (cases e) (auto simp: g fatal_def)
  next
    case False
    obtain got e where g: "src (oc_stored c) (oc_offset c) = (got, e)" by fastforce
    obtain dec n where u: "lz_uncompress L got (take (oc_raw c) buffer) = (dec, n)" by fastforce
    have "length (blit buffer 0 dec) = ol_chunkSize l" by (simp add: len)
    moreover have "load L pool src r i = (case e of Some e \<Rightarrow> (Some e, loaded c buffer r)
        | None \<Rightarrow> if n \<noteq> Some (oc_raw c) then (Some CorruptCompressedChunk, loaded c (blit buffer 0 dec) r)
                  else verifyChunk i c (loaded c (blit buffer 0 dec) r))"
      using False c assms(5) by (simp add: load_def r Let_def flip: c_def buffer_def) (simp add: g u len loaded_def split: option.split)
    ultimately show ?thesis
      using v [of "blit buffer 0 dec"] s [of "oc_stored c" "oc_offset c"] by (cases e) (auto simp: g fatal_def)
  qed
  then show ?thesis
    using that c(1) len unfolding c_def [symmetric] by metis
qed

lemma loaded_ok:
  assumes "reader_ok D l r" "i < length (ol_chunks l)" "length b = ol_chunkSize l" "oc_raw (ol_chunks l ! i) \<le> length b"
    and "D i (take (oc_raw (ol_chunks l ! i)) b)"
  shows "reader_ok D l ((loaded (ol_chunks l ! i) b r)\<lparr>or_index := int i\<rparr>)"
  using assms by (auto simp: reader_ok_def loaded_def readerData_def)

lemma chunk_of_pos:
  assumes "layout_ok L l" "p < ol_length l"
  shows "p div ol_chunkSize l < length (ol_chunks l)"
    "p mod ol_chunkSize l < oc_raw (ol_chunks l ! (p div ol_chunkSize l))"
proof -
  have cs: "0 < ol_chunkSize l"
    using assms(1) by (auto simp: layout_ok_def object_sizes)
  have "p div ol_chunkSize l \<le> (ol_length l - 1) div ol_chunkSize l"
    using assms(2) by (intro div_le_mono) simp
  then show i: "p div ol_chunkSize l < length (ol_chunks l)"
    using assms by (auto simp: layout_ok_def expectedChunks_def)
  have "p mod ol_chunkSize l + p div ol_chunkSize l * ol_chunkSize l < ol_length l"
    using assms(2) by simp
  then have "p mod ol_chunkSize l < ol_length l - p div ol_chunkSize l * ol_chunkSize l"
    by (simp only: less_diff_conv)
  then show "p mod ol_chunkSize l < oc_raw (ol_chunks l ! (p div ol_chunkSize l))"
    using assms(1) i cs by (auto simp: layout_ok_def)
qed

definition loads_as :: "(nat \<Rightarrow> bytes \<Rightarrow> bool) \<Rightarrow> lz4 \<Rightarrow> (nat \<Rightarrow> bytes) \<Rightarrow> readerAt \<Rightarrow> objectLayout \<Rightarrow> bool" where
  "loads_as D L pool src l \<longleftrightarrow> (\<forall>r i b. reader_ok D l r \<longrightarrow> i < length (ol_chunks l) \<longrightarrow>
      load L pool src r i = (None, (loaded (ol_chunks l ! i) b r)\<lparr>or_index := int i\<rparr>) \<longrightarrow>
      length b = ol_chunkSize l \<longrightarrow> D i (take (oc_raw (ol_chunks l ! i)) b))"

text \<open>One turn of the loop: the chunk of the position is at hand, and it reaches past the position.\<close>

lemma turn_cases:
  assumes l: "layout_ok L l" and r: "reader_ok D l r" and src: "readerAt_ok src" "pool_ok pool" and p: "or_pos r < ol_length l"
    and D: "loads_as D L pool src l"
  obtains (failed) e r' where "(if or_index r \<noteq> int (or_pos r div or_chunkSize r) then load L pool src r (or_pos r div or_chunkSize r)
        else (None, r)) = (Some e, r')" "\<not> fatal (Some e)"
  | (ready) r' where "(if or_index r \<noteq> int (or_pos r div or_chunkSize r) then load L pool src r (or_pos r div or_chunkSize r)
        else (None, r)) = (None, r')" "reader_ok D l r'" "or_pos r' = or_pos r"
      "or_index r' = int (or_pos r div ol_chunkSize l)" "or_pos r mod ol_chunkSize l < length (readerData r')"
      "D (or_pos r div ol_chunkSize l) (readerData r')"
proof -
  define i where "i = or_pos r div ol_chunkSize l"
  have cs: "or_chunkSize r = ol_chunkSize l"
    using r by (simp add: reader_ok_def)
  note i = chunk_of_pos [OF l p, folded i_def]
  show ?thesis
  proof (cases "or_index r = int i")
    case True
    then have "length (readerData r) = oc_raw (ol_chunks l ! i)" "D i (readerData r)"
      using r by (auto simp: reader_ok_def split: option.splits)
    then show ?thesis
      using that(2) [of r] True r i by (simp add: cs flip: i_def)
  next
    case False
    from l r src i(1) show ?thesis
    proof (cases rule: load_cases)
      case (failed e r')
      then show ?thesis using that(1) [of e r'] False by (simp add: cs flip: i_def)
    next
      case (success b)
      have d: "D i (take (oc_raw (ol_chunks l ! i)) b)"
        using D r i(1) success(1,2) unfolding loads_as_def by blast
      have "readerData ((loaded (ol_chunks l ! i) b r)\<lparr>or_index := int i\<rparr>) = take (oc_raw (ol_chunks l ! i)) b"
        by (simp add: loaded_def readerData_def)
      then show ?thesis
        using that(2) [OF _ loaded_ok [OF r i(1) success(2,3) d]] False i success d by (simp add: cs loaded_def flip: i_def)
    qed
  qed
qed

lemma readLoop_ok:
  assumes l: "layout_ok L l" and src: "readerAt_ok src" "pool_ok pool"
    and D: "loads_as D L pool src l"
    and "reader_ok D l r" "want < fuel" "readLoop L pool src fuel r want out = (out', e, r')"
  shows "\<not> fatal e \<and> (e = None \<longrightarrow> reader_ok D l r' \<and> or_pos r' = min (or_pos r + want) (ol_length l)
    \<and> length out' = length out + (or_pos r' - or_pos r))"
  using assms(5-7)
proof (induction fuel arbitrary: r want out)
  case 0
  then show ?case by simp
next
  case (Suc fuel)
  have len: "or_length r = ol_length l" "or_pos r \<le> ol_length l" "or_chunkSize r = ol_chunkSize l"
    using Suc.prems(1) by (simp_all add: reader_ok_def)
  show ?case
  proof (cases "want > 0 \<and> or_pos r < or_length r")
    case False
    then show ?thesis using Suc.prems len by (auto simp: fatal_def)
  next
    case True
    then have p: "or_pos r < ol_length l" "0 < want" by (simp_all add: len)
    from l Suc.prems(1) src p(1) D show ?thesis
    proof (cases rule: turn_cases)
      case (failed e2 r2)
      then show ?thesis using Suc.prems(3) True by (auto simp: Let_def)
    next
      case (ready r2)
      define got where "got = take want (drop (or_pos r mod ol_chunkSize l) (readerData r2))"
      have raw: "length (readerData r2) \<le> ol_length l - or_pos r div ol_chunkSize l * ol_chunkSize l"
        using ready(2,4) l by (auto simp: reader_ok_def layout_ok_def split: option.splits)
      have "0 < length got" "length got \<le> want"
        using ready(5) p(2) by (simp_all add: got_def)
      moreover from this have "want - length got < fuel"
        using Suc.prems(2) by linarith
      moreover have "or_pos r + length got \<le> ol_length l"
      proof -
        have "length got \<le> length (readerData r2) - or_pos r mod ol_chunkSize l"
          by (simp add: got_def)
        moreover have "or_pos r = or_pos r div ol_chunkSize l * ol_chunkSize l + or_pos r mod ol_chunkSize l"
          by simp
        ultimately show ?thesis using raw p(1) by linarith
      qed
      moreover have "readLoop L pool src fuel (r2\<lparr>or_pos := or_pos r + length got\<rparr>) (want - length got) (out @ got) = (out', e, r')"
        using Suc.prems(3) True ready(2,5) unfolding readLoop.simps Let_def ready(1)
        by (simp add: got_def ready(3) reader_ok_def)
      ultimately show ?thesis
        using Suc.IH [of "r2\<lparr>or_pos := or_pos r + length got\<rparr>" "want - length got" "out @ got"]
          reader_ok_pos [OF ready(2), of "or_pos r + length got"] by auto
    qed
  qed
qed

subsection \<open>What the writer leaves\<close>

text \<open>
  \<open>stored_as L off chunks raws body\<close>: the chunk entries describe the bytes \<open>body\<close>, which start at
  \<open>off\<close> and hold the pieces \<open>raws\<close> one after the other.
\<close>

definition decodes :: "lz4 \<Rightarrow> objectChunk \<Rightarrow> bytes \<Rightarrow> bytes \<Rightarrow> bool" where
  "decodes L c stored raw \<longleftrightarrow> oc_stored c = length stored \<and> oc_raw c = length raw \<and> oc_crc c = crc32c raw
     \<and> length raw \<le> objectChunkSize \<and> length stored \<le> objectChunkSize
     \<and> (oc_codec c = codecRaw \<and> stored = raw
        \<or> oc_codec c = codecLZ4 \<and> stored \<noteq> [] \<and> length stored \<le> lz_bound L objectChunkSize
          \<and> (\<forall>dst. length dst = length raw \<longrightarrow> lz_uncompress L stored dst = (raw, Some (length raw))))"

fun stored_as :: "lz4 \<Rightarrow> nat \<Rightarrow> objectChunk list \<Rightarrow> bytes list \<Rightarrow> bytes \<Rightarrow> bool" where
  "stored_as L off [] [] body \<longleftrightarrow> body = []"
| "stored_as L off (c # cs) (raw # raws) body \<longleftrightarrow>
     oc_offset c = off \<and> oc_stored c \<le> length body \<and> decodes L c (take (oc_stored c) body) raw
     \<and> stored_as L (off + oc_stored c) cs raws (drop (oc_stored c) body)"
| "stored_as L off _ _ body \<longleftrightarrow> False"

definition pieces :: "nat \<Rightarrow> bytes \<Rightarrow> bytes list" where
  "pieces n v = map (\<lambda>i. take objectChunkSize (drop (i * objectChunkSize) v)) [0..<n]"

lemma pieces_Suc: "pieces (Suc n) v = take objectChunkSize v # pieces n (drop objectChunkSize v)"
  by (simp add: pieces_def upt_rec [of 0 "Suc n"] map_Suc_upt [symmetric] comp_def add.commute del: upt_Suc)

lemma storeChunk_decodes:
  assumes "lz4_ok L" "storeChunk L large raw = Ok (codec, stored)" "length raw \<le> objectChunkSize"
  shows "decodes L \<lparr>oc_codec = codec, oc_offset = off, oc_stored = length stored, oc_raw = length raw, oc_crc = crc32c raw\<rparr> stored raw"
proof (cases "stored = raw \<and> codec = codecRaw")
  case True
  then show ?thesis using assms(3) by (simp add: decodes_def)
next
  case False
  then have c: "lz_compress L raw = Ok stored" "stored \<noteq> []" "length stored * 8 \<le> length raw * 7" "codec = codecLZ4"
    using assms(2) by (auto simp: storeChunk_def split: if_splits sum.splits)
  have "length stored \<le> lz_bound L (length raw)" "lz_bound L (length raw) \<le> lz_bound L objectChunkSize"
    "\<And>dst. length dst = length raw \<Longrightarrow> lz_uncompress L stored dst = (raw, Some (length raw))"
    using assms(1,3) c(1,2) unfolding lz4_ok_def by blast+
  then show ?thesis using c assms(3) by (simp add: decodes_def)
qed

lemma writeChunks_stored:
  assumes "lz4_ok L" "writeChunks L large n (length src) off src = Ok (chunks, body, rest)"
    and "off + length src < 2 ^ 63" "length src \<le> n * objectChunkSize"
  shows "stored_as L off chunks (pieces n src) body \<and> rest = [] \<and> length chunks = n \<and> length body \<le> length src"
  using assms(2-4)
proof (induction n arbitrary: off src chunks body)
  case 0
  then show ?case by (simp add: pieces_def)
next
  case (Suc n)
  define k where "k = min (length src) objectChunkSize"
  have k: "take k src = take objectChunkSize src" "drop k src = drop objectChunkSize src" "length src - k = length (drop objectChunkSize src)"
    by (auto simp: k_def min_def)
  obtain codec stored cs' body' where st: "storeChunk L large (take objectChunkSize src) = Ok (codec, stored)"
    and rest: "writeChunks L large n (length (drop objectChunkSize src)) (u64 (off + length stored)) (drop objectChunkSize src) = Ok (cs', body', rest)"
    and eq: "chunks = \<lparr>oc_codec = codec, oc_offset = off, oc_stored = length stored, oc_raw = length (take objectChunkSize src),
        oc_crc = crc32c (take objectChunkSize src)\<rparr> # cs'" "body = stored @ body'"
    using Suc.prems(1) by (auto simp: Let_def k k_def [symmetric] simp del: length_take length_drop split: if_splits sum.splits)
  have d: "decodes L \<lparr>oc_codec = codec, oc_offset = off, oc_stored = length stored, oc_raw = length (take objectChunkSize src),
        oc_crc = crc32c (take objectChunkSize src)\<rparr> stored (take objectChunkSize src)"
    by (rule storeChunk_decodes [OF assms(1) st]) simp
  have sl: "length stored \<le> length (take objectChunkSize src)"
    using st by (auto simp: storeChunk_def split: if_splits sum.splits)
  then have le: "off + length stored + length (drop objectChunkSize src) < 2 ^ 63"
    using Suc.prems(2) by auto
  then have "u64 (off + length stored) = off + length stored" by simp
  then have "stored_as L (off + length stored) cs' (pieces n (drop objectChunkSize src)) body' \<and> rest = [] \<and> length cs' = n
      \<and> length body' \<le> length (drop objectChunkSize src)"
    using Suc.IH [OF rest] le Suc.prems(3) by simp
  then show ?case
    using d sl by (auto simp: eq pieces_Suc)
qed

subsection \<open>Reading a written layout\<close>

lemma length_objectEntry [simp]: "length (objectEntry c) = objectEntrySize"
  by (simp add: objectEntry_def objectEntrySize_def)

lemma readEntry_objectEntry:
  assumes "oc_offset c < 2 ^ 64" "oc_stored c < 2 ^ 32" "oc_raw c < 2 ^ 32"
  shows "readEntry (objectEntry c @ rest) = c"
proof -
  have "unat (oc_crc c) < 256 ^ 4"
    using unsigned_less [of "oc_crc c"] by simp
  then show ?thesis
    using assms by (simp add: readEntry_def objectEntry_def slice_def)
qed

lemma decodes_check:
  assumes "decodes L c stored raw" "oc_stored c \<le> es - off"
  shows "checkEntry L objectChunkSize es (length raw) (oc_offset c) c = None \<or> oc_offset c \<noteq> off"
  using assms by (auto simp: checkEntry_def decodes_def codecRaw_def codecLZ4_def)

lemma readTable_stored:
  assumes "stored_as L off chunks (pieces n v) body" "length v \<le> n * objectChunkSize" "length v \<le> len"
    and "off + length body = es" "es < 2 ^ 63" "len < 2 ^ 63"
  shows "readTable L objectChunkSize es len (length chunks) (concat (map objectEntry chunks) @ rest) off (len - length v)
    = Ok (chunks, es, len)"
  using assms(1-4)
proof (induction n arbitrary: off chunks v body)
  case 0
  then show ?case by (cases chunks) (auto simp: pieces_def)
next
  case (Suc n)
  define raw where "raw = take objectChunkSize v"
  obtain c cs where chunks: "chunks = c # cs" and off: "oc_offset c = off" and st: "oc_stored c \<le> length body"
    and d: "decodes L c (take (oc_stored c) body) raw"
    and rest: "stored_as L (off + oc_stored c) cs (pieces n (drop objectChunkSize v)) (drop (oc_stored c) body)"
    using Suc.prems(1) by (cases chunks) (auto simp: pieces_Suc raw_def)
  have c: "oc_raw c = length raw" "length raw \<le> objectChunkSize" "oc_stored c \<le> objectChunkSize"
    using d st by (auto simp: decodes_def)
  have entry: "readEntry (concat (map objectEntry chunks) @ rest) = c" for rest
    using readEntry_objectEntry [of c "concat (map objectEntry cs) @ rest"] c st Suc.prems(4) assms(5)
    by (simp add: chunks off objectChunkSize_def)
  have check: "checkEntry L objectChunkSize es (length raw) off c = None"
    using decodes_check [OF d, of es off] st Suc.prems(4) by (auto simp: off)
  have min: "min objectChunkSize (len - (len - length v)) = length raw"
    using Suc.prems(3) by (simp add: raw_def min.commute)
  have u: "u64 (off + oc_stored c) = off + oc_stored c" "u64 (len - length v + oc_raw c) = len - length (drop objectChunkSize v)"
    using st Suc.prems(3,4) assms(5,6) by (auto simp: c raw_def)
  have "readTable L objectChunkSize es len (length cs) (concat (map objectEntry cs) @ rest) (off + oc_stored c)
      (len - length (drop objectChunkSize v)) = Ok (cs, es, len)"
    by (rule Suc.IH [OF rest]) (use Suc.prems(2-4) st in auto)
  then show ?case
    using entry [of rest] check by (simp add: chunks min u Let_def)
qed

definition layoutOf :: "objectChunk list \<Rightarrow> nat \<Rightarrow> objectLayout" where
  "layoutOf chunks len = \<lparr>ol_chunks = chunks, ol_length = len, ol_chunkSize = objectChunkSize\<rparr>"

lemma length_concat_entries: "length (concat (map objectEntry cs)) = length cs * objectEntrySize"
  by (induction cs) simp_all

lemma expectedChunks_up: "(len + objectChunkSize - 1) div objectChunkSize = expectedChunks len objectChunkSize"
proof (cases len)
  case (Suc n)
  then show ?thesis by (simp add: expectedChunks_def objectChunkSize_def)
qed (simp add: expectedChunks_def objectChunkSize_def)

lemma expectedChunks_bound: "len \<le> expectedChunks len objectChunkSize * objectChunkSize"
  "expectedChunks len objectChunkSize \<le> len"
  by (auto simp: expectedChunks_def objectChunkSize_def)

lemma writeObject_stored:
  assumes "lz4_ok L" "writeObject L None v = Ok file" "length v < 2 ^ 47"
  obtains chunks body where "file = objectHeader (length v) chunks @ body"
    "length chunks = expectedChunks (length v) objectChunkSize"
    "stored_as L (objectHeaderSize + length chunks * objectEntrySize) chunks (pieces (length chunks) v) body"
    "length body \<le> length v"
proof -
  define n where "n = expectedChunks (length v) objectChunkSize"
  have "u64 (length v + objectChunkSize - 1) = length v + objectChunkSize - 1"
    using assms(3) by (intro u64_id) (simp add: objectChunkSize_def)
  then have "u64 (length v + objectChunkSize - 1) div objectChunkSize = n"
    by (simp add: n_def expectedChunks_up del: One_nat_def)
  then obtain chunks body where w: "writeChunks L (length v > objectChunkSize) n (length v)
      (objectHeaderSize + n * objectEntrySize) v = Ok (chunks, body, [])"
    and fl: "file = objectHeader (length v) chunks @ body"
    using assms(2) unfolding writeObject_def writeObjectReader_def Let_def
    by (auto simp del: One_nat_def split: if_splits sum.splits)
  have b: "length v \<le> n * objectChunkSize" "n \<le> length v"
    unfolding n_def by (rule expectedChunks_bound)+
  then have "objectHeaderSize + n * objectEntrySize + length v < 2 ^ 63"
    using assms(3) by (simp add: object_sizes)
  then show ?thesis
    using that [OF fl] writeChunks_stored [OF assms(1) w _ b(1)] by (simp add: n_def)
qed

lemma length_objectHeader: "length (objectHeader len chunks) = objectHeaderSize + length chunks * objectEntrySize"
  by (simp add: objectHeader_def objectMagic_def objectHeaderSize_def length_concat_entries)

lemma header_fields:
  fixes body :: bytes
  assumes "len < 2 ^ 64" "length chunks < 2 ^ 32"
  defines "h \<equiv> take objectHeaderSize (objectHeader len chunks @ body)"
  shows "slice h 0 8 = objectMagic" "be_decode (slice h 8 10) = objectVersion" "be_decode (slice h 12 16) = objectChunkSize"
    "be_decode (slice h 16 24) = len" "be_decode (slice h 24 28) = length chunks" "length h = objectHeaderSize"
    "take (length chunks * objectEntrySize) (drop objectHeaderSize (objectHeader len chunks @ body)) = concat (map objectEntry chunks)"
  using assms(1,2) length_concat_entries [of chunks] unfolding h_def
  by (simp_all add: objectHeader_def objectMagic_def slice_def objectHeaderSize_def objectVersion_def objectChunkSize_def)

lemma written_layout:
  assumes "lz4_ok L" "writeObject L None v = Ok file" "length v < 2 ^ 47"
  obtains chunks body where "readObjectLayout L (osFile file) (length file) = Ok (layoutOf chunks (length v))"
    "file = objectHeader (length v) chunks @ body" "length chunks = expectedChunks (length v) objectChunkSize"
    "stored_as L (length (objectHeader (length v) chunks)) chunks (pieces (length chunks) v) body"
proof -
  obtain chunks body where fl: "file = objectHeader (length v) chunks @ body"
    and n: "length chunks = expectedChunks (length v) objectChunkSize"
    and st: "stored_as L (objectHeaderSize + length chunks * objectEntrySize) chunks (pieces (length chunks) v) body"
    and b: "length body \<le> length v"
    by (rule writeObject_stored [OF assms])
  note e = expectedChunks_bound [of "length v", folded n]
  have n32: "length chunks < 2 ^ 32"
    using assms(3) by (auto simp: n expectedChunks_def objectChunkSize_def)
  have v64: "length v < 2 ^ 64" using assms(3) by simp
  note h = header_fields [OF v64 n32, where body = body]
  have es: "length file = objectHeaderSize + length chunks * objectEntrySize + length body" "length file < 2 ^ 63"
    using b e(2) assms(3) by (simp_all add: fl length_objectHeader object_sizes)
  have t: "readTable L objectChunkSize (length file) (length v) (length chunks) (concat (map objectEntry chunks))
      (objectHeaderSize + length chunks * objectEntrySize) 0 = Ok (chunks, length file, length v)"
    using readTable_stored [OF st e(1) order_refl _ es(2), where rest = "[]"] es(1) assms(3) by simp
  have "osFile file objectHeaderSize 0 = (take objectHeaderSize file, None)"
    "osFile file (length chunks * objectEntrySize) objectHeaderSize = (concat (map objectEntry chunks), None)"
    using h(6,7) length_concat_entries [of chunks] by (simp_all add: osFile_def fl Let_def)
  then have "readObjectLayout L (osFile file) (length file) = Ok (layoutOf chunks (length v))"
    using t es(1) n32 assms(3) h(1-5)
    by (simp add: readObjectLayout_def Let_def layoutOf_def fl n del: readTable.simps)
  then show ?thesis
    using that fl n st length_objectHeader by simp
qed

subsection \<open>Loading a written chunk\<close>

lemma stored_as_nth:
  assumes "stored_as L off chunks raws body" "i < length chunks"
  shows "length raws = length chunks" "off \<le> oc_offset (chunks ! i)"
    "oc_offset (chunks ! i) - off + oc_stored (chunks ! i) \<le> length body"
    "decodes L (chunks ! i) (take (oc_stored (chunks ! i)) (drop (oc_offset (chunks ! i) - off) body)) (raws ! i)"
proof -
  have "length raws = length chunks \<and> off \<le> oc_offset (chunks ! i)
    \<and> oc_offset (chunks ! i) - off + oc_stored (chunks ! i) \<le> length body
    \<and> decodes L (chunks ! i) (take (oc_stored (chunks ! i)) (drop (oc_offset (chunks ! i) - off) body)) (raws ! i)"
    using assms
  proof (induction L off chunks raws body arbitrary: i rule: stored_as.induct)
    case (2 L off c cs raw raws body)
    have len: "length raws = length cs"
    proof (cases cs)
      case Nil
      then show ?thesis using 2(2) by (cases raws) auto
    next
      case Cons
      then show ?thesis using 2(1) [of 0] 2(2) by simp
    qed
    show ?case
    proof (cases i)
      case 0
      then show ?thesis using 2(2) len by simp
    next
      case (Suc k)
      have k: "stored_as L (off + oc_stored c) cs raws (drop (oc_stored c) body)" "k < length cs"
        using 2(2,3) Suc by simp_all
      have IH: "off + oc_stored c \<le> oc_offset (cs ! k)"
        "oc_offset (cs ! k) - (off + oc_stored c) + oc_stored (cs ! k) \<le> length (drop (oc_stored c) body)"
        "decodes L (cs ! k) (take (oc_stored (cs ! k)) (drop (oc_offset (cs ! k) - (off + oc_stored c)) (drop (oc_stored c) body))) (raws ! k)"
        using 2(1) [OF k] by blast+
      have eq: "oc_offset (cs ! k) - (off + oc_stored c) + oc_stored c = oc_offset (cs ! k) - off"
        using IH(1) by simp
      have "decodes L (cs ! k) (take (oc_stored (cs ! k)) (drop (oc_offset (cs ! k) - off) body)) (raws ! k)"
        using IH(3) unfolding drop_drop eq .
      moreover have "oc_offset (cs ! k) - off + oc_stored (cs ! k) \<le> length body"
        using IH(1,2) 2(2) by auto
      ultimately show ?thesis
        using IH(1) len Suc by simp
    qed
  qed simp_all
  then show "length raws = length chunks" "off \<le> oc_offset (chunks ! i)"
    "oc_offset (chunks ! i) - off + oc_stored (chunks ! i) \<le> length body"
    "decodes L (chunks ! i) (take (oc_stored (chunks ! i)) (drop (oc_offset (chunks ! i) - off) body)) (raws ! i)"
    by blast+
qed

text \<open>The data a reader of the object \<open>v\<close> may hold for a chunk.\<close>

definition piece_of :: "bytes \<Rightarrow> nat \<Rightarrow> bytes \<Rightarrow> bool" where
  "piece_of v i d \<longleftrightarrow> d = take objectChunkSize (drop (i * objectChunkSize) v)"

definition holds_object :: "lz4 \<Rightarrow> bytes \<Rightarrow> bytes \<Rightarrow> objectChunk list \<Rightarrow> bool" where
  "holds_object L v file chunks \<longleftrightarrow> layout_ok L (layoutOf chunks (length v))
     \<and> (\<exists>body. file = objectHeader (length v) chunks @ body
          \<and> stored_as L (length (objectHeader (length v) chunks)) chunks (pieces (length chunks) v) body)"

lemma holds_object_chunk:
  assumes "holds_object L v file chunks" "i < length chunks"
  shows "decodes L (chunks ! i) (fst (osFile file (oc_stored (chunks ! i)) (oc_offset (chunks ! i)))) (pieces (length chunks) v ! i)"
    "snd (osFile file (oc_stored (chunks ! i)) (oc_offset (chunks ! i))) = None"
proof -
  obtain body where fl: "file = objectHeader (length v) chunks @ body"
    and st: "stored_as L (length (objectHeader (length v) chunks)) chunks (pieces (length chunks) v) body"
    using assms(1) unfolding holds_object_def by blast
  note n = stored_as_nth [OF st assms(2)]
  have d: "drop (oc_offset (chunks ! i)) file = drop (oc_offset (chunks ! i) - length (objectHeader (length v) chunks)) body"
    using n(2) by (simp add: fl)
  show "decodes L (chunks ! i) (fst (osFile file (oc_stored (chunks ! i)) (oc_offset (chunks ! i)))) (pieces (length chunks) v ! i)"
    using n(4) by (simp add: osFile_def Let_def d)
  show "snd (osFile file (oc_stored (chunks ! i)) (oc_offset (chunks ! i))) = None"
    using n(3) by (simp add: osFile_def Let_def d)
qed

lemma load_written:
  assumes h: "holds_object L v file chunks" and r: "reader_ok D (layoutOf chunks (length v)) r" and "pool_ok pool"
    and i: "i < length chunks"
  obtains b where "load L pool (osFile file) r i = (None, (loaded (chunks ! i) b r)\<lparr>or_index := int i\<rparr>)"
    "length b = objectChunkSize" "piece_of v i (take (oc_raw (chunks ! i)) b)"
proof -
  define c where "c = chunks ! i"
  define raw where "raw = take objectChunkSize (drop (i * objectChunkSize) v)"
  define stored where "stored = fst (osFile file (oc_stored c) (oc_offset c))"
  define buffer where "buffer = (case or_buffer r of Some b \<Rightarrow> b | None \<Rightarrow> acquireChunkBuffer pool (or_chunkSize r))"
  have f: "osFile file (oc_stored c) (oc_offset c) = (stored, None)"
    using holds_object_chunk(2) [OF h i] by (simp add: stored_def c_def prod_eq_iff)
  have d: "decodes L c stored raw"
    using holds_object_chunk(1) [OF h i] i by (simp add: stored_def c_def raw_def pieces_def)
  have rr: "or_chunks r = chunks" "or_chunkSize r = objectChunkSize"
    using r by (simp_all add: reader_ok_def layoutOf_def)
  have len: "length buffer = objectChunkSize"
    using r assms(3) by (auto simp: buffer_def reader_ok_def pool_ok_def acquireChunkBuffer_def layoutOf_def legacyChunkSize_def
        split: option.splits)
  have raw: "oc_raw c = length raw" "length raw \<le> length buffer" "oc_crc c = crc32c raw"
    using d len by (auto simp: decodes_def)
  have v: "verifyChunk i c (loaded c (blit buffer 0 raw) r) = (None, (loaded c (blit buffer 0 raw) r)\<lparr>or_index := int i\<rparr>)"
    using raw by (simp add: verifyChunk_def readerData_def loaded_def blit_front)
  have "load L pool (osFile file) r i = (None, (loaded c (blit buffer 0 raw) r)\<lparr>or_index := int i\<rparr>)"
  proof (cases "oc_codec c = codecRaw")
    case True
    then have "stored = raw" "oc_stored c = oc_raw c"
      using d by (auto simp: decodes_def codecRaw_def codecLZ4_def)
    then show ?thesis
      using True raw i f v by (simp add: load_def rr Let_def flip: c_def buffer_def) (simp add: loaded_def)
  next
    case False
    then have "oc_stored c \<le> encodedCapacity L objectChunkSize" "lz_uncompress L stored (take (length raw) buffer) = (raw, Some (length raw))"
      using d raw(2) by (auto simp: decodes_def encodedCapacity_def legacyChunkSize_def)
    then show ?thesis
      using False raw i f v by (simp add: load_def rr Let_def flip: c_def buffer_def) (simp add: loaded_def)
  qed
  then show ?thesis
    using that [of "blit buffer 0 raw"] raw len by (simp add: c_def piece_of_def raw_def blit_front)
qed

subsection \<open>The reader as a byte sequence\<close>

definition object_at :: "bytes \<Rightarrow> objectChunk list \<Rightarrow> objectReader \<Rightarrow> nat \<Rightarrow> bool" where
  "object_at v chunks r p \<longleftrightarrow> reader_ok (piece_of v) (layoutOf chunks (length v)) r \<and> or_pos r = p"

lemma readerAt_osFile: "readerAt_ok (osFile file)"
  by (auto simp: readerAt_ok_def osFile_def Let_def fatal_def)

lemma loads_written:
  assumes "holds_object L v file chunks" "pool_ok pool"
  shows "loads_as (piece_of v) L pool (osFile file) (layoutOf chunks (length v))"
  unfolding loads_as_def
proof (intro allI impI)
  fix r i b
  let ?l = "layoutOf chunks (length v)"
  assume r: "reader_ok (piece_of v) ?l r" and i: "i < length (ol_chunks ?l)"
    and l: "load L pool (osFile file) r i = (None, (loaded (ol_chunks ?l ! i) b r)\<lparr>or_index := int i\<rparr>)"
  have i': "i < length chunks" "ol_chunks ?l ! i = chunks ! i"
    using i by (simp_all add: layoutOf_def)
  obtain b' where b': "load L pool (osFile file) r i = (None, (loaded (chunks ! i) b' r)\<lparr>or_index := int i\<rparr>)"
    "piece_of v i (take (oc_raw (chunks ! i)) b')"
    using load_written [OF assms(1) r assms(2) i'(1)] by blast
  then have "readerData ((loaded (chunks ! i) b r)\<lparr>or_index := int i\<rparr>) = readerData ((loaded (chunks ! i) b' r)\<lparr>or_index := int i\<rparr>)"
    using l i'(2) by simp
  then show "piece_of v i (take (oc_raw (ol_chunks ?l ! i)) b)"
    using b'(2) i'(2) by (simp add: readerData_def loaded_def)
qed

lemma take_split:
  assumes "m \<le> n"
  shows "take n xs = take m xs @ take (n - length (take m xs)) (drop (length (take m xs)) xs)"
proof (cases "length xs \<le> m")
  case False
  then show ?thesis using assms take_add [of m "n - m" xs] by simp
qed (use assms in simp)

lemma piece_split:
  assumes "d = take cs (drop (p div cs * cs) v)" "got = take want (drop (p mod cs) d)"
  shows "take want (drop p v) = got @ take (want - length got) (drop (p + length got) v)"
proof -
  have "drop (p mod cs) d = take (cs - p mod cs) (drop (p mod cs + p div cs * cs) v)"
    by (simp add: assms(1) drop_take add.commute)
  then have got: "got = take (min want (cs - p mod cs)) (drop p v)"
    by (simp add: assms(2) min.commute)
  from take_split [of "min want (cs - p mod cs)" want "drop p v"] show ?thesis
    by (simp add: got add.commute)
qed

lemma readLoop_written:
  assumes h: "holds_object L v file chunks" and pool: "pool_ok pool"
    and "object_at v chunks r p" "want < fuel"
  shows "\<exists>r'. readLoop L pool (osFile file) fuel r want out = (out @ take want (drop p v), None, r')
    \<and> object_at v chunks r' (min (p + want) (length v))"
  using assms(3,4)
proof (induction fuel arbitrary: r p want out)
  case 0
  then show ?case by simp
next
  case (Suc fuel)
  let ?l = "layoutOf chunks (length v)"
  have lay: "layout_ok L ?l" using h by (simp add: holds_object_def)
  have r: "reader_ok (piece_of v) ?l r" "or_pos r = p" "p \<le> length v" "or_length r = length v" "or_chunkSize r = objectChunkSize"
    using Suc.prems(1) by (auto simp: object_at_def reader_ok_def layoutOf_def)
  show ?case
  proof (cases "want > 0 \<and> p < length v")
    case False
    then show ?thesis using Suc.prems(1) r by (auto simp: min_def)
  next
    case True
    have p: "or_pos r < ol_length ?l" using True r by (simp add: layoutOf_def)
    show ?thesis
      using lay r(1) readerAt_osFile [of "file"] pool p loads_written [OF h pool]
    proof (cases rule: turn_cases)
      case (failed e r')
      have "p div objectChunkSize < length chunks"
        using chunk_of_pos(1) [OF lay p] r(2) by (simp add: layoutOf_def)
      then obtain b where "load L pool (osFile file) r (p div objectChunkSize)
          = (None, (loaded (chunks ! (p div objectChunkSize)) b r)\<lparr>or_index := int (p div objectChunkSize)\<rparr>)"
        using load_written [OF h r(1) pool] by metis
      then show ?thesis using failed(1) r(2,5) by (simp split: if_splits)
    next
      case (ready r')
      define got where "got = take want (drop (p mod objectChunkSize) (readerData r'))"
      have d: "readerData r' = take objectChunkSize (drop (p div objectChunkSize * objectChunkSize) v)"
        "p mod objectChunkSize < length (readerData r')"
        using ready(5,6) by (simp_all add: piece_of_def layoutOf_def r(2))
      note split = piece_split [OF d(1) got_def]
      have "length got \<le> length (take want (drop p v))"
        unfolding split by simp
      then have g: "0 < length got" "length got \<le> want" "p + length got \<le> length v"
        using True d(2) by (auto simp: got_def)
      have "object_at v chunks (r'\<lparr>or_pos := p + length got\<rparr>) (p + length got)"
        using reader_ok_pos [OF ready(2)] g(3) by (simp add: object_at_def layoutOf_def)
      moreover have "want - length got < fuel"
        using g(1) Suc.prems(2) True by linarith
      ultimately obtain r'' where
        "readLoop L pool (osFile file) fuel (r'\<lparr>or_pos := p + length got\<rparr>) (want - length got) (out @ got)
          = (out @ take want (drop p v), None, r'')" "object_at v chunks r'' (min (p + want) (length v))"
        using Suc.IH [of "r'\<lparr>or_pos := p + length got\<rparr>" "p + length got" "want - length got" "out @ got"] g
        by (auto simp: split)
      moreover have "or_chunkSize r' = objectChunkSize"
        using ready(2) by (simp add: reader_ok_def layoutOf_def)
      ultimately show ?thesis
        using True d(2) r(2,4) unfolding readLoop.simps Let_def ready(1) by (simp add: got_def ready(3))
    qed
  qed
qed

lemma Read_written:
  assumes "holds_object L v file chunks" "pool_ok pool" "object_at v chunks r p"
  shows "p < length v \<Longrightarrow> \<exists>r'. Read L pool (osFile file) r want = (take want (drop p v), None, r')
      \<and> object_at v chunks r' (min (p + want) (length v))"
    "length v \<le> p \<Longrightarrow> Read L pool (osFile file) r want = ([], Some ObjectEOF, r)"
  using readLoop_written [OF assms, of want "Suc want" "[]"] assms(3)
  by (auto simp: Read_def object_at_def reader_ok_def layoutOf_def)

subsection \<open>Sequences of reads and seeks\<close>

datatype reader_op = OpRead nat | OpSeek int int

datatype reader_out = ReadOut bytes "object_error option" | SeekOut "object_error + int"

fun runReader :: "lz4 \<Rightarrow> (nat \<Rightarrow> bytes) \<Rightarrow> readerAt \<Rightarrow> objectReader \<Rightarrow> reader_op list \<Rightarrow> reader_out list" where
  "runReader L pool src r [] = []"
| "runReader L pool src r (OpRead n # ops) =
     (case Read L pool src r n of (bs, e, r') \<Rightarrow> ReadOut bs e # runReader L pool src r' ops)"
| "runReader L pool src r (OpSeek offset whence # ops) =
     (case Seek r offset whence of (res, r') \<Rightarrow> SeekOut res # runReader L pool src r' ops)"

text \<open>The abstract reader is the byte sequence and a position in it.\<close>

definition bytesSeek :: "bytes \<Rightarrow> nat \<Rightarrow> int \<Rightarrow> int \<Rightarrow> object_error + int" where
  "bytesSeek v p offset whence =
     (if whence \<notin> {0, 1, 2} then Err InvalidSeekOrigin
      else let t = (if whence = 0 then offset else if whence = 1 then wrap64 (int p + offset) else wrap64 (int (length v) + offset))
           in if 0 \<le> t \<and> t \<le> int (length v) then Ok t else Err SeekOutOfBounds)"

fun runBytes :: "bytes \<Rightarrow> nat \<Rightarrow> reader_op list \<Rightarrow> reader_out list" where
  "runBytes v p [] = []"
| "runBytes v p (OpRead n # ops) =
     (if p < length v then ReadOut (take n (drop p v)) None # runBytes v (min (p + n) (length v)) ops
      else ReadOut [] (Some ObjectEOF) # runBytes v p ops)"
| "runBytes v p (OpSeek offset whence # ops) =
     SeekOut (bytesSeek v p offset whence)
     # runBytes v (case bytesSeek v p offset whence of Inl _ \<Rightarrow> p | Inr t \<Rightarrow> nat t) ops"

lemma Seek_eq:
  assumes "or_length r = length v" "or_pos r = p"
  shows "Seek r offset whence = (bytesSeek v p offset whence,
    case bytesSeek v p offset whence of Inl _ \<Rightarrow> r | Inr t \<Rightarrow> r\<lparr>or_pos := nat t\<rparr>)"
  by (simp add: Seek_def bytesSeek_def Let_def assms not_less)

lemma bytesSeek_range: "bytesSeek v p offset whence = Ok t \<Longrightarrow> nat t \<le> length v"
  by (simp add: bytesSeek_def Let_def split: if_splits)

lemma Seek_bytes:
  assumes "object_at v chunks r p"
  shows "fst (Seek r offset whence) = bytesSeek v p offset whence"
    "object_at v chunks (snd (Seek r offset whence)) (case bytesSeek v p offset whence of Inl _ \<Rightarrow> p | Inr t \<Rightarrow> nat t)"
proof -
  have r: "reader_ok (piece_of v) (layoutOf chunks (length v)) r" "or_length r = length v" "or_pos r = p"
    using assms by (auto simp: object_at_def reader_ok_def layoutOf_def)
  note eq = Seek_eq [OF r(2,3), of offset whence]
  show "fst (Seek r offset whence) = bytesSeek v p offset whence"
    by (simp add: eq)
  show "object_at v chunks (snd (Seek r offset whence)) (case bytesSeek v p offset whence of Inl _ \<Rightarrow> p | Inr t \<Rightarrow> nat t)"
  proof (cases "bytesSeek v p offset whence")
    case (Inl e)
    then show ?thesis using assms by (simp add: eq)
  next
    case (Inr t)
    have "reader_ok (piece_of v) (layoutOf chunks (length v)) (r\<lparr>or_pos := nat t\<rparr>)"
      using reader_ok_pos [OF r(1)] bytesSeek_range [OF Inr] by (simp add: layoutOf_def)
    then show ?thesis by (simp add: eq Inr object_at_def)
  qed
qed

lemma runReader_bytes:
  assumes "holds_object L v file chunks" "pool_ok pool" "object_at v chunks r p"
  shows "runReader L pool (osFile file) r ops = runBytes v p ops"
  using assms(3)
proof (induction ops arbitrary: r p)
  case (Cons op ops)
  show ?case
  proof (cases op)
    case (OpRead n)
    show ?thesis
    proof (cases "p < length v")
      case True
      then obtain r' where "Read L pool (osFile file) r n = (take n (drop p v), None, r')"
        "object_at v chunks r' (min (p + n) (length v))"
        using Read_written(1) [OF assms(1,2) Cons.prems] by blast
      then show ?thesis using Cons.IH True by (simp add: OpRead)
    next
      case False
      then show ?thesis using Read_written(2) [OF assms(1,2) Cons.prems] Cons.IH Cons.prems by (simp add: OpRead)
    qed
  next
    case (OpSeek offset whence)
    obtain res r' where "Seek r offset whence = (res, r')" by fastforce
    then show ?thesis using Seek_bytes [OF Cons.prems, of offset whence] Cons.IH by (simp add: OpSeek)
  qed
qed simp

fun runUntilError :: "lz4 \<Rightarrow> (nat \<Rightarrow> bytes) \<Rightarrow> readerAt \<Rightarrow> objectReader \<Rightarrow> reader_op list \<Rightarrow> reader_out list" where
  "runUntilError L pool src r [] = []"
| "runUntilError L pool src r (OpRead n # ops) =
     (case Read L pool src r n of (bs, e, r') \<Rightarrow>
        ReadOut bs e # (if e = None then runUntilError L pool src r' ops else []))"
| "runUntilError L pool src r (OpSeek offset whence # ops) =
     (case Seek r offset whence of (res, r') \<Rightarrow> SeekOut res # runUntilError L pool src r' ops)"

lemma readLoop_length:
  "readLoop L pool src fuel r want out = (out', e, r') \<Longrightarrow> length out' \<le> length out + want"
proof (induction fuel arbitrary: r want out)
  case (Suc fuel)
  show ?case
  proof (cases "want > 0 \<and> or_pos r < or_length r")
    case True
    obtain e2 r2 where t: "(if or_index r \<noteq> int (or_pos r div or_chunkSize r) then load L pool src r (or_pos r div or_chunkSize r)
        else (None, r)) = (e2, r2)" by fastforce
    define got where "got = take want (drop (or_pos r2 mod or_chunkSize r2) (readerData r2))"
    have "length got \<le> want" by (simp add: got_def)
    then show ?thesis
      using Suc.prems True Suc.IH [of "r2\<lparr>or_pos := or_pos r2 + length got\<rparr>" "want - length got" "out @ got"]
      unfolding readLoop.simps Let_def t by (auto simp: got_def [symmetric] split: option.splits if_splits)
  qed (use Suc.prems in auto)
qed simp

lemma Read_ok:
  assumes "layout_ok L l" "readerAt_ok src" "pool_ok pool" "reader_ok (\<lambda>_ _. True) l r" "Read L pool src r want = (bs, e, r')"
  shows "\<not> fatal e \<and> length bs \<le> want \<and> (e = None \<longrightarrow> reader_ok (\<lambda>_ _. True) l r' \<and> (0 < want \<longrightarrow> bs \<noteq> []))"
proof (cases "or_pos r \<ge> or_length r")
  case True
  then show ?thesis using assms(5) by (auto simp: Read_def fatal_def)
next
  case False
  have D: "loads_as (\<lambda>_ _. True) L pool src l"
    by (simp add: loads_as_def)
  have loop: "readLoop L pool src (Suc want) r want [] = (bs, e, r')"
    using assms(5) False by (simp add: Read_def)
  have len: "or_length r = ol_length l"
    using assms(4) by (simp add: reader_ok_def)
  have "length bs \<le> want"
    using readLoop_length [OF loop] by simp
  moreover note readLoop_ok [OF assms(1-3) D assms(4) _ loop]
  ultimately show ?thesis
    using False len by auto
qed

lemma runUntilError_ok:
  assumes "layout_ok L l" "readerAt_ok src" "pool_ok pool" "reader_ok (\<lambda>_ _. True) l r"
    and "ReadOut bs e \<in> set (runUntilError L pool src r ops)"
  shows "\<not> fatal e"
  using assms(4,5)
proof (induction ops arbitrary: r)
  case (Cons op ops)
  show ?case
  proof (cases op)
    case (OpRead n)
    obtain bs' e' r' where rd: "Read L pool src r n = (bs', e', r')" by (cases "Read L pool src r n") auto
    then have ok: "\<not> fatal e'" "e' = None \<longrightarrow> reader_ok (\<lambda>_ _. True) l r'"
      using Read_ok [OF assms(1-3) Cons.prems(1) rd] by simp_all
    from Cons.prems(2) rd have "e = e' \<or> e' = None \<and> ReadOut bs e \<in> set (runUntilError L pool src r' ops)"
      by (auto simp: OpRead split: if_splits)
    then show ?thesis using ok Cons.IH by blast
  next
    case (OpSeek offset whence)
    obtain res r' where sk: "Seek r offset whence = (res, r')" by fastforce
    then have "reader_ok (\<lambda>_ _. True) l r'"
      using Seek_ok [OF Cons.prems(1), of offset whence] by simp
    then show ?thesis using Cons sk by (simp add: OpSeek)
  qed
qed simp

lemma written_holds:
  assumes "lz4_ok L" "writeObject L None v = Ok file" "length v < 2 ^ 47"
  obtains chunks where "readObjectLayout L (osFile file) (length file) = Ok (layoutOf chunks (length v))"
    "holds_object L v file chunks"
  using written_layout [OF assms] readObjectLayout_ok unfolding holds_object_def by metis

lemma load_mismatch:
  assumes "load L pool src r j = (Some ChecksumMismatch, r')" "\<And>n off. snd (src n off) \<noteq> Some ChecksumMismatch"
  shows "or_index r' = or_index r" "or_length r' = or_length r" "or_chunkSize r' = or_chunkSize r"
    "crc32c (readerData r') \<noteq> oc_crc (or_chunks r ! j)"
proof -
  define c where "c = or_chunks r ! j"
  define buffer where "buffer = (case or_buffer r of Some b \<Rightarrow> b | None \<Rightarrow> acquireChunkBuffer pool (or_chunkSize r))"
  have j: "j < length (or_chunks r)" "oc_raw c \<le> length buffer"
    using assms(1) by (auto simp: load_def Let_def simp flip: c_def buffer_def split: if_splits)
  have "\<exists>b. verifyChunk j c (loaded c b r) = (Some ChecksumMismatch, r')"
  proof (cases "oc_codec c = codecRaw")
    case True
    obtain got e where g: "src (oc_raw c) (oc_offset c) = (got, e)" by fastforce
    have "load L pool src r j = (if e \<noteq> None then (e, loaded c (blit buffer 0 got) r) else verifyChunk j c (loaded c (blit buffer 0 got) r))"
      using True j by (simp add: load_def Let_def flip: c_def buffer_def) (simp add: g loaded_def)
    then show ?thesis using assms(1) assms(2) [of "oc_raw c" "oc_offset c"] by (auto simp: g split: if_splits)
  next
    case False
    obtain got e where g: "src (oc_stored c) (oc_offset c) = (got, e)" by fastforce
    obtain dec n where u: "lz_uncompress L got (take (oc_raw c) buffer) = (dec, n)" by fastforce
    have "load L pool src r j = (if oc_stored c > encodedCapacity L (or_chunkSize r) then (Some ObjectPanic, loaded c buffer r)
        else case e of Some e \<Rightarrow> (Some e, loaded c buffer r)
        | None \<Rightarrow> if n \<noteq> Some (oc_raw c) then (Some CorruptCompressedChunk, loaded c (blit buffer 0 dec) r)
                  else verifyChunk j c (loaded c (blit buffer 0 dec) r))"
      using False j by (simp add: load_def Let_def flip: c_def buffer_def) (simp add: g u loaded_def split: option.split)
    then show ?thesis
      using assms(1) assms(2) [of "oc_stored c" "oc_offset c"] by (auto simp: g split: if_splits option.splits)
  qed
  then obtain b where "verifyChunk j c (loaded c b r) = (Some ChecksumMismatch, r')" by blast
  then show "or_index r' = or_index r" "or_length r' = or_length r" "or_chunkSize r' = or_chunkSize r"
    "crc32c (readerData r') \<noteq> oc_crc (or_chunks r ! j)"
    by (auto simp: c_def loaded_def verifyChunk_def split: if_splits)
qed

subsection \<open>Properties\<close>

text \<open>A run-length compressor, which has the documented behaviour.\<close>

definition rleLz4 :: lz4 where
  "rleLz4 = \<lparr>lz_compress = (\<lambda>raw. if raw \<noteq> [] \<and> raw = replicate (length raw) (hd raw) \<and> length raw < 2 ^ 32
       then Ok (hd raw # be_encode 4 (length raw)) else Ok []),
     lz_bound = (\<lambda>n. n + 5),
     lz_uncompress = (\<lambda>stored dst. if stored \<noteq> [] \<and> be_decode (tl stored) = length dst
       then (replicate (length dst) (hd stored), Some (length dst)) else (dst, None))\<rparr>"

lemma rleLz4_ok: "lz4_ok rleLz4"
proof -
  have "length c \<le> length raw + 5 \<and> (\<forall>dst. length dst = length raw \<longrightarrow>
      lz_uncompress rleLz4 c dst = (raw, Some (length raw)))"
    if c: "lz_compress rleLz4 raw = Ok c" "c \<noteq> []" for raw c
  proof -
    have r: "raw = replicate (length raw) (hd raw)" "length raw < 2 ^ 32" "c = hd raw # be_encode 4 (length raw)"
      using c by (auto simp: rleLz4_def split: if_splits)
    then have "be_decode (tl c) = length raw" by simp
    then show ?thesis using r(1,3) by (auto simp: rleLz4_def)
  qed
  then show ?thesis by (simp add: lz4_ok_def) (simp add: rleLz4_def)
qed

definition zeroPool :: "nat \<Rightarrow> bytes" where
  "zeroPool n = replicate n 0"

lemma zeroPool_ok: "pool_ok zeroPool"
  by (simp add: pool_ok_def zeroPool_def)


definition sampleFile :: bytes where
  "sampleFile = (case writeObject rleLz4 None [7, 8, 9] of Inl _ \<Rightarrow> [] | Inr f \<Rightarrow> f)"

lemma sampleFile_written: "writeObject rleLz4 None [7, 8, 9] = Ok sampleFile"
  by (simp add: sampleFile_def writeObject_def writeObjectReader_def objectChunkSize_def storeChunk_def u64_def Let_def)


text \<open>
  Property C19: reading ends. On any file whose layout was accepted - also one that is
  truncated, changed or failing afterwards - the loop of \<open>Read\<close> ends within one turn per
  requested byte, and neither a read nor a seek indexes a slice out of its bounds, as long as
  the reader is not used after a failed read.
\<close>

theorem object_reader_terminates:
  assumes "readObjectLayout L src0 es = Ok l" and "readerAt_ok src" and "pool_ok pool"
  shows "list_all (\<lambda>out. case out of
      ReadOut bs e \<Rightarrow> e \<noteq> Some ObjectOutOfFuel \<and> e \<noteq> Some ObjectPanic
    | SeekOut res \<Rightarrow> True) (runUntilError L pool src (newObjectReaderFromLayout l) ops)"
  unfolding list_all_iff
proof
  fix out
  assume out: "out \<in> set (runUntilError L pool src (newObjectReaderFromLayout l) ops)"
  show "case out of ReadOut bs e \<Rightarrow> e \<noteq> Some ObjectOutOfFuel \<and> e \<noteq> Some ObjectPanic | SeekOut res \<Rightarrow> True"
  proof (cases out)
    case (ReadOut bs e)
    have "\<not> fatal e"
      using runUntilError_ok [OF readObjectLayout_ok [OF assms(1)] assms(2,3) reader_ok_new] out unfolding ReadOut by blast
    then show ?thesis by (simp add: ReadOut fatal_def)
  qed simp
qed

theorem object_reader_terminates_witness:
  "\<exists>l. readObjectLayout rleLz4 (osFile sampleFile) (length sampleFile) = Ok l
    \<and> list_all (\<lambda>out. case out of
        ReadOut bs e \<Rightarrow> e \<noteq> Some ObjectOutOfFuel \<and> e \<noteq> Some ObjectPanic
      | SeekOut res \<Rightarrow> True) (runUntilError rleLz4 zeroPool (osFile (take 53 sampleFile)) (newObjectReaderFromLayout l) [OpRead 3])"
proof -
  obtain chunks where l: "readObjectLayout rleLz4 (osFile sampleFile) (length sampleFile) = Ok (layoutOf chunks (length [7 :: byte, 8, 9]))"
    by (rule written_holds [OF rleLz4_ok sampleFile_written]) simp
  show ?thesis
    using l object_reader_terminates [OF l readerAt_osFile zeroPool_ok] by blast
qed

text \<open>
  Property C38: a failed read leaves a reader that lies. When a chunk is read that does not
  match its checksum, the buffer already holds the bytes of that chunk while the reader still
  takes it for the chunk it held before; a read inside that earlier chunk then
  returns the damaged bytes of the other chunk and reports no error.
\<close>

theorem failed_load_serves_wrong_chunk:
  assumes "or_index r = int i" and "load L pool (osFile file) r j = (Some ChecksumMismatch, r')"
    and "p div or_chunkSize r = i" and "p < or_length r" and "p mod or_chunkSize r < length (readerData r')"
  shows "or_index r' = int i \<and> crc32c (readerData r') \<noteq> oc_crc (or_chunks r ! j)
    \<and> (\<exists>r''. Read L pool (osFile file) (r'\<lparr>or_pos := p\<rparr>) 1 = ([readerData r' ! (p mod or_chunkSize r)], None, r''))"
proof -
  have "snd (osFile file n off) \<noteq> Some ChecksumMismatch" for n off
    by (simp add: osFile_def Let_def)
  then have f: "or_index r' = int i" "or_length r' = or_length r" "or_chunkSize r' = or_chunkSize r"
      "crc32c (readerData r') \<noteq> oc_crc (or_chunks r ! j)"
    using assms(1) load_mismatch [OF assms(2)] by simp_all
  have "take 1 (drop (p mod or_chunkSize r) (readerData r')) = [readerData r' ! (p mod or_chunkSize r)]"
    using assms(5) by (simp add: take_Suc_conv_app_nth)
  then show ?thesis
    using f assms(3-5) by (simp add: Read_def Let_def numeral_2_eq_2)
qed

definition damagedReader :: objectReader where
  "damagedReader = \<lparr>or_chunks = [\<lparr>oc_codec = codecRaw, oc_offset = 76, oc_stored = 65536, oc_raw = 65536, oc_crc = 0\<rparr>,
       \<lparr>oc_codec = codecRaw, oc_offset = 0, oc_stored = 1, oc_raw = 1, oc_crc = crc32c [2]\<rparr>],
     or_length = 65537, or_chunkSize = 65536, or_pos = 65536, or_index = 0, or_buffer = Some (replicate 65536 1),
     or_len = 65536\<rparr>"

lemma crc_differs: "crc32c [3] \<noteq> crc32c [2]"
  by code_simp

lemma damagedReader_load:
  "\<exists>r'. load rleLz4 zeroPool (osFile [3]) damagedReader 1 = (Some ChecksumMismatch, r') \<and> readerData r' = [3]"
  using crc_differs
  by (simp add: damagedReader_def load_def osFile_def verifyChunk_def readerData_def blit_front)

theorem failed_load_serves_wrong_chunk_witness:
  "\<exists>r' r''. load rleLz4 zeroPool (osFile [3]) damagedReader 1 = (Some ChecksumMismatch, r')
    \<and> readerData damagedReader ! 0 = 1 \<and> Read rleLz4 zeroPool (osFile [3]) (r'\<lparr>or_pos := 0\<rparr>) 1 = ([3], None, r'')"
proof -
  obtain r' where r': "load rleLz4 zeroPool (osFile [3]) damagedReader 1 = (Some ChecksumMismatch, r')" "readerData r' = [3]"
    using damagedReader_load by blast
  have "or_index damagedReader = int 0" "0 div or_chunkSize damagedReader = 0" "0 < or_length damagedReader"
    "0 mod or_chunkSize damagedReader < length (readerData r')" "readerData damagedReader ! 0 = 1"
    using r'(2) by (simp_all add: damagedReader_def readerData_def)
  then show ?thesis
    using failed_load_serves_wrong_chunk [OF _ r'(1), of 0 0] r' by auto
qed

end
