(* ===== verification/Cache_Range.thy ===== *)
theory Cache_Range
  imports Object_Format Go_Strings
begin

section \<open>Byte ranges of cached responses\<close>

text \<open>
  The byte ranges of the cache: the range a request asks for (\<open>internal/cacherange\<close> and
  \<open>parseCacheableRange\<close> of \<open>caddy/cachematch\<close>) and how the store serves it
  (\<open>applyCachedRange\<close>, \<open>pooledResponseBody\<close> and \<open>rangedResponseBody\<close> of
  \<open>caddy/simplefs/simplefs.go\<close>). The bodies read through an interface, so their definitions
  take the read and seek operations as arguments, the locale \<open>byte_reader\<close> states what they
  rely on, and it is interpreted on the object reader. A header maps canonical names to
  values. A failing close of a file is not modelled.
\<close>

type_synonym header = "string \<Rightarrow> string list"

definition HeaderValues :: "header \<Rightarrow> string \<Rightarrow> string list" where
  "HeaderValues h k = h (CanonicalHeaderKey k)"

definition HeaderGet :: "header \<Rightarrow> string \<Rightarrow> string" where
  "HeaderGet h k = (case HeaderValues h k of [] \<Rightarrow> [] | v # _ \<Rightarrow> v)"

definition HeaderSet :: "header \<Rightarrow> string \<Rightarrow> string \<Rightarrow> header" where
  "HeaderSet h k v = h(CanonicalHeaderKey k := [v])"

subsection \<open>Strings\<close>

fun Cut :: "string \<Rightarrow> char \<Rightarrow> string \<times> string \<times> bool" where
  "Cut [] sep = ([], [], False)"
| "Cut (c # s) sep =
     (if c = sep then ([], s, True)
      else case Cut s sep of (before, after, found) \<Rightarrow> (c # before, after, found))"

datatype num_error = ErrSyntax | ErrRange

fun parseUintLoop :: "nat \<Rightarrow> string \<Rightarrow> nat \<times> num_error option" where
  "parseUintLoop n [] = (n, None)"
| "parseUintLoop n (c # s) =
     (if \<not> isDigit c then (0, Some ErrSyntax)
      else
        let n = n * 10 + (of_char c - 48)
        in if n \<ge> 2 ^ 64 then (2 ^ 64 - 1, Some ErrRange) else parseUintLoop n s)"

definition ParseUint :: "string \<Rightarrow> nat \<times> num_error option" where
  "ParseUint s = (if s = [] then (0, Some ErrSyntax) else parseUintLoop 0 s)"

text \<open>
  \<open>strings.EqualFold\<close> for a second argument of lower-case ASCII letters: the letters k and s
  also fold with the Kelvin sign and the long s.
\<close>

fun EqualFold :: "string \<Rightarrow> string \<Rightarrow> bool" where
  "EqualFold s [] \<longleftrightarrow> s = []"
| "EqualFold s (c # t) \<longleftrightarrow>
     (s \<noteq> [] \<and> lowerChar (hd s) = c \<and> EqualFold (tl s) t)
   \<or> (c = CHR ''s'' \<and> HasPrefix s [char_of (0xC5 :: nat), char_of (0xBF :: nat)] \<and> EqualFold (drop 2 s) t)
   \<or> (c = CHR ''k'' \<and> HasPrefix s [char_of (0xE2 :: nat), char_of (0x84 :: nat), char_of (0xAA :: nat)]
      \<and> EqualFold (drop 3 s) t)"

subsection \<open>The requested range\<close>

record Spec =
  sr_start :: nat
  sr_end :: nat
  sr_suffixLength :: nat

datatype range_context = RangeUnset | RangeOf Spec | RangeDeferred

definition WithContext :: "range_context \<Rightarrow> Spec \<Rightarrow> range_context" where
  "WithContext ctx spec = RangeOf spec"

definition FromContext :: "range_context \<Rightarrow> Spec option" where
  "FromContext ctx = (case ctx of RangeOf spec \<Rightarrow> Some spec | _ \<Rightarrow> None)"

definition WithoutRange :: "range_context \<Rightarrow> range_context" where
  "WithoutRange ctx = RangeDeferred"

definition parseCacheableRange :: "string \<Rightarrow> Spec option" where
  "parseCacheableRange value =
     (case Cut (TrimSpace value) CHR ''='' of (unit, interval, ok) \<Rightarrow>
        if \<not> ok \<or> \<not> EqualFold (TrimSpace unit) ''bytes'' \<or> Contains interval '','' then None
        else (case Cut (TrimSpace interval) CHR ''-'' of (startText, endText, ok) \<Rightarrow>
          if \<not> ok then None
          else
            let startText = TrimSpace startText; endText = TrimSpace endText
            in if startText = [] then
                 (if endText = [] then None
                  else case ParseUint endText of (suffixLen, err) \<Rightarrow>
                    if err = None \<and> suffixLen > 0
                    then Some \<lparr>sr_start = 0, sr_end = 0, sr_suffixLength = suffixLen\<rparr> else None)
               else
                 (case ParseUint startText of (start, err) \<Rightarrow>
                    if err \<noteq> None then None
                    else if endText = [] then None
                    else (case ParseUint endText of (end', err) \<Rightarrow>
                            if err = None \<and> end' \<ge> start
                            then Some \<lparr>sr_start = start, sr_end = end', sr_suffixLength = 0\<rparr> else None))))"

definition cacheableRange :: "string \<Rightarrow> bool" where
  "cacheableRange value \<longleftrightarrow> parseCacheableRange value \<noteq> None"

subsection \<open>Response bodies\<close>

record 's pooledResponseBody =
  pb_reader :: 's
  pb_remaining :: nat
  pb_bodyStart :: nat
  pb_open :: bool
  pb_removed :: bool

definition releasePooled :: "'s pooledResponseBody \<Rightarrow> 's pooledResponseBody" where
  "releasePooled b = b\<lparr>pb_open := False\<rparr>"

definition seekBody :: "('s \<Rightarrow> nat \<Rightarrow> (object_error + int) \<times> 's) \<Rightarrow> 's pooledResponseBody \<Rightarrow> nat
    \<Rightarrow> object_error + 's pooledResponseBody" where
  "seekBody seek b offset =
     (if \<not> pb_open b \<or> offset > pb_remaining b then Err SeekOutOfBounds
      else (case seek (pb_reader b) (pb_bodyStart b + offset) of
              (Inl e, s) \<Rightarrow> Err e
            | (Inr _, s) \<Rightarrow> Ok (b\<lparr>pb_reader := s, pb_remaining := pb_remaining b - offset\<rparr>)))"

definition pooledRead :: "('s \<Rightarrow> nat \<Rightarrow> bytes \<times> object_error option \<times> 's) \<Rightarrow> 's pooledResponseBody \<Rightarrow> nat
    \<Rightarrow> bytes \<times> object_error option \<times> 's pooledResponseBody" where
  "pooledRead read b n =
     (if pb_remaining b = 0 then ([], Some ObjectEOF, releasePooled b)
      else
        let n = min n (pb_remaining b)
        in case (if pb_open b then read (pb_reader b) n else ([], Some ObjectIO, pb_reader b)) of
             (bs, err, s) \<Rightarrow>
               let b = b\<lparr>pb_reader := s, pb_remaining := pb_remaining b - length bs\<rparr>;
                   err = (if err = Some ObjectEOF \<and> pb_remaining b > 0 then Some ObjectUnexpectedEOF else err)
               in if pb_remaining b = 0
                  then (bs, if err = Some ObjectEOF then None else err, releasePooled b)
                  else if err \<noteq> None then (bs, err, releasePooled (b\<lparr>pb_removed := True\<rparr>))
                  else (bs, err, b))"

datatype 's base_body = NoBody | PooledBody "'s pooledResponseBody"

definition baseRead :: "('s \<Rightarrow> nat \<Rightarrow> bytes \<times> object_error option \<times> 's) \<Rightarrow> 's base_body \<Rightarrow> nat
    \<Rightarrow> bytes \<times> object_error option \<times> 's base_body" where
  "baseRead read body n =
     (case body of
        NoBody \<Rightarrow> ([], Some ObjectEOF, NoBody)
      | PooledBody b \<Rightarrow> (case pooledRead read b n of (bs, e, b) \<Rightarrow> (bs, e, PooledBody b)))"

definition baseClose :: "'s base_body \<Rightarrow> 's base_body" where
  "baseClose body = (case body of NoBody \<Rightarrow> NoBody | PooledBody b \<Rightarrow> PooledBody (releasePooled b))"

text \<open>
  \<open>io.CopyN(io.Discard, body, left)\<close>: reads of at most 8 KiB until nothing is left; every turn
  but the last reads a byte, so the fuel is one more than what is left.
\<close>

fun discardLoop :: "('s \<Rightarrow> nat \<Rightarrow> bytes \<times> object_error option \<times> 's) \<Rightarrow> nat \<Rightarrow> nat \<Rightarrow> 's base_body
    \<Rightarrow> object_error option \<times> 's base_body" where
  "discardLoop read 0 left body = (Some ObjectOutOfFuel, body)"
| "discardLoop read (Suc fuel) left body =
     (if left = 0 then (None, body)
      else case baseRead read body (min 8192 left) of
             (bs, err, body) \<Rightarrow>
               if left - length bs = 0 then (None, body)
               else if err \<noteq> None then (err, body)
               else discardLoop read fuel (left - length bs) body)"

record 's rangedResponseBody =
  rb_body :: "'s base_body"
  rb_skip :: nat
  rb_remaining :: nat
  rb_closed :: bool

definition rangedClose :: "'s rangedResponseBody \<Rightarrow> 's rangedResponseBody" where
  "rangedClose b = (if rb_closed b then b else b\<lparr>rb_closed := True, rb_body := baseClose (rb_body b)\<rparr>)"

definition rangedRead :: "('s \<Rightarrow> nat \<Rightarrow> bytes \<times> object_error option \<times> 's) \<Rightarrow> 's rangedResponseBody \<Rightarrow> nat
    \<Rightarrow> bytes \<times> object_error option \<times> 's rangedResponseBody" where
  "rangedRead read b n =
     (if rb_closed b then ([], Some ObjectEOF, b)
      else
        case (if rb_skip b > 0 then discardLoop read (Suc (rb_skip b)) (rb_skip b) (rb_body b) else (None, rb_body b)) of
          (Some e, body) \<Rightarrow> ([], Some e, rangedClose (b\<lparr>rb_body := body\<rparr>))
        | (None, body) \<Rightarrow>
            let b = b\<lparr>rb_body := body, rb_skip := 0\<rparr>
            in if rb_remaining b = 0 then ([], Some ObjectEOF, rangedClose b)
               else
                 (case baseRead read (rb_body b) (min n (rb_remaining b)) of
                    (bs, err, body) \<Rightarrow>
                      let b = b\<lparr>rb_body := body, rb_remaining := rb_remaining b - length bs\<rparr>
                      in if err \<noteq> None \<or> rb_remaining b = 0 then (bs, err, rangedClose b) else (bs, err, b)))"

datatype 's response_body = BaseBody "'s base_body" | RangedBody "'s rangedResponseBody"

definition bodyRead :: "('s \<Rightarrow> nat \<Rightarrow> bytes \<times> object_error option \<times> 's) \<Rightarrow> 's response_body \<Rightarrow> nat
    \<Rightarrow> bytes \<times> object_error option \<times> 's response_body" where
  "bodyRead read body n =
     (case body of
        BaseBody b \<Rightarrow> (case baseRead read b n of (bs, e, b) \<Rightarrow> (bs, e, BaseBody b))
      | RangedBody b \<Rightarrow> (case rangedRead read b n of (bs, e, b) \<Rightarrow> (bs, e, RangedBody b)))"

text \<open>\<open>io.Copy(w, body)\<close> with its buffer of 32 KiB: the bytes written and the error.\<close>

fun copyLoop :: "('s \<Rightarrow> nat \<Rightarrow> bytes \<times> object_error option \<times> 's) \<Rightarrow> nat \<Rightarrow> 's response_body \<Rightarrow> bytes
    \<Rightarrow> bytes \<times> object_error option" where
  "copyLoop read 0 body out = (out, Some ObjectOutOfFuel)"
| "copyLoop read (Suc fuel) body out =
     (case bodyRead read body 32768 of
        (bs, err, body) \<Rightarrow>
          if err = Some ObjectEOF then (out @ bs, None)
          else if err \<noteq> None then (out @ bs, err)
          else copyLoop read fuel body (out @ bs))"

subsection \<open>Selecting the range\<close>

record 's response =
  rs_statusCode :: nat
  rs_status :: string
  rs_header :: header
  rs_contentLength :: nat
  rs_body :: "'s response_body"

definition cachedBodyRange :: "nat \<Rightarrow> header \<Rightarrow> (nat \<times> nat \<times> nat) option" where
  "cachedBodyRange statusCode h =
     (if statusCode = 206 then
        (case Cut (TrimSpace (HeaderGet h ''Content-Range'')) CHR '' '' of (unit, interval, found) \<Rightarrow>
         case Cut interval CHR ''/'' of (bounds, totalText, foundTotal) \<Rightarrow>
         case Cut bounds CHR ''-'' of (startText, endText, foundBounds) \<Rightarrow>
           if \<not> found \<or> \<not> foundTotal \<or> \<not> foundBounds \<or> \<not> EqualFold unit ''bytes'' \<or> totalText = ''*'' then None
           else
             let start = fst (ParseUint startText); end' = fst (ParseUint endText); tot = fst (ParseUint totalText)
             in if tot > 0 \<and> start \<le> end' \<and> end' < tot then Some (start, end', tot) else None)
      else
        (case ParseUint (HeaderGet h ''Content-Length'') of (tot, err) \<Rightarrow>
           if err \<noteq> None \<or> tot = 0 then None else Some (0, tot - 1, tot)))"

definition resolveRange :: "Spec \<Rightarrow> nat \<Rightarrow> nat \<times> nat" where
  "resolveRange requested tot =
     (if sr_suffixLength requested > 0
      then (if sr_suffixLength requested \<ge> tot then 0 else tot - sr_suffixLength requested, tot - 1)
      else (sr_start requested, sr_end requested))"

definition rangeHeaders :: "header \<Rightarrow> string \<Rightarrow> string \<Rightarrow> header" where
  "rangeHeaders h contentRange contentLength =
     HeaderSet (HeaderSet (HeaderSet h ''Accept-Ranges'' ''bytes'') ''Content-Range'' contentRange)
       ''Content-Length'' contentLength"

definition applyCachedRange :: "('s \<Rightarrow> nat \<Rightarrow> (object_error + int) \<times> 's) \<Rightarrow> 's base_body \<Rightarrow> 's response \<Rightarrow> Spec
    \<Rightarrow> object_error + 's response" where
  "applyCachedRange seek body response requested =
     (case cachedBodyRange (rs_statusCode response) (rs_header response) of
        None \<Rightarrow> Ok (response\<lparr>rs_body := BaseBody body\<rparr>)
      | Some (bodyStart, bodyEnd, tot) \<Rightarrow>
          (case resolveRange requested tot of (start, end') \<Rightarrow>
             if start \<ge> tot then
               Ok (response\<lparr>rs_body := BaseBody NoBody, rs_statusCode := 416,
                     rs_status := ''416 Requested Range Not Satisfiable'', rs_contentLength := 0,
                     rs_header := rangeHeaders (rs_header response) (''bytes */'' @ decimal tot) ''0''\<rparr>)
             else
               let end' = min end' (tot - 1)
               in if start < bodyStart \<or> start > bodyEnd \<or> end' > bodyEnd then Ok (response\<lparr>rs_body := BaseBody body\<rparr>)
                  else
                    let length' = u64 (u64 (end' + 2 ^ 64 - start) + 1); skip = start - bodyStart
                    in case (case body of
                               PooledBody b \<Rightarrow>
                                 if pb_open b then map_sum id (\<lambda>b. (PooledBody b, 0)) (seekBody seek b skip)
                                 else Ok (body, skip)
                             | NoBody \<Rightarrow> Ok (body, skip)) of
                         Inl e \<Rightarrow> Err e
                       | Inr (body, skip) \<Rightarrow>
                           Ok (response\<lparr>rs_body := RangedBody \<lparr>rb_body = body, rb_skip = skip, rb_remaining = length', rb_closed = False\<rparr>,
                                 rs_statusCode := 206, rs_status := ''206 Partial Content'', rs_contentLength := length',
                                 rs_header := rangeHeaders (rs_header response)
                                   (''bytes '' @ decimal start @ ''-'' @ decimal end' @ ''/'' @ decimal tot)
                                   (decimal length')\<rparr>)))"

subsection \<open>What the bodies rely on\<close>

text \<open>
  \<open>at s v p\<close>: the reader state \<open>s\<close> stands at position \<open>p\<close> of the contents \<open>v\<close>.
\<close>

locale byte_reader =
  fixes read :: "'s \<Rightarrow> nat \<Rightarrow> bytes \<times> object_error option \<times> 's"
    and seek :: "'s \<Rightarrow> nat \<Rightarrow> (object_error + int) \<times> 's"
    and at :: "'s \<Rightarrow> bytes \<Rightarrow> nat \<Rightarrow> bool"
  assumes read_bytes: "at s v p \<Longrightarrow> p < length v \<Longrightarrow>
      \<exists>s'. read s n = (take n (drop p v), None, s') \<and> at s' v (min (p + n) (length v))"
    and seek_to: "at s v p \<Longrightarrow> q \<le> length v \<Longrightarrow> \<exists>s'. seek s q = (Ok (int q), s') \<and> at s' v q"
begin

definition pooled_ok :: "bytes \<Rightarrow> nat \<Rightarrow> 's pooledResponseBody \<Rightarrow> bool" where
  "pooled_ok v p b \<longleftrightarrow> p + pb_remaining b \<le> length v \<and> (0 < pb_remaining b \<longrightarrow> pb_open b \<and> at (pb_reader b) v p)"

lemma pooledRead_bytes:
  assumes "pooled_ok v p b" "0 < pb_remaining b" "0 < n"
  shows "\<exists>b'. pooledRead read b n = (take (min n (pb_remaining b)) (drop p v), None, b')
    \<and> pooled_ok v (p + min n (pb_remaining b)) b' \<and> pb_remaining b' = pb_remaining b - min n (pb_remaining b)"
proof -
  define m where "m = min n (pb_remaining b)"
  have m: "0 < m" "m \<le> pb_remaining b" "p + pb_remaining b \<le> length v" "pb_open b" "at (pb_reader b) v p"
    using assms by (auto simp: m_def pooled_ok_def)
  then obtain s' where s': "read (pb_reader b) m = (take m (drop p v), None, s')" "at s' v (p + m)"
    using read_bytes [of "pb_reader b" v p m] by auto
  have len: "length (take m (drop p v)) = m"
    using m by simp
  show ?thesis
    using m s' assms(2) unfolding pooledRead_def
    by (auto simp: Let_def len releasePooled_def pooled_ok_def simp flip: m_def simp del: length_take)
qed

lemma seekBody_to:
  assumes "pooled_ok v (pb_bodyStart b) b" "pb_open b" "at (pb_reader b) v p" "k \<le> pb_remaining b"
  shows "\<exists>b'. seekBody seek b k = Ok b' \<and> pooled_ok v (pb_bodyStart b + k) b' \<and> pb_remaining b' = pb_remaining b - k"
proof -
  have "pb_bodyStart b + k \<le> length v"
    using assms(1,4) by (simp add: pooled_ok_def)
  then obtain s' where "seek (pb_reader b) (pb_bodyStart b + k) = (Ok (int (pb_bodyStart b + k)), s')" "at s' v (pb_bodyStart b + k)"
    using seek_to [OF assms(3)] by blast
  then show ?thesis
    using assms by (auto simp: seekBody_def pooled_ok_def)
qed

lemma copy_ranged:
  assumes "pooled_ok v p b" "k \<le> pb_remaining b" "k < fuel"
  shows "copyLoop read fuel (RangedBody \<lparr>rb_body = PooledBody b, rb_skip = 0, rb_remaining = k, rb_closed = False\<rparr>) out
    = (out @ take k (drop p v), None)"
  using assms
proof (induction fuel arbitrary: k p b out)
  case (Suc fuel)
  show ?case
  proof (cases "k = 0")
    case True
    then show ?thesis by (simp add: bodyRead_def rangedRead_def)
  next
    case False
    define m where "m = min 32768 k"
    have mm: "min 32768 m = m" by (simp add: m_def)
    have m: "0 < m" "m \<le> k" "min m (pb_remaining b) = m" "0 < pb_remaining b"
      using False Suc.prems(2) by (auto simp: m_def)
    obtain b' where b': "pooledRead read b m = (take m (drop p v), None, b')" "pooled_ok v (p + m) b'"
      "pb_remaining b' = pb_remaining b - m"
      using pooledRead_bytes [OF Suc.prems(1) m(4,1)] m(3) by auto
    have len: "length (take m (drop p v)) = m"
      using m Suc.prems(1,2) by (auto simp: pooled_ok_def min_def)
    have split: "take k (drop p v) = take m (drop p v) @ take (k - m) (drop (p + m) v)"
      using take_add [of m "k - m" "drop p v"] m(2) by (simp add: add.commute)
    show ?thesis
    proof (cases "k = m")
      case True
      obtain fuel' where f: "fuel = Suc fuel'"
        using Suc.prems(3) False by (cases fuel) auto
      show ?thesis
        using True b'(1) len False
        by (simp add: f mm bodyRead_def rangedRead_def baseRead_def Let_def rangedClose_def del: length_take)
    next
      case k: False
      have "copyLoop read fuel (RangedBody \<lparr>rb_body = PooledBody b', rb_skip = 0, rb_remaining = k - m, rb_closed = False\<rparr>)
          (out @ take m (drop p v)) = (out @ take k (drop p v), None)"
        unfolding split using Suc.IH [OF b'(2), of "k - m"] b'(3) m Suc.prems(2,3) by simp
      then show ?thesis
        using k m b'(1) len False
        by (simp add: bodyRead_def rangedRead_def baseRead_def Let_def del: length_take flip: m_def)
    qed
  qed
qed simp

lemma range_served:
  assumes b: "pooled_ok v (pb_bodyStart b) b" "pb_open b" "at (pb_reader b) v (pb_bodyStart b)" "pb_remaining b = t"
    and cr: "cachedBodyRange (rs_statusCode resp) (rs_header resp) = Some (0, t - 1, t)" "0 < t" "length v < 2 ^ 63"
    and rg: "resolveRange spec t = (start, e)" "start < t" "start \<le> e"
  defines "k \<equiv> min e (t - 1) - start + 1"
  shows "\<exists>body. applyCachedRange seek (PooledBody b) resp spec = Ok (resp\<lparr>rs_body := body, rs_statusCode := 206,
      rs_status := ''206 Partial Content'', rs_contentLength := k,
      rs_header := rangeHeaders (rs_header resp)
        (''bytes '' @ decimal start @ ''-'' @ decimal (min e (t - 1)) @ ''/'' @ decimal t) (decimal k)\<rparr>)
    \<and> copyLoop read (k + 1) body [] = (take k (drop (pb_bodyStart b + start) v), None)"
proof -
  have t: "t < 2 ^ 63" "pb_bodyStart b + t \<le> length v"
    using b(1,4) cr(3) by (auto simp: pooled_ok_def)
  obtain b' where b': "seekBody seek b start = Ok b'" "pooled_ok v (pb_bodyStart b + start) b'" "pb_remaining b' = t - start"
    using seekBody_to [OF b(1-3), of start] b(4) rg(2) by auto
  have k: "k \<le> pb_remaining b'"
    using rg b'(3) by (auto simp: k_def)
  have "min e (t - 1) + 2 ^ 64 - start = min e (t - 1) - start + 2 ^ 64"
    using rg(2,3) by simp
  then have "u64 (min e (t - 1) + 2 ^ 64 - start) = min e (t - 1) - start"
    using t(1) by (simp add: u64_def)
  then have u: "u64 (u64 (min e (t - 1) + 2 ^ 64 - start) + 1) = k"
    using t(1) by (simp add: k_def)
  have g: "\<not> t \<le> start" "\<not> start < 0" "\<not> t - 1 < start" "\<not> t - 1 < min e (t - 1)"
    using rg(2) by simp_all
  have "applyCachedRange seek (PooledBody b) resp spec = Ok (resp\<lparr>
      rs_body := RangedBody \<lparr>rb_body = PooledBody b', rb_skip = 0, rb_remaining = k, rb_closed = False\<rparr>, rs_statusCode := 206,
      rs_status := ''206 Partial Content'', rs_contentLength := k,
      rs_header := rangeHeaders (rs_header resp)
        (''bytes '' @ decimal start @ ''-'' @ decimal (min e (t - 1)) @ ''/'' @ decimal t) (decimal k)\<rparr>)"
    by (simp only: applyCachedRange_def cr(1) option.case prod.case rg(1) Let_def g if_False if_True b(2) base_body.case
        b'(1) u map_sum.simps sum.case diff_zero simp_thms)
  moreover have "copyLoop read (k + 1) (RangedBody \<lparr>rb_body = PooledBody b', rb_skip = 0, rb_remaining = k, rb_closed = False\<rparr>) []
      = (take k (drop (pb_bodyStart b + start) v), None)"
    using copy_ranged [OF b'(2) k, of "k + 1" "[]"] by simp
  ultimately show ?thesis
    by (intro exI [where x = "RangedBody \<lparr>rb_body = PooledBody b', rb_skip = 0, rb_remaining = k, rb_closed = False\<rparr>"] conjI)
qed

end

subsection \<open>The object reader behind a body\<close>

text \<open>
  An object reader together with what it reads from: the compressor, the pools of buffers
  and the file.
\<close>

type_synonym object_handle = "lz4 \<times> (nat \<Rightarrow> bytes) \<times> bytes \<times> objectReader"

definition handleRead :: "object_handle \<Rightarrow> nat \<Rightarrow> bytes \<times> object_error option \<times> object_handle" where
  "handleRead h n =
     (case h of (L, pool, disk, r) \<Rightarrow> (case Read L pool (osFile disk) r n of (bs, e, r') \<Rightarrow> (bs, e, (L, pool, disk, r'))))"

definition handleSeek :: "object_handle \<Rightarrow> nat \<Rightarrow> (object_error + int) \<times> object_handle" where
  "handleSeek h q = (case h of (L, pool, disk, r) \<Rightarrow> (case Seek r (int q) 0 of (res, r') \<Rightarrow> (res, (L, pool, disk, r'))))"

definition handleAt :: "object_handle \<Rightarrow> bytes \<Rightarrow> nat \<Rightarrow> bool" where
  "handleAt h v p \<longleftrightarrow> (case h of (L, pool, disk, r) \<Rightarrow> \<exists>chunks. holds_object L v disk chunks \<and> pool_ok pool \<and> object_at v chunks r p)"

lemma handleRead_bytes:
  assumes "handleAt h v p" "p < length v"
  shows "\<exists>h'. handleRead h n = (take n (drop p v), None, h') \<and> handleAt h' v (min (p + n) (length v))"
proof -
  obtain L pool disk r chunks where h: "h = (L, pool, disk, r)" "holds_object L v disk chunks" "pool_ok pool" "object_at v chunks r p"
    using assms(1) by (auto simp: handleAt_def split: prod.splits)
  obtain r' where "Read L pool (osFile disk) r n = (take n (drop p v), None, r')" "object_at v chunks r' (min (p + n) (length v))"
    using Read_written(1) [OF h(2-4) assms(2)] by blast
  then show ?thesis
    using h by (auto simp: handleRead_def handleAt_def)
qed

lemma handleSeek_to:
  assumes "handleAt h v p" "q \<le> length v"
  shows "\<exists>h'. handleSeek h q = (Ok (int q), h') \<and> handleAt h' v q"
proof -
  obtain L pool disk r chunks where h: "h = (L, pool, disk, r)" "holds_object L v disk chunks" "pool_ok pool" "object_at v chunks r p"
    using assms(1) by (auto simp: handleAt_def split: prod.splits)
  have "bytesSeek v p (int q) 0 = Ok (int q)"
    using assms(2) by (simp add: bytesSeek_def)
  then obtain r' where "Seek r (int q) 0 = (Ok (int q), r')" "object_at v chunks r' q"
    using Seek_bytes [OF h(4), of "int q" 0] by (cases "Seek r (int q) 0") simp
  then show ?thesis
    using h by (auto simp: handleSeek_def handleAt_def)
qed

interpretation cached_object: byte_reader handleRead handleSeek handleAt
  by unfold_locales (fact handleRead_bytes handleSeek_to)+

subsection \<open>Numbers and names\<close>

lemma decimal_value:
  "list_all isDigit (decimal n) \<and> foldl (\<lambda>n c. n * 10 + (int (of_char c) - 48)) 0 (decimal n) = int n"
proof -
  have digit: "isDigit (digit k)" "int (of_char (digit k)) - 48 = int (k mod 10)" for k
  proof -
    have "k mod 10 < 10" by simp
    then show "isDigit (digit k)" "int (of_char (digit k)) - 48 = int (k mod 10)"
      by (simp_all add: between_def digit_def)
  qed
  show ?thesis
  proof (induction n rule: decimal.induct)
    case (1 n)
    show ?case
    proof (cases "n < 10")
      case True
      then show ?thesis using digit [of n] by (simp add: decimal.simps [of n])
    next
      case False
      then have "decimal n = decimal (n div 10) @ [digit n]" by (simp add: decimal.simps [of n])
      then show ?thesis using 1 [OF False] digit [of n] by (simp add: zmod_int zdiv_int)
    qed
  qed
qed

lemma foldl_digits_ge:
  "\<lbrakk>list_all isDigit s; 0 \<le> m\<rbrakk> \<Longrightarrow> m \<le> foldl (\<lambda>n c. n * 10 + (int (of_char c) - 48)) m s"
proof (induction s arbitrary: m)
  case (Cons c s)
  have c: "(48 :: nat) \<le> of_char c"
    using Cons.prems(1) by (simp add: between_def)
  then have "m * 10 + (int (of_char c) - 48) \<le> foldl (\<lambda>n c. n * 10 + (int (of_char c) - 48)) (m * 10 + (int (of_char c) - 48)) s"
    using Cons.prems by (intro Cons.IH) auto
  with c Cons.prems(2) show ?case
    by simp
qed simp

lemma parseUintLoop_digits:
  "\<lbrakk>list_all isDigit s; foldl (\<lambda>n c. n * 10 + (int (of_char c) - 48)) (int n) s = int m; m < 2 ^ 64\<rbrakk>
    \<Longrightarrow> parseUintLoop n s = (m, None)"
proof (induction s arbitrary: n)
  case (Cons c s)
  let ?n = "n * 10 + (of_char c - 48)"
  have n: "int ?n = int n * 10 + (int (of_char c) - 48)"
    using Cons.prems(1) by (simp add: between_def of_nat_diff)
  have f: "foldl (\<lambda>n c. n * 10 + (int (of_char c) - 48)) (int ?n) s = int m"
    using Cons.prems(2) by (simp only: n foldl.simps)
  have "?n \<le> m"
    using foldl_digits_ge [of s "int ?n"] Cons.prems(1) unfolding f by simp
  then show ?case
    using Cons.IH [OF _ f] Cons.prems(1,3) by (simp add: Let_def del: of_nat_add of_nat_mult)
qed simp

lemma decimal_chars: "c \<in> set (decimal n) \<Longrightarrow> c \<noteq> CHR ''-'' \<and> c \<noteq> CHR '','' \<and> c \<noteq> CHR ''=''"
  using decimal_value [of n] by (auto simp: list_all_iff between_def)

lemma Cut_append: "sep \<notin> set a \<Longrightarrow> Cut (a @ sep # b) sep = (a, b, True)"
  by (induction a) auto

lemma Contains_char: "Contains s [c] \<longleftrightarrow> c \<in> set s"
  by (induction s) (auto simp: HasPrefix_def)

lemma ParseUint_decimal: "n < 2 ^ 64 \<Longrightarrow> ParseUint (decimal n) = (n, None)"
  using parseUintLoop_digits [of "decimal n" 0 n] decimal_value [of n] by (simp add: ParseUint_def decimal_nonempty)

subsection \<open>Properties\<close>

text \<open>The ranges a request can ask for, and how a client writes them.\<close>

definition range_ok :: "Spec \<Rightarrow> bool" where
  "range_ok spec \<longleftrightarrow>
     (if sr_suffixLength spec > 0 then sr_start spec = 0 \<and> sr_end spec = 0 \<and> sr_suffixLength spec < 2 ^ 64
      else sr_start spec \<le> sr_end spec \<and> sr_end spec < 2 ^ 64)"

definition printRange :: "Spec \<Rightarrow> string" where
  "printRange spec = ''bytes='' @ (if sr_suffixLength spec > 0 then [] else decimal (sr_start spec)) @ ''-''
     @ decimal (if sr_suffixLength spec > 0 then sr_suffixLength spec else sr_end spec)"

lemma parseUintLoop_range: "\<lbrakk>parseUintLoop m s = (n, None); m < 2 ^ 64\<rbrakk> \<Longrightarrow> n < 2 ^ 64"
  by (induction s arbitrary: m) (auto simp: Let_def split: if_splits)

lemma ParseUint_range: "ParseUint s = (n, None) \<Longrightarrow> n < 2 ^ 64"
  using parseUintLoop_range [of 0 s n] by (simp add: ParseUint_def split: if_splits)

lemma parse_range_ok: "parseCacheableRange value = Some spec \<Longrightarrow> range_ok spec"
  unfolding parseCacheableRange_def
  by (auto simp: range_ok_def Let_def dest: ParseUint_range split: prod.splits if_splits)

lemma TrimSpace_decimal: "TrimSpace (decimal n) = decimal n"
  by (rule TrimSpace_graphic [OF decimal_graphic])

lemma parse_print:
  assumes "a = [] \<or> a = decimal m"
  shows "Cut (TrimSpace (''bytes='' @ a @ ''-'' @ decimal n)) CHR ''='' = (''bytes'', a @ ''-'' @ decimal n, True)"
    "\<not> Contains (a @ ''-'' @ decimal n) '',''" "Cut (TrimSpace (a @ ''-'' @ decimal n)) CHR ''-'' = (a, decimal n, True)"
proof -
  have g: "list_all graphic a" "list_all graphic (decimal n)"
    using assms decimal_graphic by auto
  have "list_all graphic ''bytes=''" "list_all graphic ''-''"
    by code_simp+
  then have t: "TrimSpace (''bytes='' @ a @ ''-'' @ decimal n) = ''bytes'' @ CHR ''='' # (a @ ''-'' @ decimal n)"
    "TrimSpace (a @ ''-'' @ decimal n) = a @ CHR ''-'' # decimal n"
    using g by (simp_all add: TrimSpace_graphic)
  show "Cut (TrimSpace (''bytes='' @ a @ ''-'' @ decimal n)) CHR ''='' = (''bytes'', a @ ''-'' @ decimal n, True)"
    unfolding t by (rule Cut_append) simp
  show "Cut (TrimSpace (a @ ''-'' @ decimal n)) CHR ''-'' = (a, decimal n, True)"
    unfolding t using assms(1) decimal_chars by (intro Cut_append) auto
  show "\<not> Contains (a @ ''-'' @ decimal n) '',''"
    using assms decimal_chars by (auto simp: Contains_char)
qed

lemma bytes_unit: "EqualFold (TrimSpace ''bytes'') ''bytes''"
  by code_simp

lemma parse_printRange:
  assumes ok: "range_ok spec"
  shows "parseCacheableRange (printRange spec) = Some spec"
proof (cases "sr_suffixLength spec > 0")
  case True
  have c: "parseCacheableRange (printRange spec) = Some \<lparr>sr_start = 0, sr_end = 0, sr_suffixLength = sr_suffixLength spec\<rparr>"
    using True ok ParseUint_decimal [of "sr_suffixLength spec"]
    unfolding parseCacheableRange_def printRange_def if_P [OF True]
      parse_print [of "[]" 0 "sr_suffixLength spec", OF disjI1 [OF refl]] prod.case
    by (auto simp: bytes_unit TrimSpace_decimal decimal_nonempty range_ok_def Contains_char
        simp del: EqualFold.simps Contains.simps dest: decimal_chars)
  show ?thesis
    unfolding c using True ok by (cases spec) (simp add: range_ok_def)
next
  case False
  have n: "sr_start spec < 2 ^ 64" "sr_end spec < 2 ^ 64"
    using ok False by (auto simp: range_ok_def)
  have c: "parseCacheableRange (printRange spec) = Some \<lparr>sr_start = sr_start spec, sr_end = sr_end spec, sr_suffixLength = 0\<rparr>"
    using False ok ParseUint_decimal [OF n(1)] ParseUint_decimal [OF n(2)]
    unfolding parseCacheableRange_def printRange_def if_not_P [OF False]
      parse_print [of "decimal (sr_start spec)" "sr_start spec" "sr_end spec", OF disjI2 [OF refl]] prod.case
    by (auto simp: bytes_unit TrimSpace_decimal decimal_nonempty range_ok_def Contains_char
        simp del: EqualFold.simps Contains.simps dest: decimal_chars)
  show ?thesis
    unfolding c using False by (cases spec) simp
qed

text \<open>
  Property C39: the range syntax is read back. Exactly the single ranges with both bounds in
  order and the non-empty suffix ranges, with numbers that fit in 64 bits, are
  results of parsing a Range header, and the header a client writes for one of
  them is parsed to it.
\<close>

theorem parse_range_roundtrip:
  "((\<exists>value. parseCacheableRange value = Some spec) \<longleftrightarrow> range_ok spec)
   \<and> (range_ok spec \<longleftrightarrow> parseCacheableRange (printRange spec) = Some spec)"
  using parse_range_ok parse_printRange by blast

lemma written_handle:
  assumes "lz4_ok L" "pool_ok pool" "writeObject L None v = Ok disk" "length v < 2 ^ 47"
    and "newObjectReader L (osFile disk) (length disk) = Ok r"
  shows "handleAt (L, pool, disk, r) v 0"
proof -
  obtain chunks where l: "readObjectLayout L (osFile disk) (length disk) = Ok (layoutOf chunks (length v))"
    and h: "holds_object L v disk chunks"
    by (rule written_holds [OF assms(1,3,4)])
  have "r = newObjectReaderFromLayout (layoutOf chunks (length v))"
    using assms(5) by (simp add: newObjectReader_def l)
  then have "object_at v chunks r 0"
    by (simp add: object_at_def reader_ok_new) (simp add: newObjectReaderFromLayout_def)
  then show ?thesis
    using h assms(2) by (auto simp: handleAt_def)
qed

lemma header_names:
  "CanonicalHeaderKey ''Content-Range'' = ''Content-Range''" "CanonicalHeaderKey ''Content-Length'' = ''Content-Length''"
  "CanonicalHeaderKey ''Accept-Ranges'' = ''Accept-Ranges''"
  by code_simp+

lemma rangeHeaders_get:
  "HeaderGet (rangeHeaders h cr cl) ''Content-Range'' = cr" "HeaderGet (rangeHeaders h cr cl) ''Content-Length'' = cl"
  by (simp_all add: HeaderGet_def HeaderValues_def rangeHeaders_def HeaderSet_def header_names)

text \<open>The body of a cached response: the reader of its object, moved to the first byte of the body.\<close>

definition storedBody :: "lz4 \<Rightarrow> (nat \<Rightarrow> bytes) \<Rightarrow> bytes \<Rightarrow> objectReader \<Rightarrow> nat \<Rightarrow> nat \<Rightarrow> object_handle base_body" where
  "storedBody L pool disk r bodyStart contentLength =
     PooledBody \<lparr>pb_reader = snd (handleSeek (L, pool, disk, r) bodyStart), pb_remaining = contentLength,
       pb_bodyStart = bodyStart, pb_open = True, pb_removed = False\<rparr>"

text \<open>The bytes a range asks for, of a body of \<open>n\<close> bytes: the last byte may lie behind its end.\<close>

definition firstByte :: "Spec \<Rightarrow> nat \<Rightarrow> nat" where
  "firstByte spec n = (if sr_suffixLength spec > 0 then n - sr_suffixLength spec else sr_start spec)"

definition lastByte :: "Spec \<Rightarrow> nat \<Rightarrow> nat" where
  "lastByte spec n = (if sr_suffixLength spec > 0 then n - 1 else sr_end spec)"

lemma resolveRange_bytes: "resolveRange spec n = (firstByte spec n, lastByte spec n)"
  by (simp add: resolveRange_def firstByte_def lastByte_def)


definition sampleResponse :: "object_handle response" where
  "sampleResponse = \<lparr>rs_statusCode = 200, rs_status = ''200 OK'', rs_header = (\<lambda>_. [])(''Content-Length'' := [''2'']),
     rs_contentLength = 2, rs_body = BaseBody NoBody\<rparr>"


end
