(* ===== verification/Http_Conditional.thy ===== *)
theory Http_Conditional
  imports Cache_Range
begin

section \<open>Request preconditions\<close>

text \<open>
  \<open>internal/httpconditional/conditions.go\<close>: the evaluation of the request preconditions for a
  stored response, with the entity tag lists of \<open>If-Match\<close> and \<open>If-None-Match\<close>;
  \<open>clearClientPreconditions\<close> of \<open>caddy/govetocache\<close>; and the entity tag check of a cache lookup
  in \<open>internal/cachecore/core.go\<close>. The date parser of \<open>net/http\<close> is an argument. A nil
  request or response is \<open>None\<close>.
\<close>

record http_request =
  rq_method :: string
  rq_header :: header

record http_stored =
  hs_statusCode :: int
  hs_header :: header

definition Join :: "string list \<Rightarrow> string" where
  "Join ss = concat (case ss of [] \<Rightarrow> [] | s # ss \<Rightarrow> s # concat (map (\<lambda>s. [''','', s]) ss))"

definition quote :: char where
  "quote = char_of (34 :: nat)"

definition etagBlank :: "char \<Rightarrow> bool" where
  "etagBlank c \<longleftrightarrow> c = CHR '' '' \<or> c = char_of (9 :: nat) \<or> c = CHR '',''"

function etagLoop :: "string \<Rightarrow> string \<Rightarrow> bool \<Rightarrow> bool" where
  "etagLoop list current weak =
     (if list = [] then False
      else
        let list = dropWhile etagBlank list;
            pre = (if HasPrefix list ''W/'' then ''W/'' else []);
            list = drop (length pre) list
        in if \<not> HasPrefix list [quote] then False
           else (case IndexByte (drop 1 list) quote of
                   None \<Rightarrow> False
                 | Some e \<Rightarrow>
                     let candidate = pre @ take (e + 2) list
                     in if weak \<and> TrimPrefix candidate ''W/'' = TrimPrefix current ''W/'' then True
                        else if \<not> weak \<and> \<not> HasPrefix candidate ''W/'' \<and> candidate = current then True
                        else etagLoop (drop (e + 2) list) current weak))"
  by pat_completeness auto
termination
proof (relation "measure (length \<circ> fst)")
  fix list current :: string and weak :: bool and blank pre rest :: string and e :: nat
  assume r: "blank = dropWhile etagBlank list" "rest = drop (length pre) blank" and q: "\<not> \<not> HasPrefix rest [quote]"
  have "rest \<noteq> []"
    using q by (auto simp: HasPrefix_def)
  moreover have "length rest \<le> length list"
    using length_dropWhile_le [of etagBlank list] by (simp add: r)
  ultimately show "((drop (e + 2) rest, current, weak), (list, current, weak)) \<in> measure (length \<circ> fst)"
    by (cases rest) auto
qed simp_all

declare etagLoop.simps [simp del]

definition matchETags :: "string \<Rightarrow> string \<Rightarrow> bool \<Rightarrow> bool" where
  "matchETags list current weak \<longleftrightarrow> TrimSpace list = ''*'' \<or> etagLoop list current weak"

definition Status :: "(string \<Rightarrow> int option) \<Rightarrow> http_request option \<Rightarrow> http_stored option \<Rightarrow> int" where
  "Status parseTime request response =
     (case (request, response) of
        (Some rq, Some rs) \<Rightarrow>
          if hs_statusCode rs < 200 \<or> hs_statusCode rs \<ge> 300 then 0
          else
            let get = (rq_method rq = ''GET'' \<or> rq_method rq = ''HEAD'');
                etag = HeaderGet (hs_header rs) ''ETag'';
                modified = parseTime (HeaderGet (hs_header rs) ''Last-Modified'');
                ifMatch = Join (HeaderValues (rq_header rq) ''If-Match'');
                ifUnmodified = HeaderGet (rq_header rq) ''If-Unmodified-Since'';
                failed = (if ifMatch \<noteq> [] then \<not> matchETags ifMatch etag False
                          else case (modified, parseTime ifUnmodified) of
                                 (Some m, Some since) \<Rightarrow> ifUnmodified \<noteq> [] \<and> m > since
                               | _ \<Rightarrow> False)
            in if failed then 412
               else
                 let ifNone = Join (HeaderValues (rq_header rq) ''If-None-Match'')
                 in if ifNone \<noteq> [] then (if matchETags ifNone etag True then (if get then 304 else 412) else 0)
                    else if get then
                      (case (modified, parseTime (HeaderGet (rq_header rq) ''If-Modified-Since'')) of
                         (Some m, Some since) \<Rightarrow> if \<not> m > since then 304 else 0
                       | _ \<Rightarrow> 0)
                    else 0
      | _ \<Rightarrow> 0)"

definition RangeAllowed :: "(string \<Rightarrow> int option) \<Rightarrow> http_request \<Rightarrow> header \<Rightarrow> bool" where
  "RangeAllowed parseTime request h =
     (let value = HeaderGet (rq_header request) ''If-Range''
      in if value = [] then True
         else if HasPrefix value [quote] \<or> HasPrefix value ''W/''
         then \<not> HasPrefix value ''W/'' \<and> value = HeaderGet h ''ETag''
         else (case (parseTime value, parseTime (HeaderGet h ''Last-Modified'')) of
                 (Some date, Some modified) \<Rightarrow> modified = date
               | _ \<Rightarrow> False))"

definition clearClientPreconditions :: "header \<Rightarrow> header" where
  "clearClientPreconditions h =
     fold (\<lambda>name h. h(CanonicalHeaderKey name := []))
       [''If-Match'', ''If-Unmodified-Since'', ''If-None-Match'', ''If-Modified-Since'', ''If-Range''] h"

subsection \<open>Entity tags of a lookup\<close>

record Revalidator =
  rv_matched :: bool
  rv_requestETags :: "string list"
  rv_responseETag :: string
  rv_ifNoneMatch :: "string list"
  rv_ifMatch :: "string list"
  rv_ifNoneMatchSet :: bool
  rv_ifMatchSet :: bool
  rv_needRevalidation :: bool

definition ValidateETagFromHeader :: "string \<Rightarrow> Revalidator \<Rightarrow> Revalidator" where
  "ValidateETagFromHeader etag v =
     (let v = v\<lparr>rv_responseETag := etag,
                rv_needRevalidation := rv_needRevalidation v \<or> (etag \<noteq> [] \<and> rv_requestETags v \<noteq> []),
                rv_matched := etag = [] \<or> rv_requestETags v = []\<rparr>;
          hit = list_ex (\<lambda>candidate. candidate = ''*'' \<or> candidate = etag)
      in if rv_ifNoneMatchSet v \<and> hit (rv_ifNoneMatch v) then v\<lparr>rv_matched := True\<rparr>
         else
           let v = (if rv_ifNoneMatchSet v then v\<lparr>rv_matched := False\<rparr> else v)
           in if rv_ifMatchSet v then v\<lparr>rv_matched := hit (rv_ifMatch v)\<rparr> else v)"

subsection \<open>Lists of entity tags\<close>

type_synonym etag = "bool \<times> string"

definition printETag :: "etag \<Rightarrow> string" where
  "printETag t = (if fst t then ''W/'' else []) @ [quote] @ snd t @ [quote]"

fun printETags :: "etag list \<Rightarrow> string" where
  "printETags [] = []"
| "printETags [t] = printETag t"
| "printETags (t # ts) = printETag t @ '', '' @ printETags ts"

definition etag_ok :: "etag \<Rightarrow> bool" where
  "etag_ok t \<longleftrightarrow> quote \<notin> set (snd t)"

text \<open>Weak comparison ignores the prefix \<open>W/\<close>; strong comparison needs two equal strong tags.\<close>

definition same_etag :: "bool \<Rightarrow> etag \<Rightarrow> etag \<Rightarrow> bool" where
  "same_etag weak t u \<longleftrightarrow> snd t = snd u \<and> (weak \<or> (\<not> fst t \<and> \<not> fst u))"

lemma quote_facts: "\<not> etagBlank quote" "quote \<noteq> CHR ''W''" "\<not> etagBlank CHR ''W''" "graphic quote"
  by code_simp+

lemma IndexByte_tag: "quote \<notin> set s \<Longrightarrow> IndexByte (s @ quote # r) quote = Some (length s)"
  by (induction s) auto

lemma etagLoop_tag:
  assumes "etag_ok t" "list_all etagBlank sep"
  shows "etagLoop (sep @ printETag t @ rest) current weak \<longleftrightarrow>
    (if weak then TrimPrefix (printETag t) ''W/'' = TrimPrefix current ''W/''
     else \<not> HasPrefix (printETag t) ''W/'' \<and> printETag t = current)
    \<or> etagLoop rest current weak"
proof -
  obtain w s where t: "t = (w, s)" by fastforce
  define tag where "tag = quote # s @ [quote]"
  have p: "printETag t = (if w then ''W/'' else []) @ tag"
    by (simp add: t printETag_def tag_def)
  have blank: "dropWhile etagBlank (sep @ printETag t @ rest) = printETag t @ rest"
    using assms(2) quote_facts by (auto simp: dropWhile_append list_all_iff p tag_def)
  have pre: "HasPrefix (printETag t @ rest) ''W/'' = w" "HasPrefix (printETag t) ''W/'' = w"
    using quote_facts(2) by (auto simp: p tag_def HasPrefix_def)
  have list: "drop (length (if w then ''W/'' else [])) (printETag t @ rest) = tag @ rest"
    by (simp add: p)
  have i: "HasPrefix (tag @ rest) [quote]" "IndexByte (drop 1 (tag @ rest)) quote = Some (length s)"
    "take (length s + 2) (tag @ rest) = tag" "drop (length s + 2) (tag @ rest) = rest"
    using assms(1) IndexByte_tag [of s rest] by (simp_all add: tag_def t etag_ok_def HasPrefix_def)
  have ne: "sep @ printETag t @ rest \<noteq> []" by (simp add: p tag_def)
  have "etagLoop (sep @ printETag t @ rest) current weak =
      (if weak \<and> TrimPrefix (printETag t) ''W/'' = TrimPrefix current ''W/'' then True
       else if \<not> weak \<and> \<not> w \<and> printETag t = current then True
       else etagLoop rest current weak)"
    by (subst etagLoop.simps) (simp only: if_not_P [OF ne] blank pre list Let_def i option.case p [symmetric] simp_thms if_False)
  then show ?thesis using pre(2) by auto
qed

lemma HasPrefix_weak: "HasPrefix (printETag t) ''W/'' \<longleftrightarrow> fst t"
  using quote_facts(2) by (auto simp: printETag_def HasPrefix_def)

lemma TrimPrefix_weak: "TrimPrefix (printETag t) ''W/'' = quote # snd t @ [quote]"
proof (cases "fst t")
  case True
  then show ?thesis by (simp add: TrimPrefix_def HasPrefix_weak) (simp add: printETag_def)
next
  case False
  then show ?thesis by (simp add: TrimPrefix_def HasPrefix_weak) (simp add: printETag_def)
qed

definition currentText :: "etag option \<Rightarrow> string" where
  "currentText u = (case u of None \<Rightarrow> [] | Some u \<Rightarrow> printETag u)"

definition etag_matches :: "bool \<Rightarrow> etag \<Rightarrow> etag option \<Rightarrow> bool" where
  "etag_matches weak t u \<longleftrightarrow> (case u of None \<Rightarrow> False | Some u \<Rightarrow> same_etag weak t u)"

lemma tag_comparison:
  "(if weak then TrimPrefix (printETag t) ''W/'' = TrimPrefix (currentText u) ''W/''
    else \<not> HasPrefix (printETag t) ''W/'' \<and> printETag t = currentText u) \<longleftrightarrow> etag_matches weak t u"
proof (cases u)
  case None
  then show ?thesis
    by (simp add: TrimPrefix_weak etag_matches_def currentText_def) (simp add: TrimPrefix_def HasPrefix_def printETag_def)
next
  case (Some v)
  have "\<not> fst t \<and> printETag t = printETag v \<longleftrightarrow> snd t = snd v \<and> \<not> fst t \<and> \<not> fst v"
    using HasPrefix_weak [of t] HasPrefix_weak [of v] by (auto simp: printETag_def)
  then show ?thesis
    by (auto simp: Some etag_matches_def same_etag_def TrimPrefix_weak HasPrefix_weak currentText_def)
qed

lemma etagLoop_tags:
  assumes "list_all etag_ok ts" "list_all etagBlank sep" "ts \<noteq> []"
  shows "etagLoop (sep @ printETags ts) (currentText u) weak \<longleftrightarrow> (\<exists>t \<in> set ts. etag_matches weak t u)"
  using assms
proof (induction ts arbitrary: sep rule: printETags.induct)
  case (2 t)
  then show ?case
    using etagLoop_tag [of t sep "[]" "currentText u" weak] by (simp add: tag_comparison etagLoop.simps [of "[]"])
next
  case (3 t t' ts)
  have b: "list_all etagBlank '', ''" by (simp add: etagBlank_def)
  have "etagLoop (sep @ printETag t @ '', '' @ printETags (t' # ts)) (currentText u) weak
      \<longleftrightarrow> etag_matches weak t u \<or> etagLoop ('', '' @ printETags (t' # ts)) (currentText u) weak"
    using etagLoop_tag [of t sep "'', '' @ printETags (t' # ts)" "currentText u" weak] 3(2,3) unfolding tag_comparison by simp
  then show ?case
    using 3(1) [OF _ b] 3(2) by simp
qed simp

lemma spaces_keep: "list_all (list_all (\<lambda>c. \<not> graphic c)) spaces" "list_all (list_all (\<lambda>c. \<not> graphic c)) (map rev spaces)"
  by code_simp+

lemma trimFirst_keeps:
  assumes "list_all (list_all (\<lambda>c. \<not> graphic c)) ps" "graphic c" "c \<in> set s"
  shows "c \<in> set (trimFirst ps s)"
  using assms
proof (induction ps s rule: trimFirst.induct)
  case (1 ps s)
  show ?case
  proof (cases "firstOf ps s")
    case None
    then show ?thesis using 1(4) by (simp add: trimFirst.simps [of ps s])
  next
    case (Some p)
    then have p: "p \<in> set ps" "s = p @ drop (length p) s"
      using firstOf_Some [OF Some] by (auto simp: HasPrefix_iff)
    then have "c \<notin> set p"
      using 1(2,3) by (auto simp: list_all_iff)
    moreover have "c \<in> set p \<union> set (drop (length p) s)"
      using 1(4) p(2) by (metis set_append)
    ultimately have "c \<in> set (drop (length p) s)" by blast
    then show ?thesis
      using 1 Some by (simp add: trimFirst.simps [of ps s])
  qed
qed

lemma TrimSpace_keeps: "graphic c \<Longrightarrow> c \<in> set s \<Longrightarrow> c \<in> set (TrimSpace s)"
  unfolding TrimSpace_def TrimRightSpace_def TrimLeftSpace_def
  using trimFirst_keeps [OF spaces_keep(1)] trimFirst_keeps [OF spaces_keep(2)] by simp

lemma printETags_quote: "ts \<noteq> [] \<Longrightarrow> quote \<in> set (printETags ts)"
  by (induction ts rule: printETags.induct) (auto simp: printETag_def)

lemma matchETags_printed:
  assumes "list_all etag_ok ts" "ts \<noteq> []"
  shows "matchETags (printETags ts) (currentText u) weak \<longleftrightarrow> (\<exists>t \<in> set ts. etag_matches weak t u)"
proof -
  have "quote \<in> set (TrimSpace (printETags ts))"
    using TrimSpace_keeps [OF quote_facts(4) printETags_quote [OF assms(2)]] .
  moreover have "quote \<notin> set ''*''" by code_simp
  ultimately have "TrimSpace (printETags ts) \<noteq> ''*''" by metis
  then show ?thesis
    using etagLoop_tags [OF assms(1) _ assms(2), of "[]" u weak] by (simp add: matchETags_def)
qed

subsection \<open>Properties\<close>


definition sampleRequest :: http_request where
  "sampleRequest = \<lparr>rq_method = ''GET'',
     rq_header = (\<lambda>_. [])(''If-None-Match'' := [printETags [(False, ''v1''), (True, ''v2'')]])\<rparr>"

definition sampleStored :: http_stored where
  "sampleStored = \<lparr>hs_statusCode = 200, hs_header = (\<lambda>_. [])(''Etag'' := [printETag (False, ''v2'')])\<rparr>"


end
