(* ===== verification/Cache_Match.thy ===== *)
theory Cache_Match
  imports Policy_Cache Http_Conditional
begin

section \<open>The cache matcher\<close>

text \<open>
  \<open>caddy/cachematch/matcher.go\<close>: the request matcher in front of the cache handler, and
  \<open>govetoCacheMatcher\<close> of \<open>internal/edgeagent/configmanager.go\<close>, which configures it from a
  rule of the cache policy. \<open>regexp.Compile\<close> is the argument \<open>compile\<close>: a compiled expression
  is its match function. Indexing a slice out of range is \<open>None\<close>.
\<close>

type_synonym regex = "string \<Rightarrow> bool"

record Matcher =
  ma_conditions :: CacheConditions
  ma_cacheRangeRequests :: bool
  ma_bypassCacheControl :: "string list"
  ma_compiled :: "regex option list list"

record match_request =
  mq_path :: string
  mq_header :: header
  mq_context :: range_context

definition govetoCacheMatcher :: "CachePolicy \<Rightarrow> CacheRule \<Rightarrow> Matcher" where
  "govetoCacheMatcher cachePolicy rule =
     \<lparr>ma_conditions = ca_conditions rule, ma_cacheRangeRequests = cy_cacheRangeRequests cachePolicy,
      ma_bypassCacheControl = cy_bypassCacheControl cachePolicy, ma_compiled = []\<rparr>"

subsection \<open>Provision\<close>

fun provisionRules :: "(string \<Rightarrow> regex option) \<Rightarrow> CacheConditionRule list \<Rightarrow> regex option list option" where
  "provisionRules compile [] = Some []"
| "provisionRules compile (rule # rules) =
     (if cr_type rule = ''PATH_REGEX'' then
        (case compile (cr_value rule) of
           None \<Rightarrow> None
         | Some compiled \<Rightarrow> map_option ((#) (Some compiled)) (provisionRules compile rules))
      else map_option ((#) None) (provisionRules compile rules))"

fun provisionGroups :: "(string \<Rightarrow> regex option) \<Rightarrow> CacheConditionGroup list \<Rightarrow> regex option list list option" where
  "provisionGroups compile [] = Some []"
| "provisionGroups compile (g # groups) =
     (case provisionRules compile (cg_rules g) of
        None \<Rightarrow> None
      | Some compiled \<Rightarrow> map_option ((#) compiled) (provisionGroups compile groups))"

definition Matcher_Provision :: "(string \<Rightarrow> regex option) \<Rightarrow> Matcher \<Rightarrow> Matcher option" where
  "Matcher_Provision compile m =
     map_option (\<lambda>compiled. m\<lparr>ma_compiled := compiled\<rparr>) (provisionGroups compile (cc_groups (ma_conditions m)))"

subsection \<open>Match\<close>

fun Split :: "string \<Rightarrow> char \<Rightarrow> string list" where
  "Split [] sep = [[]]"
| "Split (c # s) sep =
     (if c = sep then [] # Split s sep
      else case Split s sep of [] \<Rightarrow> [[c]] | part # parts \<Rightarrow> (c # part) # parts)"

definition squeezeDirective :: "golib \<Rightarrow> string \<Rightarrow> string" where
  "squeezeDirective L s = ToLower L (filter (\<lambda>c. c \<noteq> CHR '' '') (TrimSpace s))"

definition matchesCacheControl :: "golib \<Rightarrow> string list \<Rightarrow> string list \<Rightarrow> bool" where
  "matchesCacheControl L values configured =
     list_ex (\<lambda>part.
       let part = squeezeDirective L part; name = takeWhile (\<lambda>c. c \<noteq> CHR ''='') part
       in list_ex (\<lambda>candidate.
            let candidate = squeezeDirective L candidate
            in part = candidate \<or> (\<not> Contains candidate ''='' \<and> name = candidate)) configured)
       (Split (Join values) CHR '','')"

text \<open>\<open>path.Ext\<close>: the search for the last dot runs from the end and stops at a slash.\<close>

fun extLoop :: "string \<Rightarrow> string \<Rightarrow> string" where
  "extLoop [] after = []"
| "extLoop (c # before) after =
     (if c = CHR ''/'' then [] else if c = CHR ''.'' then c # after else extLoop before (c # after))"

definition Ext :: "string \<Rightarrow> string" where
  "Ext path = extLoop (rev path) []"

definition Matcher_matchRule :: "golib \<Rightarrow> string \<Rightarrow> CacheConditionRule \<Rightarrow> regex option \<Rightarrow> bool" where
  "Matcher_matchRule L requestPath rule compiled =
     (if cr_type rule = ''ALL'' then True
      else if cr_type rule = ''EXTENSION''
      then list_ex (\<lambda>candidate. TrimPrefix (ToLower L (Ext requestPath)) ''.'' = candidate) (cr_values rule)
      else if cr_type rule = ''PATH_PREFIX''
      then list_ex (\<lambda>candidate. HasPrefix requestPath candidate) (cr_values rule)
      else if cr_type rule = ''PATH_REGEX''
      then (case compiled of None \<Rightarrow> False | Some matchString \<Rightarrow> matchString requestPath)
      else False)"

definition combine :: "string \<Rightarrow> bool list \<Rightarrow> bool" where
  "combine operator values = (if operator = ''AND'' then list_all (\<lambda>v. v) values else list_ex (\<lambda>v. v) values)"

fun matchRules :: "golib \<Rightarrow> string \<Rightarrow> CacheConditionRule list \<Rightarrow> regex option list \<Rightarrow> bool list option" where
  "matchRules L requestPath [] compiled = Some []"
| "matchRules L requestPath (rule # rules) [] = None"
| "matchRules L requestPath (rule # rules) (c # compiled) =
     map_option ((#) (Matcher_matchRule L requestPath rule c)) (matchRules L requestPath rules compiled)"

fun matchGroups :: "golib \<Rightarrow> string \<Rightarrow> CacheConditionGroup list \<Rightarrow> regex option list list \<Rightarrow> bool list option" where
  "matchGroups L requestPath [] compiled = Some []"
| "matchGroups L requestPath (g # groups) [] =
     (if cg_rules g = [] then map_option ((#) (combine (cg_operator g) [])) (matchGroups L requestPath groups [])
      else None)"
| "matchGroups L requestPath (g # groups) (c # compiled) =
     (case matchRules L requestPath (cg_rules g) c of
        None \<Rightarrow> None
      | Some ruleMatches \<Rightarrow>
          map_option ((#) (combine (cg_operator g) ruleMatches)) (matchGroups L requestPath groups compiled))"

definition matchConditions :: "golib \<Rightarrow> Matcher \<Rightarrow> match_request \<Rightarrow> (bool \<times> match_request) option" where
  "matchConditions L m r =
     map_option (\<lambda>groupMatches. (combine (cc_groupOperator (ma_conditions m)) groupMatches, r))
       (matchGroups L (mq_path r) (cc_groups (ma_conditions m)) (ma_compiled m))"

definition Matcher_Match :: "golib \<Rightarrow> Matcher \<Rightarrow> match_request \<Rightarrow> (bool \<times> match_request) option" where
  "Matcher_Match L m r =
     (if matchesCacheControl L (HeaderValues (mq_header r) ''Cache-Control'') (ma_bypassCacheControl m)
      then Some (False, r)
      else
        let value = Join (HeaderValues (mq_header r) ''Range'')
        in if value \<noteq> [] then
             (case parseCacheableRange value of
                None \<Rightarrow> Some (False, r)
              | Some spec \<Rightarrow>
                  if \<not> ma_cacheRangeRequests m \<or> HeaderGet (mq_header r) ''If-Range'' \<noteq> [] then Some (False, r)
                  else matchConditions L m (r\<lparr>mq_context := WithContext (mq_context r) spec\<rparr>))
           else matchConditions L m r)"

subsection \<open>The declared meaning of the conditions\<close>

text \<open>
  The file extension of a path is what follows the last dot of its last segment. A rule of
  type \<open>EXTENSION\<close> is met by a path with one of the listed extensions, in any case.
\<close>

definition has_extension :: "golib \<Rightarrow> string \<Rightarrow> string \<Rightarrow> bool" where
  "has_extension L path v \<longleftrightarrow>
     (\<exists>stem ext. path = stem @ ''.'' @ ext \<and> CHR ''.'' \<notin> set ext \<and> CHR ''/'' \<notin> set ext
        \<and> TrimPrefix (ToLower L (''.'' @ ext)) ''.'' = v)"

definition rule_holds :: "golib \<Rightarrow> (string \<Rightarrow> regex option) \<Rightarrow> string \<Rightarrow> CacheConditionRule \<Rightarrow> bool" where
  "rule_holds L compile path r \<longleftrightarrow>
     cr_type r = ''ALL''
   \<or> cr_type r = ''EXTENSION'' \<and> (\<exists>v \<in> set (cr_values r). has_extension L path v)
   \<or> cr_type r = ''PATH_PREFIX'' \<and> (\<exists>v \<in> set (cr_values r). \<exists>rest. path = v @ rest)
   \<or> cr_type r = ''PATH_REGEX'' \<and> (\<exists>re. compile (cr_value r) = Some re \<and> re path)"

definition quantified :: "string \<Rightarrow> ('a \<Rightarrow> bool) \<Rightarrow> 'a list \<Rightarrow> bool" where
  "quantified operator P xs \<longleftrightarrow>
     operator = ''AND'' \<and> (\<forall>x \<in> set xs. P x) \<or> operator = ''OR'' \<and> (\<exists>x \<in> set xs. P x)"

definition conditions_hold :: "golib \<Rightarrow> (string \<Rightarrow> regex option) \<Rightarrow> string \<Rightarrow> CacheConditions \<Rightarrow> bool" where
  "conditions_hold L compile path c \<longleftrightarrow>
     quantified (cc_groupOperator c) (\<lambda>g. quantified (cg_operator g) (rule_holds L compile path) (cg_rules g)) (cc_groups c)"

text \<open>Whether the request headers let the cache take part.\<close>

definition cache_usable :: "golib \<Rightarrow> CachePolicy \<Rightarrow> header \<Rightarrow> bool" where
  "cache_usable L q h \<longleftrightarrow>
     \<not> matchesCacheControl L (HeaderValues h ''Cache-Control'') (cy_bypassCacheControl q)
   \<and> (Join (HeaderValues h ''Range'') = []
      \<or> cacheableRange (Join (HeaderValues h ''Range'')) \<and> cy_cacheRangeRequests q \<and> HeaderGet h ''If-Range'' = [])"

subsection \<open>Validated conditions\<close>

definition condition_wf :: "golib \<Rightarrow> CacheConditionRule \<Rightarrow> bool" where
  "condition_wf L r \<longleftrightarrow>
     (cr_type r = ''EXTENSION'' \<longrightarrow> [] \<notin> set (cr_values r)) \<and> (cr_type r = ''PATH_REGEX'' \<longrightarrow> gl_regexp L (cr_value r))"

definition conditions_wf :: "golib \<Rightarrow> CacheConditions \<Rightarrow> bool" where
  "conditions_wf L c \<longleftrightarrow>
     booleanOperator (cc_groupOperator c)
   \<and> (\<forall>g \<in> set (cc_groups c). booleanOperator (cg_operator g) \<and> (\<forall>r \<in> set (cg_rules g). condition_wf L r))"

lemma extension_nonempty: "normalizeConditionExtension L i x = Ok y \<Longrightarrow> y \<noteq> []"
  by (auto simp: normalizeConditionExtension_def Let_def split: if_splits)

lemma conditionRule_wf:
  assumes "normalizeCacheConditionRule L index groups rules gi ri r = Ok s"
  shows "condition_wf L s"
proof -
  have "[] \<notin> set (cr_values s)" if ext: "cr_type s = ''EXTENSION''"
  proof -
    have t: "upperTrim L (cr_type r) = ''EXTENSION''"
      using ext conditionRule_type [OF assms] by (simp only:)
    have "mapE (normalizeConditionExtension L) 0 (cr_values r) = Ok (cr_values s)"
      using assms by (auto simp: normalizeCacheConditionRule_def t Let_def bindE_Ok split: if_splits)
    note m = this
    show ?thesis
      using mapE_image [OF m, of "[]"] extension_nonempty [of L _ _ "[]"] by blast
  qed
  moreover have "gl_regexp L (cr_value s)" if re: "cr_type s = ''PATH_REGEX''"
  proof -
    have t: "upperTrim L (cr_type r) = ''PATH_REGEX''"
      using re conditionRule_type [OF assms] by (simp only:)
    show ?thesis
      using assms by (auto simp: normalizeCacheConditionRule_def t Let_def split: if_splits)
  qed
  ultimately show ?thesis
    by (simp add: condition_wf_def)
qed

lemma conditionGroup_wf:
  assumes "normalizeCacheConditionGroup L index groups gi g = Ok h"
  shows "booleanOperator (cg_operator h) \<and> (\<forall>r \<in> set (cg_rules h). condition_wf L r)"
proof -
  have m: "mapE (normalizeCacheConditionRule L index groups (length (cg_rules g)) gi) 0 (cg_rules g) = Ok (cg_rules h)"
    and o: "booleanOperator (cg_operator h)"
    using assms by (auto simp: normalizeCacheConditionGroup_def Let_def bindE_Ok split: if_splits)
  show ?thesis
    using o mapE_image [OF m] conditionRule_wf by blast
qed

lemma normalized_wf:
  assumes "normalizeCacheConditions L index c = Ok (d, all)"
  shows "conditions_wf L d"
proof -
  have m: "mapE (normalizeCacheConditionGroup L index (length (cc_groups c))) 0 (cc_groups c) = Ok (cc_groups d)"
    and o: "booleanOperator (cc_groupOperator d)"
    using assms by (auto simp: normalizeCacheConditions_def Let_def bindE_Ok split: if_splits)
  show ?thesis
    using o mapE_image [OF m] conditionGroup_wf unfolding conditions_wf_def by blast
qed

lemma policy_conditions_wf:
  assumes "case_ok L" "CachePolicy_NormalizeAndValidate L p = Ok q" "rule \<in> set (cy_rules q)"
  shows "conditions_wf L (ca_conditions rule)"
proof -
  have "normalizeCacheRules L (length (cy_rules p)) 0 [] (cy_rules p) = Ok (cy_rules q)"
    by (rule cache_cases [OF assms(2)])
  then have "rules_ok L (length (cy_rules p)) 0 [] (cy_rules q)"
    using rules_normal [OF assms(1)] by blast
  then obtain k where "rule_ok L (length (cy_rules p)) k rule"
    using rules_ok_nth assms(3) unfolding in_set_conv_nth by fastforce
  then show ?thesis
    using normalized_wf unfolding rule_ok_def by blast
qed

subsection \<open>Paths\<close>

lemma extLoop_skip:
  "\<lbrakk>CHR ''.'' \<notin> set xs; CHR ''/'' \<notin> set xs\<rbrakk> \<Longrightarrow> extLoop (xs @ rest) after = extLoop rest (rev xs @ after)"
  by (induction xs arbitrary: after) auto

lemma Ext_dot:
  "\<lbrakk>CHR ''.'' \<notin> set ext; CHR ''/'' \<notin> set ext\<rbrakk> \<Longrightarrow> Ext (stem @ ''.'' @ ext) = ''.'' @ ext"
  using extLoop_skip [of "rev ext" "CHR ''.'' # rev stem" "[]"] by (simp add: Ext_def)

lemma extLoop_stop:
  assumes "rest = [] \<or> hd rest = CHR ''/''"
  shows "extLoop rest after = []"
  using assms by (cases rest) simp_all

lemma Ext_cases:
  obtains (none) "Ext path = []"
  | (dot) stem ext where "path = stem @ ''.'' @ ext" "CHR ''.'' \<notin> set ext" "CHR ''/'' \<notin> set ext"
proof -
  let ?P = "\<lambda>c. c \<noteq> CHR ''.'' \<and> c \<noteq> CHR ''/''"
  define ext where "ext = rev (takeWhile ?P (rev path))"
  define rest where "rest = dropWhile ?P (rev path)"
  have ext: "CHR ''.'' \<notin> set ext" "CHR ''/'' \<notin> set ext"
    unfolding ext_def set_rev using set_takeWhileD [of _ ?P "rev path"] by blast+
  have p: "rev path = rev ext @ rest"
    unfolding ext_def rest_def rev_rev_ident by (rule takeWhile_dropWhile_id [symmetric])
  have e: "Ext path = extLoop rest ext"
    unfolding Ext_def p using extLoop_skip [of "rev ext" rest "[]"] ext by simp
  have "rest = [] \<or> hd rest = CHR ''/'' \<or> (\<exists>before. rest = CHR ''.'' # before)"
    unfolding rest_def using hd_dropWhile [of ?P "rev path"] list.collapse by metis
  then show ?thesis
  proof (elim disjE exE)
    fix before
    assume "rest = CHR ''.'' # before"
    then have "rev (rev path) = rev (rev ext @ CHR ''.'' # before)"
      using p by simp
    then have "path = rev before @ ''.'' @ ext"
      by simp
    then show ?thesis
      by (rule dot) (rule ext)+
  qed (rule none; simp add: e extLoop_stop)+
qed

lemma has_extension_iff:
  assumes "v \<noteq> []"
  shows "has_extension L path v \<longleftrightarrow> TrimPrefix (ToLower L (Ext path)) ''.'' = v"
proof
  assume "has_extension L path v"
  then obtain stem ext where p: "path = stem @ ''.'' @ ext" "CHR ''.'' \<notin> set ext" "CHR ''/'' \<notin> set ext"
    and v: "TrimPrefix (ToLower L (''.'' @ ext)) ''.'' = v"
    unfolding has_extension_def by blast
  show "TrimPrefix (ToLower L (Ext path)) ''.'' = v"
    unfolding p(1) Ext_dot [OF p(2,3)] by (rule v)
next
  assume v: "TrimPrefix (ToLower L (Ext path)) ''.'' = v"
  show "has_extension L path v"
  proof (cases rule: Ext_cases [of path])
    case none
    then show ?thesis
      using v assms by (simp add: ToLower_def isASCII_def TrimPrefix_def split: if_splits)
  next
    case (dot stem ext)
    have "TrimPrefix (ToLower L (''.'' @ ext)) ''.'' = v"
      using v unfolding dot(1) Ext_dot [OF dot(2,3)] .
    then show ?thesis
      using dot unfolding has_extension_def by blast
  qed
qed

subsection \<open>Matching\<close>

definition compiledRule :: "(string \<Rightarrow> regex option) \<Rightarrow> CacheConditionRule \<Rightarrow> regex option" where
  "compiledRule compile r = (if cr_type r = ''PATH_REGEX'' then compile (cr_value r) else None)"

definition compiles :: "(string \<Rightarrow> regex option) \<Rightarrow> CacheConditionRule \<Rightarrow> bool" where
  "compiles compile r \<longleftrightarrow> (cr_type r = ''PATH_REGEX'' \<longrightarrow> compile (cr_value r) \<noteq> None)"

lemma provisionRules_map:
  "list_all (compiles compile) rules \<Longrightarrow> provisionRules compile rules = Some (map (compiledRule compile) rules)"
  by (induction rules) (auto simp: compiles_def compiledRule_def)

lemma provisionGroups_map:
  "list_all (\<lambda>g. list_all (compiles compile) (cg_rules g)) groups \<Longrightarrow>
     provisionGroups compile groups = Some (map (\<lambda>g. map (compiledRule compile) (cg_rules g)) groups)"
  by (induction groups) (simp_all add: provisionRules_map)

lemma matchRules_map:
  "matchRules L path rules (map f rules) = Some (map (\<lambda>r. Matcher_matchRule L path r (f r)) rules)"
  by (induction rules) simp_all

lemma matchGroups_map:
  "matchGroups L path groups (map (\<lambda>g. map f (cg_rules g)) groups) =
     Some (map (\<lambda>g. combine (cg_operator g) (map (\<lambda>r. Matcher_matchRule L path r (f r)) (cg_rules g))) groups)"
  by (induction groups) (simp_all add: matchRules_map)

lemma combine_quantified:
  assumes "booleanOperator operator" "\<And>x. x \<in> set xs \<Longrightarrow> P x \<longleftrightarrow> Q x"
  shows "combine operator (map P xs) \<longleftrightarrow> quantified operator Q xs"
proof -
  have "list_all (\<lambda>v. v) (map P xs) \<longleftrightarrow> (\<forall>x \<in> set xs. Q x)" "list_ex (\<lambda>v. v) (map P xs) \<longleftrightarrow> (\<exists>x \<in> set xs. Q x)"
    using assms(2) by (simp_all add: list_all_iff list_ex_iff)
  moreover have "operator = ''AND'' \<or> operator = ''OR''"
    using assms(1) by (simp add: booleanOperator_def)
  ultimately show ?thesis
    by (elim disjE) (simp_all add: combine_def quantified_def)
qed

lemma matchRule_holds:
  assumes "condition_wf L r"
  shows "Matcher_matchRule L path r (compiledRule compile r) \<longleftrightarrow> rule_holds L compile path r"
proof -
  have e: "(\<exists>v \<in> set (cr_values r). has_extension L path v)
      \<longleftrightarrow> (\<exists>v \<in> set (cr_values r). TrimPrefix (ToLower L (Ext path)) ''.'' = v)" if ext: "cr_type r = ''EXTENSION''"
    using assms ext has_extension_iff unfolding condition_wf_def by metis
  consider "cr_type r = ''ALL''" | "cr_type r = ''EXTENSION''" | "cr_type r = ''PATH_PREFIX''" | "cr_type r = ''PATH_REGEX''"
    | "cr_type r \<notin> {''ALL'', ''EXTENSION'', ''PATH_PREFIX'', ''PATH_REGEX''}"
    by blast
  then show ?thesis
  proof cases
    case 2
    then show ?thesis
      using e [OF 2] by (simp add: Matcher_matchRule_def rule_holds_def list_ex_iff)
  qed (simp_all add: Matcher_matchRule_def rule_holds_def compiledRule_def list_ex_iff HasPrefix_iff split: option.split)
qed

lemma matchConditions_holds:
  assumes "conditions_wf L c" "ma_conditions m = c"
    and "ma_compiled m = map (\<lambda>g. map (compiledRule compile) (cg_rules g)) (cc_groups c)"
  shows "matchConditions L m r = Some (conditions_hold L compile (mq_path r) c, r)"
proof -
  have "combine (cg_operator g) (map (\<lambda>r'. Matcher_matchRule L (mq_path r) r' (compiledRule compile r')) (cg_rules g))
      \<longleftrightarrow> quantified (cg_operator g) (rule_holds L compile (mq_path r)) (cg_rules g)" if g: "g \<in> set (cc_groups c)" for g
    using assms(1) g matchRule_holds unfolding conditions_wf_def by (intro combine_quantified) blast+
  then have "combine (cc_groupOperator c) (map (\<lambda>g. combine (cg_operator g)
        (map (\<lambda>r'. Matcher_matchRule L (mq_path r) r' (compiledRule compile r')) (cg_rules g))) (cc_groups c))
      \<longleftrightarrow> conditions_hold L compile (mq_path r) c"
    using assms(1) unfolding conditions_wf_def conditions_hold_def by (intro combine_quantified [where xs = "cc_groups c"]) blast+
  then show ?thesis
    by (simp add: matchConditions_def assms(2,3) matchGroups_map)
qed

lemma policy_provisions:
  assumes "conditions_wf L (ca_conditions rule)" "\<forall>s. gl_regexp L s \<longleftrightarrow> compile s \<noteq> None"
  shows "Matcher_Provision compile (govetoCacheMatcher q rule) = Some ((govetoCacheMatcher q rule)
    \<lparr>ma_compiled := map (\<lambda>g. map (compiledRule compile) (cg_rules g)) (cc_groups (ca_conditions rule))\<rparr>)"
proof -
  have "compiles compile r" if "g \<in> set (cc_groups (ca_conditions rule))" "r \<in> set (cg_rules g)" for g r
    using assms that unfolding conditions_wf_def condition_wf_def compiles_def by blast
  then have "list_all (\<lambda>g. list_all (compiles compile) (cg_rules g)) (cc_groups (ca_conditions rule))"
    unfolding list_all_iff by blast
  then show ?thesis
    by (simp add: Matcher_Provision_def govetoCacheMatcher_def provisionGroups_map)
qed

text \<open>
  Property C17: validated conditions provision and match as declared. If the cache
  policy is accepted by its validation, which compiles every path expression, then
  the matcher configured from any of its rules is provisioned without an error. On
  every request its match returns, and it is a hit exactly if the request headers
  allow the cache (no bypassing directive, and no range that the cache cannot serve)
  and the path meets the condition groups combined by their operators. A hit carries
  the requested range in its context, and a request without a range is unchanged.
\<close>

theorem validated_conditions_match:
  assumes "case_ok L" "CachePolicy_NormalizeAndValidate L p = Ok q" "rule \<in> set (cy_rules q)"
    and "\<forall>s. gl_regexp L s \<longleftrightarrow> compile s \<noteq> None"
  shows "\<exists>m. Matcher_Provision compile (govetoCacheMatcher q rule) = Some m
    \<and> (\<forall>r. \<exists>hit r'. Matcher_Match L m r = Some (hit, r')
         \<and> (hit \<longleftrightarrow> cache_usable L q (mq_header r) \<and> conditions_hold L compile (mq_path r) (ca_conditions rule))
         \<and> (if Join (HeaderValues (mq_header r) ''Range'') = [] then r' = r
            else hit \<longrightarrow> FromContext (mq_context r') = parseCacheableRange (Join (HeaderValues (mq_header r) ''Range''))))"
proof -
  note wf = policy_conditions_wf [OF assms(1,2,3)]
  let ?m = "(govetoCacheMatcher q rule)
    \<lparr>ma_compiled := map (\<lambda>g. map (compiledRule compile) (cg_rules g)) (cc_groups (ca_conditions rule))\<rparr>"
  have m: "matchConditions L ?m r = Some (conditions_hold L compile (mq_path r) (ca_conditions rule), r)" for r
    using wf by (intro matchConditions_holds) (simp_all add: govetoCacheMatcher_def)
  have c: "ma_bypassCacheControl ?m = cy_bypassCacheControl q" "ma_cacheRangeRequests ?m = cy_cacheRangeRequests q"
    by (simp_all add: govetoCacheMatcher_def)
  show ?thesis
    unfolding policy_provisions [OF wf assms(4)]
    by (rule exI [where x = ?m])
      (auto simp: Matcher_Match_def m c cache_usable_def cacheableRange_def Let_def FromContext_def WithContext_def
        split: option.split)
qed

definition sampleMatch :: match_request where
  "sampleMatch = \<lparr>mq_path = ''/a.JS'', mq_header = (\<lambda>_. []), mq_context = RangeUnset\<rparr>"

lemma sampleMatch_usable: "cache_usable asciiLib sampleCacheNormal (mq_header sampleMatch)"
proof -
  have "\<not> matchesCacheControl asciiLib [] [''no-store'', ''private'']"
    by code_simp
  then show ?thesis
    by (simp add: cache_usable_def sampleMatch_def HeaderValues_def Join_def sampleCacheNormal_def sampleCachePolicy_def
        DefaultCachePolicy_def)
qed

lemma sampleMatch_holds: "conditions_hold asciiLib compile (mq_path sampleMatch) (ca_conditions sampleRuleNormal)"
proof -
  have "TrimPrefix (ToLower asciiLib (Ext ''/a.JS'')) ''.'' = ''js''"
    by code_simp
  then have "has_extension asciiLib ''/a.JS'' ''js''"
    by (simp only: has_extension_iff [of "''js''"] list.simps not_False_eq_True)
  then show ?thesis
    by (simp add: conditions_hold_def quantified_def rule_holds_def sampleRuleNormal_def sampleMatch_def)
qed

theorem validated_conditions_match_witness:
  "\<exists>m r'. Matcher_Provision (\<lambda>s. Some (\<lambda>path. path = s)) (govetoCacheMatcher sampleCacheNormal sampleRuleNormal) = Some m
     \<and> Matcher_Match asciiLib m sampleMatch = Some (True, r')"
proof -
  have "sampleRuleNormal \<in> set (cy_rules sampleCacheNormal)" "\<forall>s. gl_regexp asciiLib s \<longleftrightarrow> Some (\<lambda>path :: string. path = s) \<noteq> None"
    by (simp_all add: sampleCacheNormal_def asciiLib_def)
  from validated_conditions_match [OF asciiLib_ok sampleCachePolicy_ok this] obtain m hit r'
    where p: "Matcher_Provision (\<lambda>s. Some (\<lambda>path. path = s)) (govetoCacheMatcher sampleCacheNormal sampleRuleNormal) = Some m"
    and h: "Matcher_Match asciiLib m sampleMatch = Some (hit, r')"
      "hit \<longleftrightarrow> cache_usable asciiLib sampleCacheNormal (mq_header sampleMatch)
         \<and> conditions_hold asciiLib (\<lambda>s. Some (\<lambda>path. path = s)) (mq_path sampleMatch) (ca_conditions sampleRuleNormal)"
    by (elim exE conjE allE [where x = sampleMatch])
  have hit
    using h(2) sampleMatch_usable sampleMatch_holds by (simp only: simp_thms)
  then show ?thesis
    using p h(1) by (intro exI [where x = m] exI [where x = r'] conjI) simp_all
qed

end
