(* ===== verification/Spec2Isabelle.thy ===== *)
theory Spec2Isabelle
  imports Log_Queue Alert_Engine Dns_Scheduler Rbac Policy_Compression Policy_Cache Policy_Delivery Policy_Security Origin_Selection Job_Queue Object_Format Cache_Match
begin

text \<open>
  A verification library for the edge agent, the cache and the control plane of this
  repository. The control plane stores sites and their policies in PostgreSQL, publishes
  them to edge nodes, keeps DNS records on healthy nodes, runs background jobs and raises
  alerts. An edge node is a web server (Caddy) with modules of this repository for caching,
  origin selection and filtering, and an agent that queues access logs on disk and
  delivers them.

  \<^bold>\<open>Parts and theories.\<close> Paths are relative to \<open>src/\<close>. A struct is a record, an enum a
  datatype, a method a function with the code's name that takes and returns the state.

  \<^item> \<open>Prelude\<close>: bytes, big-endian integers, 64-bit wrap-around, results as sums, list lemmas.
  \<^item> \<open>Go_Strings\<close>: what the sources use of \<open>strings\<close>, \<open>strconv\<close>, \<open>sort\<close> and \<open>net/textproto\<close>.
  \<^item> \<open>Log_Codec\<close>, \<open>Log_Queue\<close> (\<open>internal/edgeagent/logqueue.go\<close>): the byte format of log
    envelopes and chunks, and the durable queue over a bolt database: \<open>AppendBatch\<close>,
    \<open>BatchSized\<close>, \<open>DropOversizedHead\<close>, \<open>Ack\<close>. The lemmas give the queue as a list of
    records with ids (\<open>queued\<close>) and say what each operation does to that list, that an
    error leaves the queue as it was, and that encoding and decoding are inverse.
  \<^item> \<open>Alert_Engine\<close> (\<open>internal/alerting/state.go\<close>, \<open>ops.go\<close>, \<open>engine.go\<close>): rule evaluation,
    operator actions and delivery bookkeeping on the alert tables; \<open>alert_step\<close> is any
    of these steps. The lemmas relate open alerts to observations and order the status.
  \<^item> \<open>Dns_Scheduler\<close> (\<open>internal/dnssync/scheduler.go\<close>, removal pacing of \<open>service.go\<close>):
    which nodes are published and how fast published nodes may be removed.
  \<^item> \<open>Rbac\<close> (\<open>internal/rbac/rbac.go\<close>): roles, permissions and scoped API keys.
  \<^item> \<open>Policy_Compression\<close>, \<open>Policy_Cache\<close>, \<open>Policy_Delivery\<close>, \<open>Policy_Security\<close>
    (\<open>internal/policy\<close>): validation of the policies. An accepted policy is well formed,
    and validating it again changes nothing (with the one exception that is stated).
  \<^item> \<open>Origin_Selection\<close> (\<open>caddy/origingovernance\<close>): candidates, schedulers and metrics.
  \<^item> \<open>Job_Queue\<close> (\<open>internal/jobqueue/jobqueue.go\<close>): the lease protocol of background jobs;
    \<open>job_step\<close> has one rule for each database transaction of a worker or an operator, and
    \<open>RunOne\<close> is shown to be a sequence of such steps.
  \<^item> \<open>Object_Format\<close> (\<open>caddy/simplefs/format.go\<close>): the chunked file format of cached objects;
    the reader refines reading the plain bytes.
  \<^item> \<open>Cache_Range\<close> (\<open>internal/cacherange\<close>, \<open>parseCacheableRange\<close>, the response bodies of
    \<open>caddy/simplefs/simplefs.go\<close>): byte ranges of cached responses, over the object reader.
  \<^item> \<open>Http_Conditional\<close> (\<open>internal/httpconditional\<close>, the entity tag check of
    \<open>internal/cachecore\<close>): request preconditions.
  \<^item> \<open>Cache_Match\<close> (\<open>caddy/cachematch/matcher.go\<close>): the request matcher of the cache, fed by
    a rule of a validated cache policy.

  \<^bold>\<open>Interfaces.\<close> \<open>bolt_db\<close> in \<open>Log_Queue\<close> states what the queue relies on of its database
  and is interpreted on a sorted list of keys and values; every statement on the queue
  holds for each database with these laws. \<open>byte_reader\<close> in \<open>Cache_Range\<close> states what a
  response body relies on of the reader below it and is interpreted on the object reader
  of \<open>Object_Format\<close>; the range property rests on that interpretation.

  \<^bold>\<open>Parameters.\<close> Code outside the repository is an argument: the bolt database, the LZ4 block
  functions (\<open>lz4_ok\<close>: what was compressed decompresses to itself), the record \<open>golib\<close> of
  Unicode case tables, regular expressions, URL and JSON parsers and SHA-256 (\<open>case_ok\<close>:
  mapping case twice is mapping it once, and keeps a string trimmed), the record \<open>netip\<close>,
  the date parser, the random number generator and the proxy's upstream objects. Database
  tables are lists of rows in creation order; a transaction applies or leaves them as they
  were, and its faults, row locks and clocks are arguments.

  \<^bold>\<open>Integers and fuel.\<close> \<open>uint64\<close> is \<open>nat\<close> with \<open>u64\<close> on additions that may wrap, \<open>int64\<close> is
  \<open>int\<close> with \<open>wrap64\<close>, a Go \<open>int\<close> that stays small is \<open>int\<close> or \<open>nat\<close>. The loops of the log queue
  (\<open>evictLoop\<close>, \<open>dropLoop\<close>, \<open>ackLoop\<close>) run over the keys of the database with a fuel
  above their number, since each turn removes a key or is the last; \<open>readLoop\<close> gets one
  more than the bytes wanted, since each turn copies a byte; \<open>discardLoop\<close> and \<open>copyLoop\<close>
  get one more than the bytes left. Running out is an error value of its own
  (\<open>LogOutOfFuel\<close>, \<open>ObjectOutOfFuel\<close>), and the functional lemmas show other results, so
  that it does not occur. \<open>etagLoop\<close>, \<open>trimFirst\<close> and \<open>decimal\<close> are total with a
  termination proof.

  \<^bold>\<open>Not modelled.\<close> Input and output around these parts: the HTTP routes of the control
  plane, the database client and its SQL reports, the agent channel, DNS provider clients,
  certificate issuing, node installation, notifications and metrics, and generated code.
  Concurrency inside one process (locks, goroutines, atomics) is left out: operations that
  the code serialises are single steps here. The index, eviction and purging of the cache
  store (\<open>caddy/simplefs/simplefs.go\<close>, \<open>batch.go\<close>) and the cache handler
  (\<open>caddy/govetocache\<close>) interleave file-system, database and network effects; of them only the
  object format, the bodies and the range, precondition and matching decisions are here.
  The evaluation of firewall rules (\<open>caddy/waf\<close>) and the firewall language
  (\<open>internal/wafdsl\<close>) could be modelled in the same style and are not; the validation of
  their policy is.
\<close>

text \<open>
  Property C9: what is appended is delivered. A batch that fits an empty queue is
  read back record for record, with consecutive ids and filled-in times, by one
  \<open>BatchSized\<close> without a byte limit; acknowledging its last id empties the queue.
\<close>

theorem append_batch_ack:
  assumes "bolt_db B" "lq_inv json B q" "queued B q = []" "rs \<noteq> []"
    and "buildLogChunks json rs t (lq_maxBytes q) = Ok cks" "list_all (typed t) rs"
    and "bo_sequence B (lq_db q) + length rs < 2 ^ 63"
    and "metaUint B (lq_db q) totalBytesKey + sum_list (map (length \<circ> ck_data) cks) \<le> lq_maxBytes q"
    and "int (length rs) \<le> limit"
  shows "\<exists>q' sz q''. snd (AppendBatch B json t None q rs) = q'
    \<and> BatchSized B json None q' limit 0 = (delivered t (bo_sequence B (lq_db q) + 1) rs, sz, None)
    \<and> Ack B None q' (bo_sequence B (lq_db q) + length rs) = (Ok (), q'')
    \<and> queued B q'' = []"
proof -
  let ?f = "bo_sequence B (lq_db q) + 1"
  let ?new = "zip [?f..<?f + length rs] (map (\<lambda>r. envelope r t) rs)"
  obtain q' where q': "snd (AppendBatch B json t None q rs) = q'" "lq_inv json B q'" "queued B q' = ?new"
    using bolt_db.AppendBatch_appends [OF assms(1,2,4-7)] assms(3,8) by auto
  have acc: "list_all (acceptable json (lq_maxBytes q)) rs"
    using assms(5) buildLogChunks_iff by blast
  have lim: "0 < limit" "length ?new \<le> nat limit"
    using assms(4,9) by (cases rs; auto)+
  have "BatchSized B json None q' limit 0 = (delivered t ?f rs, batchBytes ?new, None)"
    using bolt_db.BatchSized_reads [OF assms(1) q'(2), of limit 0] lim
      batchPrefix_unlimited [OF lim(2), of 0] recordOf_appended [OF acc assms(6), of ?f] q'(3)
    by (simp add: Let_def del: upt_Suc)
  moreover obtain q'' where "Ack B None q' (?f + length rs - 1) = (Ok (), q'')" "queued B q'' = []"
    using bolt_db.Ack_removes [OF assms(1) q'(2), of "?f + length rs - 1"] assms(7) q'(3)
      filter_appended [OF assms(4), of ?f "\<lambda>r. envelope r t"] by (auto simp del: upt_Suc)
  ultimately show ?thesis
    using q'(1) by auto
qed

theorem append_batch_ack_witness:
  "\<exists>q' sz. snd (AppendBatch listBolt (\<lambda>_. True) 5 None emptyQueue [sampleRecord]) = q'
    \<and> BatchSized listBolt (\<lambda>_. True) None q' 10 0 = (delivered 5 1 [sampleRecord], sz, None)"
proof -
  obtain cks where "buildLogChunks (\<lambda>_. True) [sampleRecord] 5 1000 = Ok cks"
      "sum_list (map (length \<circ> ck_data) cks) = 39"
    using sampleRecord_chunks by blast
  then show ?thesis
    using append_batch_ack [OF list_bolt.bolt_db_axioms emptyQueue_facts(1,2), of "[sampleRecord]" "\<lambda>_. True" 5 cks 10]
    by (auto simp: emptyQueue_facts sampleRecord_facts)
qed

end
